(* ===== verification/Prelude.thy ===== *)
theory Prelude
  imports Main "HOL-Library.Word"
begin

text \<open>
  Shared vocabulary of the development: the machine types of the C++ sources, the
  result type of code that may throw, and the generic facts on machine words, lists and
  option values that the component theories use.

  \<^item> \<open>size_t\<close>, \<open>uint64_t\<close> and \<open>uintptr_t\<close> are \<^typ>\<open>64 word\<close>, \<open>uint32_t\<close> is
    \<^typ>\<open>32 word\<close>, \<open>uint8_t\<close> is \<^typ>\<open>8 word\<close>: addition and subtraction wrap, as in the
    source;
  \<^item> a throwing function returns \<open>error + 'a\<close> with \<open>Inl\<close> for the exception;
  \<^item> a raw pointer \<open>T*\<close> is \<open>addr option\<close>, \<open>None\<close> being \<open>nullptr\<close>.
\<close>

unbundle bit_operations_syntax

type_synonym u8 = "8 word"
type_synonym u16 = "16 word"
type_synonym u32 = "32 word"
type_synonym u64 = "64 word"
type_synonym size_t = "64 word"

text \<open>Addresses of objects: the value of a \<open>T*\<close>; \<open>nullptr\<close> is \<open>None\<close>.\<close>

type_synonym addr = nat
type_synonym ptr = "nat option"

named_theorems bits \<open>facts that read a machine word through its bits\<close>

text \<open>
  The exceptions of the standard library the sources throw, and their own; the last one
  marks an access the language leaves undefined (an index past the end of an array).
\<close>

datatype exn = invalid_argument | runtime_error | logic_error | system_error | out_of_range
  | bad_alloc | OutOfMemory | SlabReleaseAborted | undefined_behaviour

text \<open>Sequencing of code that may throw: the first exception ends it.\<close>

fun ebind :: "'e + 'a \<Rightarrow> ('a \<Rightarrow> 'e + 'b) \<Rightarrow> 'e + 'b" where
  "ebind (Inl e) k = Inl e"
| "ebind (Inr x) k = k x"

lemma ebind_Inr_iff: "ebind m k = Inr y \<longleftrightarrow> (\<exists>x. m = Inr x \<and> k x = Inr y)"
  by (cases m) auto

lemma ebind_InrE:
  assumes "ebind m k = Inr y" obtains x where "m = Inr x" and "k x = Inr y"
  using assms by (auto simp: ebind_Inr_iff)

section \<open>Machine words\<close>

text \<open>A mask \<open>1 << n\<close> stays in the form the source writes it.\<close>

declare push_bit_of_1 [simp del]

lemma and_push_bit_1_iff [bits]:
  "(w AND push_bit n 1 = 0) \<longleftrightarrow> \<not> bit w n" for w :: "'a::len word"
  using bit_iff_and_push_bit_not_eq_0 [of w n] by blast

lemma and_push_bit_1_iff' [bits]:
  "(push_bit n 1 AND w = 0) \<longleftrightarrow> \<not> bit w n" for w :: "'a::len word"
  using and_push_bit_1_iff [of w n] by (metis and.commute)

text \<open>Adding one where the low bits are not all ones leaves the high bits alone.\<close>

lemma low_plus_one:
  fixes w :: "'a::len word"
  assumes n: "n \<le> LENGTH('a)" and lo: "unat (take_bit n w) \<noteq> 2 ^ n - 1"
  shows "drop_bit n (w + 1) = drop_bit n w"
    and "unat (take_bit n (w + 1)) = unat (take_bit n w) + 1"
proof -
  define k where "k = unat w"
  have kb: "k < 2 ^ LENGTH('a)" unfolding k_def by (rule unsigned_less)
  have tb: "unat (take_bit n v) = unat v mod 2 ^ n" for v :: "'a word"
    by (subst unsigned_take_bit_eq) (rule take_bit_eq_mod)
  from lo tb have km: "k mod 2 ^ n \<noteq> 2 ^ n - 1" by (simp add: k_def)
  have pos: "(0::nat) < 2 ^ n" by simp
  have lt: "k mod 2 ^ n < 2 ^ n" by simp
  have lt2: "k mod 2 ^ n + 1 < 2 ^ n" using km lt by linarith
  have dv: "(k + 1) div 2 ^ n = k div 2 ^ n"
    using km pos by (simp add: div_Suc mod_Suc)
  have md: "(k + 1) mod 2 ^ n = k mod 2 ^ n + 1"
    using lt2 by (simp add: mod_Suc)
  have "k + 1 < 2 ^ LENGTH('a)"
  proof (rule ccontr)
    assume "\<not> k + 1 < 2 ^ LENGTH('a)"
    with kb have "k + 1 = 2 ^ LENGTH('a)" by linarith
    with n have "(k + 1) mod 2 ^ n = 0"
      by (metis dvd_imp_mod_0 le_imp_power_dvd)
    with md show False by simp
  qed
  then have u: "unat (w + 1) = k + 1"
    by (simp add: k_def unat_word_ariths)
  have db: "unat (drop_bit n v) = unat v div 2 ^ n" for v :: "'a word"
    by (subst unat_drop_bit_eq) (rule drop_bit_eq_div)
  show "drop_bit n (w + 1) = drop_bit n w"
    using dv by (intro word_unat_eq_iff [THEN iffD2]) (simp only: db u k_def [symmetric])
  show "unat (take_bit n (w + 1)) = unat (take_bit n w) + 1"
    using md by (simp add: tb u k_def)
qed

lemma low_minus_one:
  fixes w :: "'a::len word"
  assumes n: "n \<le> LENGTH('a)" and lo: "unat (take_bit n w) \<noteq> 0"
  shows "drop_bit n (w - 1) = drop_bit n w"
    and "unat (take_bit n (w - 1)) = unat (take_bit n w) - 1"
proof -
  have tb: "unat (take_bit n v) = unat v mod 2 ^ n" for v :: "'a word"
    by (subst unsigned_take_bit_eq) (rule take_bit_eq_mod)
  define k where "k = unat (w - 1)"
  have w0: "unat w \<noteq> 0" using lo tb by (metis mod_0)
  then have "w \<noteq> 0" by auto
  then have k: "unat w = k + 1" using w0
    by (simp add: k_def unat_minus_one)
  have notmax: "unat (take_bit n (w - 1)) \<noteq> 2 ^ n - 1"
  proof
    assume "unat (take_bit n (w - 1)) = 2 ^ n - 1"
    then have "k mod 2 ^ n = 2 ^ n - 1" by (simp add: tb k_def)
    then have "(k + 1) mod 2 ^ n = 0" by (simp add: mod_Suc)
    with k lo tb show False by simp
  qed
  from low_plus_one [OF n notmax]
  show "drop_bit n (w - 1) = drop_bit n w"
    and "unat (take_bit n (w - 1)) = unat (take_bit n w) - 1" by simp_all
qed

lemma bit_of_drop_bit:
  "drop_bit n v = drop_bit n w \<Longrightarrow> n \<le> k \<Longrightarrow> bit v k \<longleftrightarrow> bit w k" for v w :: "'a::len word"
  by (metis bit_drop_bit_eq comp_apply le_add_diff_inverse)

text \<open>Small words have no high bits; disjoint words add as they are joined.\<close>

lemma take_bit_small: "unat w < 2 ^ n \<Longrightarrow> take_bit n w = w" for w :: "'a::len word"
  by (rule word_unat_eq_iff [THEN iffD2]) (simp add: unsigned_take_bit_eq take_bit_nat_eq_self)

lemma bit_small: "unat w < 2 ^ n \<Longrightarrow> bit w k \<Longrightarrow> k < n" for w :: "'a::len word"
  using take_bit_small [of w n] by (metis bit_take_bit_iff)

lemma add_disjoint:
  "(\<And>k. bit a k \<Longrightarrow> \<not> bit b k) \<Longrightarrow> a + b = a OR b" for a b :: "'a::len word"
  by (rule disjunctive_add_eq_or) (auto simp: bit_eq_iff bit_simps)

lemma ucast_down_add:
  "ucast (a + b) = (ucast a + ucast b :: 'b::len word)" if "LENGTH('b) \<le> LENGTH('a)"
  for a b :: "'a::len word"
proof -
  have "(of_nat (unat (a + b)) :: 'b word) = of_nat (unat a + unat b)"
  proof (rule word_of_nat_eq_iff [THEN iffD2])
    have "unat (a + b) = take_bit LENGTH('a) (unat a + unat b)"
      by (simp add: unat_word_ariths take_bit_eq_mod)
    then show "take_bit LENGTH('b) (unat (a + b)) = take_bit LENGTH('b) (unat a + unat b)"
      using that by (simp add: min_def)
  qed
  then show ?thesis by simp
qed

lemma bit_bounded: "bit w k \<Longrightarrow> k < LENGTH('a)" for w :: "'a::len word"
  by (rule bit_imp_le_length)

text \<open>A step of a bounded counter does not wrap.\<close>

lemma unat_step:
  fixes a b :: "'a::len word"
  assumes "a < b"
  shows "unat (a + 1) = Suc (unat a)" and "Suc (unat (b - 1)) = unat b" and "Suc (unat a) \<le> unat b"
proof -
  have lt: "unat a < unat b" using assms by (simp add: word_less_nat_alt)
  have "Suc (unat a) < 2 ^ LENGTH('a)" using lt unsigned_less [of b, where 'a = nat] by linarith
  then show "unat (a + 1) = Suc (unat a)" by (simp add: unat_word_ariths)
  from lt have "b \<noteq> 0" by auto
  then show "Suc (unat (b - 1)) = unat b" using lt by (simp add: unat_minus_one)
  show "Suc (unat a) \<le> unat b" using lt by simp
qed

lemma unat_step_measure:
  fixes a b :: "'a::len word"
  assumes "a < b"
  shows "unat b - unat (a + 1) < unat b - unat a" and "unat (b - 1) < unat b"
  using unat_step [OF assms] by simp_all

section \<open>Ends of lists as pointers\<close>

definition first_ptr :: "addr list \<Rightarrow> ptr \<Rightarrow> ptr" where
  "first_ptr xs n = (case xs of [] \<Rightarrow> n | x # _ \<Rightarrow> Some x)"

definition last_ptr :: "ptr \<Rightarrow> addr list \<Rightarrow> ptr" where
  "last_ptr p xs = (if xs = [] then p else Some (last xs))"

lemma first_ptr_simps [simp]:
  "first_ptr [] n = n" "first_ptr (x # xs) n = Some x"
  by (simp_all add: first_ptr_def)

lemma last_ptr_simps [simp]:
  "last_ptr p [] = p" "last_ptr p (x # xs) = last_ptr (Some x) xs"
  by (simp_all add: last_ptr_def)

lemma first_ptr_append [simp]: "first_ptr (xs @ ys) n = first_ptr xs (first_ptr ys n)"
  by (cases xs) simp_all

lemma last_ptr_append [simp]: "last_ptr p (xs @ ys) = last_ptr (last_ptr p xs) ys"
  by (induction xs arbitrary: p) simp_all

lemma first_ptr_eq_None [simp]: "first_ptr xs None = None \<longleftrightarrow> xs = []"
  by (cases xs) simp_all

lemma last_ptr_eq_None [simp]: "last_ptr None xs = None \<longleftrightarrow> xs = []"
  by (simp add: last_ptr_def)

lemma end_ptr_Some [simp]:
  "\<exists>y. last_ptr (Some x) xs = Some y" "\<exists>y. first_ptr xs (Some x) = Some y"
  "last_ptr (Some x) xs \<noteq> None" "first_ptr xs (Some x) \<noteq> None"
  by (auto simp: last_ptr_def first_ptr_def split: list.splits)

lemma end_ptr_neq [simp]:
  "x \<noteq> y \<Longrightarrow> x \<notin> set ys \<Longrightarrow> Some x \<noteq> first_ptr ys (Some y)"
  "x \<noteq> y \<Longrightarrow> x \<notin> set ys \<Longrightarrow> Some x \<noteq> last_ptr (Some y) ys"
  "x \<noteq> y \<Longrightarrow> x \<notin> set ys \<Longrightarrow> first_ptr ys (Some y) \<noteq> Some x"
  "x \<noteq> y \<Longrightarrow> x \<notin> set ys \<Longrightarrow> last_ptr (Some y) ys \<noteq> Some x"
  by (auto simp: last_ptr_def first_ptr_def split: list.splits if_splits)

lemma first_ptr_SomeD: "first_ptr xs None = Some y \<Longrightarrow> \<exists>ys. xs = y # ys"
  by (cases xs) simp_all

lemma last_ptr_SomeD: "last_ptr None xs = Some y \<Longrightarrow> \<exists>ys. xs = ys @ [y]"
  by (auto simp: last_ptr_def split: if_splits) (metis append_butlast_last_id)

lemma last_ptr_in_set: "last_ptr None xs = Some y \<Longrightarrow> y \<in> set xs"
  by (auto dest: last_ptr_SomeD)

lemma first_ptr_in_set: "first_ptr xs None = Some y \<Longrightarrow> y \<in> set xs"
  by (auto dest: first_ptr_SomeD)

end
