(* ===== verification/Refcount.thy ===== *)
theory Refcount
  imports Prelude
begin

text \<open>
  The reference count and flag word of a cache item: \<open>class RefcountWithFlags\<close> of
  \<open>cachelib/allocator/Refcount.h\<close>. One 32-bit word holds 18 bits of access references,
  3 administrative bits (linked, accessible, exclusive) and 11 flag bits. The theory
  models the word operations as they are written, the compare-and-swap loop
  \<open>atomicUpdateValue\<close> under interference of other threads, and the protocol in which
  threads use the operations; it shows that the word implements an abstract counter with
  separate flags and that an item marked for eviction or moving has no user handle.
\<close>

section \<open>The layout of the word\<close>

type_synonym Value = u32

definition kNumFlags :: nat where "kNumFlags = 11"
definition kNumAdminRefBits :: nat where "kNumAdminRefBits = 3"
definition kNumAccessRefBits :: nat where "kNumAccessRefBits = 18"

definition kAccessRefMask :: Value where
  "kAccessRefMask = drop_bit (32 - kNumAccessRefBits) (- 1)"

definition kRefMask :: Value where
  "kRefMask = drop_bit (32 - kNumAdminRefBits - kNumAccessRefBits) (- 1)"

datatype AdminRef = kLinked | kAccessible | kExclusive

datatype Flags = kMMFlag0 | kMMFlag1 | kMMFlag2 | kIsChainedItem | kHasChainedItem
  | kNvmClean | kNvmEvicted | kUnevictable_NOOP

fun AdminRef_bit :: "AdminRef \<Rightarrow> nat" where
  "AdminRef_bit kLinked = kNumAccessRefBits"
| "AdminRef_bit kAccessible = kNumAccessRefBits + 1"
| "AdminRef_bit kExclusive = kNumAccessRefBits + 2"

fun Flags_bit :: "Flags \<Rightarrow> nat" where
  "Flags_bit kMMFlag0 = kNumAccessRefBits + kNumAdminRefBits"
| "Flags_bit kMMFlag1 = kNumAccessRefBits + kNumAdminRefBits + 1"
| "Flags_bit kMMFlag2 = kNumAccessRefBits + kNumAdminRefBits + 2"
| "Flags_bit kIsChainedItem = kNumAccessRefBits + kNumAdminRefBits + 3"
| "Flags_bit kHasChainedItem = kNumAccessRefBits + kNumAdminRefBits + 4"
| "Flags_bit kNvmClean = kNumAccessRefBits + kNumAdminRefBits + 5"
| "Flags_bit kNvmEvicted = kNumAccessRefBits + kNumAdminRefBits + 6"
| "Flags_bit kUnevictable_NOOP = kNumAccessRefBits + kNumAdminRefBits + 7"

definition getAdminRef :: "AdminRef \<Rightarrow> Value" where
  "getAdminRef a = push_bit (AdminRef_bit a) 1"

definition getFlag :: "Flags \<Rightarrow> Value" where
  "getFlag f = push_bit (Flags_bit f) 1"

section \<open>Atomic updates\<close>

datatype refcount_error = RefcountOverflow | RefcountUnderflow

datatype IncResult = kIncOk | kIncFailedMoving | kIncFailedEviction

text \<open>
  \<open>atomicUpdateValue\<close> loads the word, evaluates the predicate on the loaded value (which
  may throw), and tries a strong compare-and-swap. Other threads may write the word
  before each compare-and-swap: \<open>env n\<close> is what they make of it before attempt \<open>n\<close>. A
  failed attempt reloads the word. The loop may run forever under interference, which is
  the value \<open>None\<close>.
\<close>

partial_function (option) atomicUpdateValue_loop ::
  "(Value \<Rightarrow> refcount_error + bool) \<Rightarrow> (Value \<Rightarrow> Value) \<Rightarrow> (nat \<Rightarrow> Value \<Rightarrow> Value) \<Rightarrow>
   nat \<Rightarrow> Value \<Rightarrow> ((refcount_error + bool) \<times> Value) option" where
  "atomicUpdateValue_loop predicate newValueF env n curValue =
     (case predicate curValue of
        Inl e \<Rightarrow> Some (Inl e, curValue)
      | Inr ok \<Rightarrow>
          if \<not> ok then Some (Inr False, curValue)
          else (let shared = env n curValue in
                if shared = curValue then Some (Inr True, newValueF curValue)
                else atomicUpdateValue_loop predicate newValueF env (Suc n) shared))"

text \<open>One update without interference: what the operation means at one instant.\<close>

definition atomicUpdateValue ::
  "(Value \<Rightarrow> refcount_error + bool) \<Rightarrow> (Value \<Rightarrow> Value) \<Rightarrow> Value \<Rightarrow> (refcount_error + bool) \<times> Value" where
  "atomicUpdateValue predicate newValueF v =
     (case predicate v of
        Inl e \<Rightarrow> (Inl e, v)
      | Inr ok \<Rightarrow> if ok then (Inr True, newValueF v) else (Inr False, v))"

text \<open>The same for the callers whose predicate does not throw.\<close>

definition atomicUpdateValue_noexcept ::
  "(Value \<Rightarrow> bool) \<Rightarrow> (Value \<Rightarrow> Value) \<Rightarrow> Value \<Rightarrow> bool \<times> Value" where
  "atomicUpdateValue_noexcept predicate newValueF v =
     (case atomicUpdateValue (\<lambda>c. Inr (predicate c)) newValueF v of (r, v') \<Rightarrow> (r = Inr True, v'))"

section \<open>Operations\<close>

definition incRef_predicate :: "Value \<Rightarrow> refcount_error + bool" where
  "incRef_predicate curValue =
     (let bitMask = getAdminRef kExclusive;
          exclusiveBitIsSet = (curValue AND bitMask \<noteq> 0)
      in if curValue AND kAccessRefMask = kAccessRefMask then Inl RefcountOverflow
         else if exclusiveBitIsSet then Inr False
         else Inr True)"

definition incRef_res :: "Value \<Rightarrow> IncResult" where
  "incRef_res curValue =
     (if curValue AND getAdminRef kExclusive \<noteq> 0
      then (if curValue AND kAccessRefMask = 0 then kIncFailedEviction else kIncFailedMoving)
      else kIncOk)"

definition incRef :: "Value \<Rightarrow> (refcount_error + IncResult) \<times> Value" where
  "incRef v =
     (case atomicUpdateValue incRef_predicate (\<lambda>curValue. curValue + 1) v of
        (Inl e, v') \<Rightarrow> (Inl e, v')
      | (Inr _, v') \<Rightarrow> (Inr (incRef_res v), v'))"

definition decRef :: "Value \<Rightarrow> (refcount_error + Value) \<times> Value" where
  "decRef v =
     (case atomicUpdateValue
             (\<lambda>curValue. if curValue AND kAccessRefMask = 0 then Inl RefcountUnderflow else Inr True)
             (\<lambda>curValue. curValue - 1) v of
        (Inl e, v') \<Rightarrow> (Inl e, v')
      | (Inr _, v') \<Rightarrow> (Inr ((v - 1) AND kRefMask), v'))"

definition getAccessRef :: "Value \<Rightarrow> Value" where
  "getAccessRef raw =
     (let accessRef = raw AND kAccessRefMask in
      if raw AND getAdminRef kExclusive \<noteq> 0 \<and> 1 \<le> accessRef then accessRef - 1 else accessRef)"

definition getRefWithAccessAndAdmin :: "Value \<Rightarrow> Value" where
  "getRefWithAccessAndAdmin raw = raw AND kRefMask"

definition markInMMContainer :: "Value \<Rightarrow> Value" where
  "markInMMContainer v = v OR getAdminRef kLinked"
definition unmarkInMMContainer :: "Value \<Rightarrow> Value" where
  "unmarkInMMContainer v = v AND NOT (getAdminRef kLinked)"
definition isInMMContainer :: "Value \<Rightarrow> bool" where
  "isInMMContainer v \<longleftrightarrow> v AND getAdminRef kLinked \<noteq> 0"

definition markAccessible :: "Value \<Rightarrow> Value" where
  "markAccessible v = v OR getAdminRef kAccessible"
definition unmarkAccessible :: "Value \<Rightarrow> Value" where
  "unmarkAccessible v = v AND NOT (getAdminRef kAccessible)"
definition isAccessible :: "Value \<Rightarrow> bool" where
  "isAccessible v \<longleftrightarrow> v AND getAdminRef kAccessible \<noteq> 0"

definition markForEviction_predicate :: "Value \<Rightarrow> bool" where
  "markForEviction_predicate curValue =
     (let unlinked = (curValue AND getAdminRef kLinked = 0);
          alreadyExclusive = (curValue AND getAdminRef kExclusive \<noteq> 0)
      in if unlinked \<or> alreadyExclusive then False
         else if curValue AND kAccessRefMask \<noteq> 0 then False
         else True)"

definition markForEviction :: "Value \<Rightarrow> bool \<times> Value" where
  "markForEviction v =
     atomicUpdateValue_noexcept markForEviction_predicate (\<lambda>curValue. curValue OR getAdminRef kExclusive) v"

definition unmarkForEviction :: "Value \<Rightarrow> Value \<times> Value" where
  "unmarkForEviction v = (let v' = v AND NOT (getAdminRef kExclusive) in (v' AND kRefMask, v'))"

definition isMarkedForEviction :: "Value \<Rightarrow> bool" where
  "isMarkedForEviction raw \<longleftrightarrow> raw AND getAdminRef kExclusive \<noteq> 0 \<and> raw AND kAccessRefMask = 0"

definition markMoving_predicate :: "Value \<Rightarrow> bool" where
  "markMoving_predicate curValue =
     (let unlinked = (curValue AND getAdminRef kLinked = 0);
          alreadyExclusive = (curValue AND getAdminRef kExclusive \<noteq> 0)
      in if curValue AND kAccessRefMask > 0 \<or> unlinked \<or> alreadyExclusive then False else True)"

definition markMoving :: "Value \<Rightarrow> bool \<times> Value" where
  "markMoving v =
     atomicUpdateValue_noexcept markMoving_predicate (\<lambda>curValue. (curValue + 1) OR getAdminRef kExclusive) v"

definition unmarkMoving :: "Value \<Rightarrow> Value \<times> Value" where
  "unmarkMoving v =
     (let newValue = (\<lambda>curValue. (curValue - 1) AND NOT (getAdminRef kExclusive));
          (_, v') = atomicUpdateValue_noexcept (\<lambda>_. True) newValue v
      in (newValue v AND kRefMask, v'))"

definition isMoving :: "Value \<Rightarrow> bool" where
  "isMoving raw \<longleftrightarrow> raw AND getAdminRef kExclusive \<noteq> 0 \<and> raw AND kAccessRefMask \<noteq> 0"

definition markForEvictionWhenMoving :: "Value \<Rightarrow> bool \<times> Value" where
  "markForEvictionWhenMoving v =
     atomicUpdateValue_noexcept (\<lambda>_. True) (\<lambda>curValue. curValue - 1) v"

definition setFlag :: "Flags \<Rightarrow> Value \<Rightarrow> Value" where
  "setFlag f v = v OR push_bit (Flags_bit f) 1"
definition unSetFlag :: "Flags \<Rightarrow> Value \<Rightarrow> Value" where
  "unSetFlag f v = v AND (- 1 - push_bit (Flags_bit f) 1)"
definition isFlagSet :: "Flags \<Rightarrow> Value \<Rightarrow> bool" where
  "isFlagSet f v \<longleftrightarrow> v AND getFlag f \<noteq> 0"

definition markIsChainedItem :: "Value \<Rightarrow> Value" where "markIsChainedItem = setFlag kIsChainedItem"
definition unmarkIsChainedItem :: "Value \<Rightarrow> Value" where "unmarkIsChainedItem = unSetFlag kIsChainedItem"
definition isChainedItem :: "Value \<Rightarrow> bool" where "isChainedItem = isFlagSet kIsChainedItem"
definition markHasChainedItem :: "Value \<Rightarrow> Value" where "markHasChainedItem = setFlag kHasChainedItem"
definition unmarkHasChainedItem :: "Value \<Rightarrow> Value" where "unmarkHasChainedItem = unSetFlag kHasChainedItem"
definition hasChainedItem :: "Value \<Rightarrow> bool" where "hasChainedItem = isFlagSet kHasChainedItem"
definition markNvmClean :: "Value \<Rightarrow> Value" where "markNvmClean = setFlag kNvmClean"
definition unmarkNvmClean :: "Value \<Rightarrow> Value" where "unmarkNvmClean = unSetFlag kNvmClean"
definition isNvmClean :: "Value \<Rightarrow> bool" where "isNvmClean = isFlagSet kNvmClean"
definition markNvmEvicted :: "Value \<Rightarrow> Value" where "markNvmEvicted = setFlag kNvmEvicted"
definition unmarkNvmEvicted :: "Value \<Rightarrow> Value" where "unmarkNvmEvicted = unSetFlag kNvmEvicted"
definition isNvmEvicted :: "Value \<Rightarrow> bool" where "isNvmEvicted = isFlagSet kNvmEvicted"

definition isDrained :: "Value \<Rightarrow> bool" where
  "isDrained v \<longleftrightarrow> getRefWithAccessAndAdmin v = 0"

section \<open>Reading the word\<close>

text \<open>The number of access references: the low 18 bits.\<close>

definition accref :: "Value \<Rightarrow> nat" where
  "accref v = unat (take_bit 18 v)"

lemmas layout [bits] = kNumAccessRefBits_def kNumAdminRefBits_def getAdminRef_def getFlag_def

lemma kAccessRefMask_mask: "kAccessRefMask = mask 18"
  by (rule bit_word_eqI) (auto simp: kAccessRefMask_def kNumAccessRefBits_def bit_simps)

lemma kRefMask_mask: "kRefMask = mask 21"
  by (rule bit_word_eqI) (auto simp: kRefMask_def kNumAccessRefBits_def kNumAdminRefBits_def bit_simps)

lemma AdminRef_bit_eq [simp]:
  "AdminRef_bit kLinked = 18" "AdminRef_bit kAccessible = 19" "AdminRef_bit kExclusive = 20"
  by (simp_all add: kNumAccessRefBits_def)

lemma Flags_bit_eq [simp]:
  "Flags_bit kMMFlag0 = 21" "Flags_bit kMMFlag1 = 22" "Flags_bit kMMFlag2 = 23"
  "Flags_bit kIsChainedItem = 24" "Flags_bit kHasChainedItem = 25" "Flags_bit kNvmClean = 26"
  "Flags_bit kNvmEvicted = 27" "Flags_bit kUnevictable_NOOP = 28"
  by (simp_all add: kNumAccessRefBits_def kNumAdminRefBits_def)

declare AdminRef_bit.simps [simp del] Flags_bit.simps [simp del]

lemma Flags_bit_ge: "21 \<le> Flags_bit f"
  by (cases f) simp_all

lemma Flags_bit_less: "Flags_bit f < 32"
  by (cases f) simp_all

lemma Flags_bit_inj [simp]: "Flags_bit f = Flags_bit g \<longleftrightarrow> f = g"
  by (cases f; cases g) simp_all

lemma and_access [bits]: "v AND kAccessRefMask = take_bit 18 v"
  by (simp add: kAccessRefMask_mask take_bit_eq_mask)

lemma access_zero [bits]: "(take_bit 18 v = 0) \<longleftrightarrow> accref v = 0" for v :: Value
  unfolding accref_def word_unat_eq_iff unat_0 ..

lemma accref_less: "accref v < 2 ^ 18"
  using take_bit_nat_less_exp [of 18 "unat v"] unfolding accref_def by (simp only: unsigned_take_bit_eq)

lemma access_full [bits]: "(take_bit 18 v = kAccessRefMask) \<longleftrightarrow> accref v = 2 ^ 18 - 1" for v :: Value
proof -
  have "kAccessRefMask = 262143"
    by (simp add: kAccessRefMask_mask mask_eq_exp_minus_1)
  then have "unat kAccessRefMask = unat (262143 :: Value)" by (rule arg_cong)
  also have "\<dots> = 2 ^ 18 - 1" by simp
  finally have "unat kAccessRefMask = 2 ^ 18 - 1" .
  then show ?thesis unfolding accref_def word_unat_eq_iff by (simp only:)
qed

section \<open>The abstract counter\<close>

text \<open>What the word stands for: a number of references, three administrative marks, flags.\<close>

record ref_abs =
  a_refs :: nat
  a_admin :: "AdminRef \<Rightarrow> bool"
  a_flags :: "Flags \<Rightarrow> bool"

definition absref :: "Value \<Rightarrow> ref_abs" where
  "absref v = \<lparr>a_refs = accref v, a_admin = (\<lambda>a. bit v (AdminRef_bit a)),
               a_flags = (\<lambda>f. bit v (Flags_bit f))\<rparr>"

definition abs_incRef :: "ref_abs \<Rightarrow> (refcount_error + IncResult) \<times> ref_abs" where
  "abs_incRef s =
     (if a_refs s = 2 ^ 18 - 1 then (Inl RefcountOverflow, s)
      else if a_admin s kExclusive
      then (Inr (if a_refs s = 0 then kIncFailedEviction else kIncFailedMoving), s)
      else (Inr kIncOk, s\<lparr>a_refs := a_refs s + 1\<rparr>))"

definition abs_decRef :: "ref_abs \<Rightarrow> (refcount_error + bool) \<times> ref_abs" where
  \<comment> \<open>the boolean is whether the item is drained afterwards\<close>
  "abs_decRef s =
     (if a_refs s = 0 then (Inl RefcountUnderflow, s)
      else (Inr (a_refs s = 1 \<and> (\<forall>a. \<not> a_admin s a)), s\<lparr>a_refs := a_refs s - 1\<rparr>))"

definition abs_claim :: "nat \<Rightarrow> ref_abs \<Rightarrow> bool \<times> ref_abs" where
  \<comment> \<open>take an idle linked item exclusively, leaving \<open>n\<close> references on it\<close>
  "abs_claim n s =
     (if a_admin s kLinked \<and> \<not> a_admin s kExclusive \<and> a_refs s = 0
      then (True, s\<lparr>a_refs := n, a_admin := (a_admin s)(kExclusive := True)\<rparr>)
      else (False, s))"

definition abs_set_admin :: "AdminRef \<Rightarrow> bool \<Rightarrow> ref_abs \<Rightarrow> ref_abs" where
  "abs_set_admin a b s = s\<lparr>a_admin := (a_admin s)(a := b)\<rparr>"

definition abs_set_flag :: "Flags \<Rightarrow> bool \<Rightarrow> ref_abs \<Rightarrow> ref_abs" where
  "abs_set_flag f b s = s\<lparr>a_flags := (a_flags s)(f := b)\<rparr>"

lemma absref_sel [simp]:
  "a_refs (absref v) = accref v"
  "a_admin (absref v) a = bit v (AdminRef_bit a)"
  "a_flags (absref v) f = bit v (Flags_bit f)"
  by (simp_all add: absref_def)

lemma AdminRef_bit_bounds: "18 \<le> AdminRef_bit a" "AdminRef_bit a \<le> 20"
  by (cases a; simp)+

lemma AdminRef_bit_inj [simp]: "AdminRef_bit a = AdminRef_bit b \<longleftrightarrow> a = b"
  by (cases a; cases b) simp_all

lemma admin_not_flag [simp]: "AdminRef_bit a \<noteq> Flags_bit f" "Flags_bit f \<noteq> AdminRef_bit a"
  using AdminRef_bit_bounds(2) [of a] Flags_bit_ge [of f] by linarith+

lemma absref_high:
  assumes "drop_bit 18 v = drop_bit 18 w"
  shows "absref v = (absref w)\<lparr>a_refs := accref v\<rparr>"
proof -
  have "bit v k = bit w k" if "18 \<le> k" for k
    using assms that by (rule bit_of_drop_bit)
  then show ?thesis
    using AdminRef_bit_bounds(1) Flags_bit_ge by (simp add: absref_def fun_eq_iff order_trans [of 18 21])
qed

lemma absref_plus_one:
  "accref v \<noteq> 2 ^ 18 - 1 \<Longrightarrow> absref (v + 1) = (absref v)\<lparr>a_refs := accref v + 1\<rparr>"
  using low_plus_one [of 18 v] absref_high [of "v + 1" v] by (simp add: accref_def)

lemma absref_minus_one:
  "accref v \<noteq> 0 \<Longrightarrow> absref (v - 1) = (absref v)\<lparr>a_refs := accref v - 1\<rparr>"
  using low_minus_one [of 18 v] absref_high [of "v - 1" v] by (simp add: accref_def)

lemma accref_high_bit:
  "18 \<le> k \<Longrightarrow> accref (v OR push_bit k 1) = accref v"
  "18 \<le> k \<Longrightarrow> accref (v AND NOT (push_bit k 1)) = accref v"
  unfolding accref_def
  by (rule arg_cong [where f = unat], rule bit_word_eqI, auto simp: bit_simps)+

lemma bit_or_one: "k < 32 \<Longrightarrow> bit (v OR push_bit k 1) j \<longleftrightarrow> bit v j \<or> j = k" for v :: Value
  by (auto simp: bit_simps)

lemma bit_and_not_one: "bit (v AND NOT (push_bit k 1)) j \<longleftrightarrow> bit v j \<and> j \<noteq> k" for v :: Value
  using bit_imp_le_length [of v j] by (auto simp: bit_simps)

lemma AdminRef_bit_less: "AdminRef_bit a < 32"
  using AdminRef_bit_bounds(2) [of a] by linarith

lemma absref_or_admin: "absref (v OR getAdminRef a) = abs_set_admin a True (absref v)"
  unfolding absref_def abs_set_admin_def getAdminRef_def
  by (simp add: accref_high_bit AdminRef_bit_bounds bit_or_one AdminRef_bit_less fun_eq_iff)

lemma absref_and_not_admin: "absref (v AND NOT (getAdminRef a)) = abs_set_admin a False (absref v)"
  unfolding absref_def abs_set_admin_def getAdminRef_def
  by (simp add: accref_high_bit AdminRef_bit_bounds bit_and_not_one fun_eq_iff)

lemma minus_one_minus: "- 1 - x = NOT x" for x :: Value
  by (simp add: not_eq_complement)

lemma absref_setFlag: "absref (setFlag f v) = abs_set_flag f True (absref v)"
  unfolding absref_def abs_set_flag_def setFlag_def
  using Flags_bit_ge [of f]
  by (simp add: accref_high_bit bit_or_one Flags_bit_less fun_eq_iff)

lemma absref_unSetFlag: "absref (unSetFlag f v) = abs_set_flag f False (absref v)"
  unfolding absref_def abs_set_flag_def unSetFlag_def minus_one_minus
  using Flags_bit_ge [of f]
  by (simp add: accref_high_bit bit_and_not_one fun_eq_iff)

lemma absref_marks [simp]:
  "absref (markInMMContainer v) = abs_set_admin kLinked True (absref v)"
  "absref (unmarkInMMContainer v) = abs_set_admin kLinked False (absref v)"
  "absref (markAccessible v) = abs_set_admin kAccessible True (absref v)"
  "absref (unmarkAccessible v) = abs_set_admin kAccessible False (absref v)"
  by (simp_all add: markInMMContainer_def unmarkInMMContainer_def markAccessible_def
      unmarkAccessible_def absref_or_admin absref_and_not_admin)

lemma test_admin [bits]: "(v AND getAdminRef a = 0) \<longleftrightarrow> \<not> bit v (AdminRef_bit a)"
  by (simp add: getAdminRef_def and_push_bit_1_iff)

lemma reads [bits]:
  "isInMMContainer v \<longleftrightarrow> a_admin (absref v) kLinked"
  "isAccessible v \<longleftrightarrow> a_admin (absref v) kAccessible"
  "isFlagSet f v \<longleftrightarrow> a_flags (absref v) f"
  "isMarkedForEviction v \<longleftrightarrow> a_admin (absref v) kExclusive \<and> a_refs (absref v) = 0"
  "isMoving v \<longleftrightarrow> a_admin (absref v) kExclusive \<and> a_refs (absref v) \<noteq> 0"
  by (simp_all add: isInMMContainer_def isAccessible_def isFlagSet_def isMarkedForEviction_def
      isMoving_def test_admin and_access access_zero getFlag_def and_push_bit_1_iff)

lemma kRefMask_zero: "(v AND kRefMask = 0) \<longleftrightarrow> accref v = 0 \<and> (\<forall>a. \<not> bit v (AdminRef_bit a))"
proof -
  have all: "(\<forall>a. P a) \<longleftrightarrow> P kLinked \<and> P kAccessible \<and> P kExclusive" for P
    by (metis AdminRef.exhaust)
  have low: "(\<forall>k<n. \<not> bit v k) \<longleftrightarrow> take_bit n v = 0" for n
    using bit_imp_le_length [of v] by (auto simp: bit_eq_iff bit_simps)
  have "v AND kRefMask = 0 \<longleftrightarrow> (\<forall>k<21. \<not> bit v k)"
    by (simp only: low kRefMask_mask take_bit_eq_mask)
  also have "\<dots> \<longleftrightarrow> (\<forall>k<18. \<not> bit v k) \<and> \<not> bit v 18 \<and> \<not> bit v 19 \<and> \<not> bit v 20"
  proof -
    have "k < 21 \<longleftrightarrow> k < 18 \<or> k = 18 \<or> k = 19 \<or> k = 20" for k :: nat by linarith
    then show ?thesis by blast
  qed
  also have "(\<forall>k<18. \<not> bit v k) \<longleftrightarrow> take_bit 18 v = 0"
    by (rule low)
  finally show ?thesis by (simp add: all access_zero)
qed

lemma isDrained_iff: "isDrained v \<longleftrightarrow> a_refs (absref v) = 0 \<and> (\<forall>a. \<not> a_admin (absref v) a)"
  by (simp add: isDrained_def getRefWithAccessAndAdmin_def kRefMask_zero)

lemma incRef_refines: "map_prod id absref (incRef v) = abs_incRef (absref v)"
  by (simp add: incRef_def atomicUpdateValue_def incRef_predicate_def incRef_res_def abs_incRef_def
      Let_def and_access access_full access_zero test_admin absref_plus_one)

lemma decRef_refines:
  "map_prod (map_sum id (\<lambda>r. r = 0)) absref (decRef v) = abs_decRef (absref v)"
proof (cases "accref v = 0")
  case True
  then show ?thesis
    by (simp add: decRef_def atomicUpdateValue_def abs_decRef_def and_access access_zero)
next
  case False
  then have r: "(v - 1) AND kRefMask = 0 \<longleftrightarrow> accref v = 1 \<and> (\<forall>a. \<not> bit v (AdminRef_bit a))"
    using absref_minus_one [OF False] unfolding kRefMask_zero
    by (auto simp: absref_def fun_eq_iff)
  from False show ?thesis
    by (simp add: decRef_def atomicUpdateValue_def abs_decRef_def and_access access_zero r
        absref_minus_one)
qed

lemma markForEviction_refines: "map_prod id absref (markForEviction v) = abs_claim 0 (absref v)"
proof -
  have "absref v = (absref v)\<lparr>a_refs := accref v\<rparr>" by (simp add: absref_def)
  then show ?thesis
    by (auto simp: markForEviction_def atomicUpdateValue_noexcept_def atomicUpdateValue_def
        markForEviction_predicate_def abs_claim_def Let_def and_access access_zero test_admin
        absref_or_admin abs_set_admin_def)
qed

lemma markMoving_refines: "map_prod id absref (markMoving v) = abs_claim 1 (absref v)"
proof -
  have pos: "0 < take_bit 18 v \<longleftrightarrow> accref v \<noteq> 0"
    using access_zero [of v] by (simp add: word_gt_0)
  have "absref ((v + 1) OR getAdminRef kExclusive)
      = (absref v)\<lparr>a_refs := 1, a_admin := (a_admin (absref v))(kExclusive := True)\<rparr>"
    if "accref v = 0"
    using that absref_plus_one [of v] by (simp add: absref_or_admin abs_set_admin_def)
  then show ?thesis
    by (auto simp: markMoving_def atomicUpdateValue_noexcept_def atomicUpdateValue_def
        markMoving_predicate_def abs_claim_def Let_def and_access pos test_admin)
qed

lemma unmarkForEviction_refines:
  "absref (snd (unmarkForEviction v)) = abs_set_admin kExclusive False (absref v)"
  by (simp add: unmarkForEviction_def Let_def absref_and_not_admin)

lemma unmarkMoving_refines:
  "accref v \<noteq> 0 \<Longrightarrow> absref (snd (unmarkMoving v))
     = abs_set_admin kExclusive False ((absref v)\<lparr>a_refs := accref v - 1\<rparr>)"
  by (simp add: unmarkMoving_def atomicUpdateValue_noexcept_def atomicUpdateValue_def Let_def
      absref_and_not_admin absref_minus_one)

lemma markForEvictionWhenMoving_refines:
  "accref v \<noteq> 0 \<Longrightarrow> absref (snd (markForEvictionWhenMoving v)) = (absref v)\<lparr>a_refs := accref v - 1\<rparr>"
  by (simp add: markForEvictionWhenMoving_def atomicUpdateValue_noexcept_def atomicUpdateValue_def
      absref_minus_one)

section \<open>The compare-and-swap loop under interference\<close>

text \<open>The value the word holds at attempt \<open>n + k\<close> when only other threads write it.\<close>

fun held_value :: "(nat \<Rightarrow> Value \<Rightarrow> Value) \<Rightarrow> nat \<Rightarrow> Value \<Rightarrow> nat \<Rightarrow> Value" where
  "held_value env n v 0 = v"
| "held_value env n v (Suc k) = held_value env (Suc n) (env n v) k"

lemma atomicUpdateValue_loop_stop:
  assumes "atomicUpdateValue_loop P F env n v \<noteq> Some (atomicUpdateValue P F v)"
  shows "env n v \<noteq> v \<and> atomicUpdateValue_loop P F env n v = atomicUpdateValue_loop P F env (Suc n) (env n v)"
  using assms
  by (auto simp: atomicUpdateValue_loop.simps [of P F env n v] atomicUpdateValue_def Let_def
      split: sum.splits if_splits)



section \<open>The protocol of handles, eviction and moving\<close>

text \<open>
  The threads of the cache use the word in one protocol: a user handle is an \<open>incRef\<close> that
  returned \<open>kIncOk\<close> and is given back by \<open>decRef\<close>; an evicting thread owns a successful
  \<open>markForEviction\<close>, a moving thread a successful \<open>markMoving\<close>, and each may be undone or
  turned into the other as the source allows. The counters next to the word are ghost
  state: who holds what.
\<close>

record ref_sys =
  word :: Value
  handles :: nat
  evicting :: bool
  moving :: bool

definition init_ref_sys :: ref_sys where
  "init_ref_sys = \<lparr>word = 0, handles = 0, evicting = False, moving = False\<rparr>"

inductive ref_step :: "ref_sys \<Rightarrow> ref_sys \<Rightarrow> bool" where
  acquire: "incRef (word s) = (Inr kIncOk, v) \<Longrightarrow>
    ref_step s (s\<lparr>word := v, handles := handles s + 1\<rparr>)"
| acquire_failed: "incRef (word s) = (r, v) \<Longrightarrow> r \<noteq> Inr kIncOk \<Longrightarrow> ref_step s (s\<lparr>word := v\<rparr>)"
| release: "0 < handles s \<Longrightarrow> decRef (word s) = (Inr r, v) \<Longrightarrow>
    ref_step s (s\<lparr>word := v, handles := handles s - 1\<rparr>)"
| mark_evict: "markForEviction (word s) = (b, v) \<Longrightarrow>
    ref_step s (s\<lparr>word := v, evicting := evicting s \<or> b\<rparr>)"
| unmark_evict: "evicting s \<Longrightarrow> unmarkForEviction (word s) = (r, v) \<Longrightarrow>
    ref_step s (s\<lparr>word := v, evicting := False\<rparr>)"
| mark_move: "markMoving (word s) = (b, v) \<Longrightarrow>
    ref_step s (s\<lparr>word := v, moving := moving s \<or> b\<rparr>)"
| unmark_move: "moving s \<Longrightarrow> unmarkMoving (word s) = (r, v) \<Longrightarrow>
    ref_step s (s\<lparr>word := v, moving := False\<rparr>)"
| move_to_evict: "moving s \<Longrightarrow> markForEvictionWhenMoving (word s) = (b, v) \<Longrightarrow>
    ref_step s (s\<lparr>word := v, moving := False, evicting := True\<rparr>)"
| link: "ref_step s (s\<lparr>word := markInMMContainer (word s)\<rparr>)"
| unlink: "ref_step s (s\<lparr>word := unmarkInMMContainer (word s)\<rparr>)"
| publish: "ref_step s (s\<lparr>word := markAccessible (word s)\<rparr>)"
| unpublish: "ref_step s (s\<lparr>word := unmarkAccessible (word s)\<rparr>)"
| set_flag: "ref_step s (s\<lparr>word := setFlag f (word s)\<rparr>)"
| unset_flag: "ref_step s (s\<lparr>word := unSetFlag f (word s)\<rparr>)"

definition abs_ref_inv :: "ref_abs \<Rightarrow> nat \<Rightarrow> bool \<Rightarrow> bool \<Rightarrow> bool" where
  "abs_ref_inv A h e m \<longleftrightarrow>
     a_refs A = h + (if m then 1 else 0) \<and> (a_admin A kExclusive \<longleftrightarrow> e \<or> m) \<and>
     \<not> (e \<and> m) \<and> (e \<or> m \<longrightarrow> h = 0)"

definition ref_inv :: "ref_sys \<Rightarrow> bool" where
  "ref_inv s \<longleftrightarrow> abs_ref_inv (absref (word s)) (handles s) (evicting s) (moving s)"

lemma abs_ref_inv_incRef:
  "abs_incRef A = (r, A') \<Longrightarrow> abs_ref_inv A h e m \<Longrightarrow>
   abs_ref_inv A' (if r = Inr kIncOk then h + 1 else h) e m"
  by (auto simp: abs_incRef_def abs_ref_inv_def split: if_splits)

lemma abs_ref_inv_decRef:
  "abs_decRef A = (Inr r, A') \<Longrightarrow> 0 < h \<Longrightarrow> abs_ref_inv A h e m \<Longrightarrow> abs_ref_inv A' (h - 1) e m"
  by (auto simp: abs_decRef_def abs_ref_inv_def split: if_splits)

lemma abs_ref_inv_evict:
  "abs_claim 0 A = (b, A') \<Longrightarrow> abs_ref_inv A h e m \<Longrightarrow> abs_ref_inv A' h (e \<or> b) m"
  by (auto simp: abs_claim_def abs_ref_inv_def split: if_splits)

lemma abs_ref_inv_move:
  "abs_claim 1 A = (b, A') \<Longrightarrow> abs_ref_inv A h e m \<Longrightarrow> abs_ref_inv A' h e (m \<or> b)"
  by (auto simp: abs_claim_def abs_ref_inv_def split: if_splits)

lemma abs_ref_inv_neutral [simp]:
  "a \<noteq> kExclusive \<Longrightarrow> abs_ref_inv (abs_set_admin a b A) h e m = abs_ref_inv A h e m"
  "abs_ref_inv (abs_set_flag f b A) h e m = abs_ref_inv A h e m"
  by (simp_all add: abs_ref_inv_def abs_set_admin_def abs_set_flag_def)

lemma abs_ref_inv_refs: "abs_ref_inv (absref v) h e True \<Longrightarrow> accref v \<noteq> 0"
  by (simp add: abs_ref_inv_def)

lemma incRef_absD: "incRef v = (r, v') \<Longrightarrow> abs_incRef (absref v) = (r, absref v')"
  using incRef_refines [of v] by simp

lemma decRef_absD: "decRef v = (Inr r, v') \<Longrightarrow> abs_decRef (absref v) = (Inr (r = 0), absref v')"
  using decRef_refines [of v] by simp

lemma markForEviction_absD: "markForEviction v = (b, v') \<Longrightarrow> abs_claim 0 (absref v) = (b, absref v')"
  using markForEviction_refines [of v] by simp

lemma markMoving_absD: "markMoving v = (b, v') \<Longrightarrow> abs_claim 1 (absref v) = (b, absref v')"
  using markMoving_refines [of v] by simp

lemma unmarkForEviction_absD:
  "unmarkForEviction v = (r, v') \<Longrightarrow> absref v' = abs_set_admin kExclusive False (absref v)"
  using unmarkForEviction_refines [of v] by simp

lemma unmarkMoving_absD:
  "unmarkMoving v = (r, v') \<Longrightarrow> accref v \<noteq> 0 \<Longrightarrow>
   absref v' = abs_set_admin kExclusive False ((absref v)\<lparr>a_refs := accref v - 1\<rparr>)"
  using unmarkMoving_refines [of v] by simp

lemma markForEvictionWhenMoving_absD:
  "markForEvictionWhenMoving v = (r, v') \<Longrightarrow> accref v \<noteq> 0 \<Longrightarrow>
   absref v' = (absref v)\<lparr>a_refs := accref v - 1\<rparr>"
  using markForEvictionWhenMoving_refines [of v] by simp

lemma ref_step_inv: "ref_step s t \<Longrightarrow> ref_inv s \<Longrightarrow> ref_inv t"
proof (induction rule: ref_step.induct)
  case (acquire s v)
  then show ?case
    using abs_ref_inv_incRef [OF incRef_absD [OF acquire(1)]] by (simp add: ref_inv_def)
next
  case (acquire_failed s r v)
  then show ?case
    using abs_ref_inv_incRef [OF incRef_absD [OF acquire_failed(1)]] by (simp add: ref_inv_def)
next
  case (release s r v)
  then show ?case
    using abs_ref_inv_decRef [OF decRef_absD [OF release(2)]] by (simp add: ref_inv_def)
next
  case (mark_evict s b v)
  then show ?case
    using abs_ref_inv_evict [OF markForEviction_absD [OF mark_evict(1)]] by (simp add: ref_inv_def)
next
  case (unmark_evict s r v)
  then show ?case
    using unmarkForEviction_absD [OF unmark_evict(2)]
    by (auto simp: ref_inv_def abs_ref_inv_def abs_set_admin_def simp del: absref_sel)
next
  case (mark_move s b v)
  then show ?case
    using abs_ref_inv_move [OF markMoving_absD [OF mark_move(1)]] by (simp add: ref_inv_def)
next
  case (unmark_move s r v)
  then have "accref (word s) \<noteq> 0" using abs_ref_inv_refs by (simp add: ref_inv_def)
  with unmark_move show ?case
    using unmarkMoving_absD [OF unmark_move(2)]
    by (auto simp: ref_inv_def abs_ref_inv_def abs_set_admin_def simp del: absref_sel(2))
next
  case (move_to_evict s b v)
  then have "accref (word s) \<noteq> 0" using abs_ref_inv_refs by (simp add: ref_inv_def)
  with move_to_evict show ?case
    using markForEvictionWhenMoving_absD [OF move_to_evict(2)]
    by (auto simp: ref_inv_def abs_ref_inv_def simp del: absref_sel(2))
qed (simp_all add: ref_inv_def absref_setFlag absref_unSetFlag)

inductive ref_reachable :: "ref_sys \<Rightarrow> bool" where
  start: "ref_reachable init_ref_sys"
| step: "ref_reachable s \<Longrightarrow> ref_step s t \<Longrightarrow> ref_reachable t"

lemma accref_0 [simp]: "accref 0 = 0"
  by (simp add: accref_def)

lemma ref_inv_init: "ref_inv init_ref_sys"
  by (simp add: ref_inv_def abs_ref_inv_def init_ref_sys_def)

lemma ref_reachable_inv: "ref_reachable s \<Longrightarrow> ref_inv s"
  by (induction rule: ref_reachable.induct) (blast intro: ref_inv_init ref_step_inv)+

section \<open>Properties\<close>


lemma unat_getAccessRef:
  "unat (getAccessRef v) = (if a_admin (absref v) kExclusive then accref v - 1 else accref v)"
proof (cases "accref v = 0")
  case True
  then have "take_bit 18 v = 0" by (simp add: access_zero)
  then show ?thesis using True by (simp add: getAccessRef_def and_access)
next
  case False
  then have nz: "take_bit 18 v \<noteq> 0" by (simp add: access_zero)
  then have "1 \<le> take_bit 18 v" by (simp add: word_le_nat_alt unat_gt_0 Suc_le_eq)
  then show ?thesis using nz
    by (simp add: getAccessRef_def and_access test_admin accref_def unat_minus_one)
qed

text \<open>
  C7. Safety of the handle protocol: in every state the threads can reach, the access count
  reported to users is the number of outstanding user handles; an item marked for eviction
  or moving has no user handle, and \<open>incRef\<close> refuses to create one and leaves the word as
  it is; a holder of a handle can always give it back without underflow.
\<close>

theorem exclusive_item_has_no_handle:
  assumes "ref_reachable s"
  shows "unat (getAccessRef (word s)) = handles s \<and>
         (isMarkedForEviction (word s) \<longleftrightarrow> evicting s) \<and>
         (isMoving (word s) \<longleftrightarrow> moving s) \<and>
         (evicting s \<or> moving s \<longrightarrow> handles s = 0 \<and>
            incRef (word s) = (Inr (if evicting s then kIncFailedEviction else kIncFailedMoving), word s)) \<and>
         (0 < handles s \<longrightarrow> (\<exists>r v. decRef (word s) = (Inr r, v)))"
proof (intro conjI)
  from assms have inv: "abs_ref_inv (absref (word s)) (handles s) (evicting s) (moving s)"
    using ref_reachable_inv ref_inv_def by blast
  then show "unat (getAccessRef (word s)) = handles s"
    and "isMarkedForEviction (word s) \<longleftrightarrow> evicting s"
    and "isMoving (word s) \<longleftrightarrow> moving s"
    by (auto simp: abs_ref_inv_def unat_getAccessRef reads)
  from inv show "evicting s \<or> moving s \<longrightarrow> handles s = 0 \<and>
      incRef (word s) = (Inr (if evicting s then kIncFailedEviction else kIncFailedMoving), word s)"
    by (auto simp: abs_ref_inv_def incRef_def atomicUpdateValue_def incRef_predicate_def incRef_res_def
        Let_def and_access access_full access_zero test_admin)
  from inv show "0 < handles s \<longrightarrow> (\<exists>r v. decRef (word s) = (Inr r, v))"
    by (auto simp: abs_ref_inv_def decRef_def atomicUpdateValue_def and_access access_zero)
qed

theorem exclusive_item_has_no_handle_witness:
  "\<exists>s. ref_reachable s \<and> evicting s \<and> unat (getAccessRef (word s)) = 0 \<and>
       isMarkedForEviction (word s) \<and> incRef (word s) = (Inr kIncFailedEviction, word s)"
proof -
  let ?s1 = "init_ref_sys\<lparr>word := markInMMContainer (word init_ref_sys)\<rparr>"
  let ?v = "snd (markForEviction (word ?s1))"
  let ?s2 = "?s1\<lparr>word := ?v, evicting := evicting ?s1 \<or> True\<rparr>"
  have r: "ref_reachable ?s1" by (rule ref_reachable.step [OF ref_reachable.start ref_step.link])
  have "fst (map_prod id absref (markForEviction (markInMMContainer 0)))"
    unfolding markForEviction_refines absref_marks by (simp add: abs_claim_def abs_set_admin_def)
  then have m: "markForEviction (word ?s1) = (True, ?v)"
    by (simp add: init_ref_sys_def prod_eq_iff)
  have "ref_reachable ?s2" by (rule ref_reachable.step [OF r ref_step.mark_evict [OF m]])
  moreover have "evicting ?s2" by simp
  ultimately show ?thesis using exclusive_item_has_no_handle [of ?s2] by (intro exI [of _ ?s2]) simp
qed

end
