(* ===== verification/Slab.thy ===== *)
theory Slab
  imports Prelude
begin

text \<open>
  Slabs and their headers: \<open>cachelib/allocator/memory/Slab.h\<close>. A slab is 4 MB of memory
  aligned to its size; its header, kept apart from it, names the pool and allocation class
  the slab belongs to, the size of its allocations and two state bits. The context of a
  slab release is the value that travels between the start and the end of a release.
\<close>

text \<open>Identifiers are \<open>int8_t\<close>; \<open>-1\<close> is the invalid one.\<close>

type_synonym TierId = "8 word"
type_synonym PoolId = "8 word"
type_synonym ClassId = "8 word"

definition kInvalidClassId :: ClassId where "kInvalidClassId = - 1"
definition kInvalidPoolId :: PoolId where "kInvalidPoolId = - 1"
definition kNumSlabBits :: nat where "kNumSlabBits = 22"
definition kMinAllocPower :: nat where "kMinAllocPower = 6"
definition kMinAllocSize :: nat where "kMinAllocSize = 2 ^ kMinAllocPower"
definition kSize :: nat where "kSize = 2 ^ kNumSlabBits"

text \<open>The address of the byte at an offset into the slab at address \<open>slab\<close>.\<close>

definition memoryAtOffset :: "addr \<Rightarrow> nat \<Rightarrow> addr" where
  "memoryAtOffset slab offset = slab + offset"

datatype SlabHeaderFlag = IS_MARKED_FOR_RELEASE | IS_ADVISED
  | SH_FLAG_2 | SH_FLAG_3 | SH_FLAG_4 | SH_FLAG_5 | SH_FLAG_6 | SH_FLAG_7

fun SlabHeaderFlag_bit :: "SlabHeaderFlag \<Rightarrow> nat" where
  "SlabHeaderFlag_bit IS_MARKED_FOR_RELEASE = 0"
| "SlabHeaderFlag_bit IS_ADVISED = 1"
| "SlabHeaderFlag_bit SH_FLAG_2 = 2"
| "SlabHeaderFlag_bit SH_FLAG_3 = 3"
| "SlabHeaderFlag_bit SH_FLAG_4 = 4"
| "SlabHeaderFlag_bit SH_FLAG_5 = 5"
| "SlabHeaderFlag_bit SH_FLAG_6 = 6"
| "SlabHeaderFlag_bit SH_FLAG_7 = 7"

record SlabHeader =
  poolId :: PoolId
  classId :: ClassId
  flags :: u8
  allocSize :: u32

definition new_SlabHeader :: "PoolId \<Rightarrow> SlabHeader" where
  "new_SlabHeader pid = \<lparr>poolId = pid, classId = kInvalidClassId, flags = 0, allocSize = 0\<rparr>"

definition resetAllocInfo :: "SlabHeader \<Rightarrow> SlabHeader" where
  "resetAllocInfo h = h\<lparr>poolId := kInvalidPoolId, classId := kInvalidClassId, allocSize := 0\<rparr>"

definition SlabHeader_setFlag :: "SlabHeaderFlag \<Rightarrow> SlabHeader \<Rightarrow> SlabHeader" where
  "SlabHeader_setFlag f h = h\<lparr>flags := flags h OR push_bit (SlabHeaderFlag_bit f) 1\<rparr>"

definition SlabHeader_unSetFlag :: "SlabHeaderFlag \<Rightarrow> SlabHeader \<Rightarrow> SlabHeader" where
  "SlabHeader_unSetFlag f h = h\<lparr>flags := flags h AND (- 1 - push_bit (SlabHeaderFlag_bit f) 1)\<rparr>"

definition SlabHeader_isFlagSet :: "SlabHeaderFlag \<Rightarrow> SlabHeader \<Rightarrow> bool" where
  "SlabHeader_isFlagSet f h \<longleftrightarrow> flags h AND push_bit (SlabHeaderFlag_bit f) 1 \<noteq> 0"

definition isAdvised :: "SlabHeader \<Rightarrow> bool" where
  "isAdvised = SlabHeader_isFlagSet IS_ADVISED"

definition setAdvised :: "bool \<Rightarrow> SlabHeader \<Rightarrow> SlabHeader" where
  "setAdvised b h = (if b then SlabHeader_setFlag IS_ADVISED h else SlabHeader_unSetFlag IS_ADVISED h)"

definition isMarkedForRelease :: "SlabHeader \<Rightarrow> bool" where
  "isMarkedForRelease = SlabHeader_isFlagSet IS_MARKED_FOR_RELEASE"

definition setMarkedForRelease :: "bool \<Rightarrow> SlabHeader \<Rightarrow> SlabHeader" where
  "setMarkedForRelease b h =
     (if b then SlabHeader_setFlag IS_MARKED_FOR_RELEASE h
      else SlabHeader_unSetFlag IS_MARKED_FOR_RELEASE h)"

datatype SlabReleaseMode = kResize | kRebalance | kAdvise

record SlabReleaseContext =
  ctx_slab :: addr
  ctx_pid :: PoolId
  ctx_victim :: ClassId
  ctx_activeAllocations :: "addr list"
  ctx_receiver :: ClassId
  ctx_mode :: SlabReleaseMode
  ctx_zeroOnRelease :: bool

text \<open>
  The constructors: with the mode, the receiver is invalid; with a receiver, the mode is
  rebalancing. \<open>zeroOnRelease_\<close> has no initialiser in the source; the pool sets it before
  it is read, and the model starts it as \<open>zero\<close>, a parameter.
\<close>

definition SlabReleaseContext_mode ::
  "bool \<Rightarrow> addr \<Rightarrow> PoolId \<Rightarrow> ClassId \<Rightarrow> addr list \<Rightarrow> SlabReleaseMode \<Rightarrow> SlabReleaseContext" where
  "SlabReleaseContext_mode zero slab pid cid allocations m =
     \<lparr>ctx_slab = slab, ctx_pid = pid, ctx_victim = cid, ctx_activeAllocations = allocations,
      ctx_receiver = kInvalidClassId, ctx_mode = m, ctx_zeroOnRelease = zero\<rparr>"

definition SlabReleaseContext_receiver ::
  "bool \<Rightarrow> addr \<Rightarrow> PoolId \<Rightarrow> ClassId \<Rightarrow> addr list \<Rightarrow> ClassId \<Rightarrow> SlabReleaseContext" where
  "SlabReleaseContext_receiver zero slab pid victim allocations receiver =
     \<lparr>ctx_slab = slab, ctx_pid = pid, ctx_victim = victim, ctx_activeAllocations = allocations,
      ctx_receiver = receiver, ctx_mode = kRebalance, ctx_zeroOnRelease = zero\<rparr>"

definition isReleased :: "SlabReleaseContext \<Rightarrow> bool" where
  "isReleased ctx \<longleftrightarrow> ctx_activeAllocations ctx = []"

definition hasValidReceiver :: "SlabReleaseContext \<Rightarrow> bool" where
  "hasValidReceiver ctx \<longleftrightarrow> ctx_receiver ctx \<noteq> kInvalidClassId"

definition setReceiver :: "ClassId \<Rightarrow> SlabReleaseContext \<Rightarrow> SlabReleaseContext" where
  "setReceiver receiver ctx = ctx\<lparr>ctx_receiver := receiver\<rparr>"

definition setZeroOnRelease :: "bool \<Rightarrow> SlabReleaseContext \<Rightarrow> SlabReleaseContext" where
  "setZeroOnRelease b ctx = ctx\<lparr>ctx_zeroOnRelease := b\<rparr>"

section \<open>Header flags\<close>

lemma SlabHeaderFlag_bit_less: "SlabHeaderFlag_bit f < 8"
  by (cases f) simp_all

lemma SlabHeaderFlag_bit_inj [simp]: "SlabHeaderFlag_bit f = SlabHeaderFlag_bit g \<longleftrightarrow> f = g"
  by (cases f; cases g) simp_all

lemma header_flag_frame [simp]:
  "poolId (SlabHeader_setFlag f h) = poolId h" "poolId (SlabHeader_unSetFlag f h) = poolId h"
  "classId (SlabHeader_setFlag f h) = classId h" "classId (SlabHeader_unSetFlag f h) = classId h"
  "allocSize (SlabHeader_setFlag f h) = allocSize h" "allocSize (SlabHeader_unSetFlag f h) = allocSize h"
  by (simp_all add: SlabHeader_setFlag_def SlabHeader_unSetFlag_def)

lemma header_flag_read [simp]:
  "SlabHeader_isFlagSet g (SlabHeader_setFlag f h) \<longleftrightarrow> g = f \<or> SlabHeader_isFlagSet g h"
  "SlabHeader_isFlagSet g (SlabHeader_unSetFlag f h) \<longleftrightarrow> g \<noteq> f \<and> SlabHeader_isFlagSet g h"
proof -
  have n: "- 1 - x = NOT x" for x :: u8 by (simp add: not_eq_complement)
  show "SlabHeader_isFlagSet g (SlabHeader_setFlag f h) \<longleftrightarrow> g = f \<or> SlabHeader_isFlagSet g h"
    using SlabHeaderFlag_bit_less [of f]
    by (auto simp: SlabHeader_isFlagSet_def SlabHeader_setFlag_def bits bit_simps)
  show "SlabHeader_isFlagSet g (SlabHeader_unSetFlag f h) \<longleftrightarrow> g \<noteq> f \<and> SlabHeader_isFlagSet g h"
    using SlabHeaderFlag_bit_less [of g]
    by (auto simp: SlabHeader_isFlagSet_def SlabHeader_unSetFlag_def n bits bit_simps)
qed

lemma header_marks [simp]:
  "isMarkedForRelease (setMarkedForRelease b h) \<longleftrightarrow> b"
  "isMarkedForRelease (setAdvised b h) \<longleftrightarrow> isMarkedForRelease h"
  "isAdvised (setAdvised b h) \<longleftrightarrow> b"
  "isAdvised (setMarkedForRelease b h) \<longleftrightarrow> isAdvised h"
  by (simp_all add: isMarkedForRelease_def setMarkedForRelease_def isAdvised_def setAdvised_def)

lemma header_mark_frame [simp]:
  "poolId (setMarkedForRelease b h) = poolId h" "classId (setMarkedForRelease b h) = classId h"
  "allocSize (setMarkedForRelease b h) = allocSize h"
  "poolId (setAdvised b h) = poolId h" "classId (setAdvised b h) = classId h"
  "allocSize (setAdvised b h) = allocSize h"
  by (simp_all add: setMarkedForRelease_def setAdvised_def)

lemma header_reset [simp]:
  "poolId (resetAllocInfo h) = kInvalidPoolId" "classId (resetAllocInfo h) = kInvalidClassId"
  "allocSize (resetAllocInfo h) = 0"
  "isAdvised (resetAllocInfo h) = isAdvised h"
  "isMarkedForRelease (resetAllocInfo h) = isMarkedForRelease h"
  by (simp_all add: resetAllocInfo_def isAdvised_def isMarkedForRelease_def SlabHeader_isFlagSet_def)

lemma header_new [simp]:
  "poolId (new_SlabHeader p) = p" "classId (new_SlabHeader p) = kInvalidClassId"
  "allocSize (new_SlabHeader p) = 0" "\<not> isAdvised (new_SlabHeader p)"
  "\<not> isMarkedForRelease (new_SlabHeader p)"
  by (simp_all add: new_SlabHeader_def isAdvised_def isMarkedForRelease_def SlabHeader_isFlagSet_def)

lemma header_update_marks [simp]:
  "isMarkedForRelease (h\<lparr>classId := c\<rparr>) = isMarkedForRelease h"
  "isMarkedForRelease (h\<lparr>allocSize := a\<rparr>) = isMarkedForRelease h"
  "isAdvised (h\<lparr>classId := c\<rparr>) = isAdvised h"
  "isAdvised (h\<lparr>allocSize := a\<rparr>) = isAdvised h"
  by (simp_all add: isAdvised_def isMarkedForRelease_def SlabHeader_isFlagSet_def)

end
