(* ===== verification/CompressedPtr.thy ===== *)
theory CompressedPtr
  imports Slab
begin

text \<open>
  Compressed pointers: \<open>cachelib/allocator/memory/CompressedPtr.h\<close>. A pointer into slab
  memory is stored as slab index, index of the allocation in the slab and, with two memory
  tiers, the tier: in 32 bits (\<open>CompressedPtr4B\<close>) or in 40 (\<open>CompressedPtr5B\<close>: a 32-bit
  word and a region byte). The theory shows that the fields read back what was packed, that
  no packed pointer is the null pattern, and that serialisation loses nothing. The contract
  that lists of compressed pointers rely on is the locale \<open>ptr_compressor\<close>.
\<close>

section \<open>Four bytes\<close>

definition kNumAllocIdxBits :: nat where
  "kNumAllocIdxBits = kNumSlabBits - kMinAllocPower"

definition kNumTierIdxOffset4 :: nat where "kNumTierIdxOffset4 = 31"

definition kAllocIdxMask :: u32 where "kAllocIdxMask = push_bit kNumAllocIdxBits 1 - 1"

definition kTierIdxMask4 :: u32 where "kTierIdxMask4 = push_bit kNumTierIdxOffset4 1"

definition numSlabIdxBits4 :: "bool \<Rightarrow> nat" where
  "numSlabIdxBits4 isMultiTiered =
     kNumTierIdxOffset4 - kNumAllocIdxBits + (if \<not> isMultiTiered then 1 else 0)"

definition kNull4 :: u32 where "kNull4 = 0xffffffff"

text \<open>\<open>CompressedPtr4B\<close> is its word \<open>ptr_\<close>; default construction is \<open>kNull4\<close>.\<close>

type_synonym CompressedPtr4B = u32

definition isNull4 :: "CompressedPtr4B \<Rightarrow> bool" where "isNull4 ptr \<longleftrightarrow> ptr = kNull4"

definition getMaxAddressableSize4 :: size_t where
  "getMaxAddressableSize4 = push_bit (numSlabIdxBits4 False + kNumSlabBits) 1"

definition compress4 :: "u32 \<Rightarrow> u32 \<Rightarrow> bool \<Rightarrow> TierId \<Rightarrow> CompressedPtr4B" where
  "compress4 slabIdx allocIdx isMultiTiered tid =
     (if \<not> isMultiTiered then push_bit kNumAllocIdxBits slabIdx + allocIdx
      else push_bit kNumTierIdxOffset4 (scast tid) + push_bit kNumAllocIdxBits slabIdx + allocIdx)"

definition getSlabIdx4 :: "bool \<Rightarrow> CompressedPtr4B \<Rightarrow> u32" where
  "getSlabIdx4 isMultiTiered ptr =
     (let noTierIdPtr = (if isMultiTiered then ptr AND NOT kTierIdxMask4 else ptr)
      in drop_bit kNumAllocIdxBits noTierIdPtr)"

definition getAllocIdx4 :: "CompressedPtr4B \<Rightarrow> u32" where
  "getAllocIdx4 ptr = ptr AND kAllocIdxMask"

definition getTierId4 :: "bool \<Rightarrow> CompressedPtr4B \<Rightarrow> u32" where
  "getTierId4 isMultiTiered ptr = (if isMultiTiered then drop_bit kNumTierIdxOffset4 ptr else 0)"

definition setTierId4 :: "TierId \<Rightarrow> CompressedPtr4B \<Rightarrow> CompressedPtr4B" where
  "setTierId4 tid ptr = ptr + push_bit kNumTierIdxOffset4 (scast tid)"

definition saveState4 :: "CompressedPtr4B \<Rightarrow> u64" where "saveState4 ptr = ucast ptr"
definition restore4 :: "u64 \<Rightarrow> CompressedPtr4B" where "restore4 ser = ucast ser"

section \<open>Five bytes\<close>

record CompressedPtr5B =
  cp_ptr :: u32
  cp_regionIdx :: u8

definition kIdxNumBits :: nat where "kIdxNumBits = 32"
definition kRegionNumBits :: nat where "kRegionNumBits = 8"
definition kRegionNull :: u8 where "kRegionNull = 0xff"
definition kNumTierIdxOffset5 :: nat where "kNumTierIdxOffset5 = kRegionNumBits - 2"
definition kTierIdxMask5 :: u8 where "kTierIdxMask5 = push_bit kNumTierIdxOffset5 1"

definition null5 :: CompressedPtr5B where "null5 = \<lparr>cp_ptr = kNull4, cp_regionIdx = kRegionNull\<rparr>"

definition isNull5 :: "CompressedPtr5B \<Rightarrow> bool" where
  "isNull5 p \<longleftrightarrow> cp_ptr p = kNull4 \<and> cp_regionIdx p = kRegionNull"

definition numSlabIdxBits5 :: "bool \<Rightarrow> nat" where
  "numSlabIdxBits5 isMultiTiered =
     kNumTierIdxOffset5 + (kIdxNumBits - kNumAllocIdxBits) + (if \<not> isMultiTiered then 1 else 0)"

definition getMaxAddressableSize5 :: size_t where
  "getMaxAddressableSize5 = push_bit (numSlabIdxBits5 False + kNumSlabBits) 1"

text \<open>The shift of the slab index is done in 32 bits and loses the region.\<close>

definition compress5 :: "u32 \<Rightarrow> u32 \<Rightarrow> bool \<Rightarrow> TierId \<Rightarrow> u64" where
  "compress5 slabIdx allocIdx isMultiTiered tid =
     (if \<not> isMultiTiered then ucast (push_bit kNumAllocIdxBits slabIdx + allocIdx)
      else push_bit (kNumTierIdxOffset5 + kIdxNumBits) (scast tid)
           + ucast (push_bit kNumAllocIdxBits slabIdx) + ucast allocIdx)"

definition getRegionIdx :: "u32 \<Rightarrow> bool \<Rightarrow> TierId \<Rightarrow> u8" where
  "getRegionIdx slabIdx isMultiTiered tid =
     (if isMultiTiered
      then ucast (push_bit kNumTierIdxOffset5 (scast tid :: u32))
           + ucast (drop_bit (kIdxNumBits - kNumAllocIdxBits) slabIdx AND NOT (ucast kTierIdxMask5))
      else ucast (drop_bit (kIdxNumBits - kNumAllocIdxBits) slabIdx))"

definition make5 :: "u32 \<Rightarrow> u32 \<Rightarrow> bool \<Rightarrow> TierId \<Rightarrow> CompressedPtr5B" where
  "make5 slabIdx allocIdx isMultiTiered tid =
     \<lparr>cp_ptr = ucast (compress5 slabIdx allocIdx isMultiTiered tid),
      cp_regionIdx = getRegionIdx slabIdx isMultiTiered tid\<rparr>"

definition getRaw5 :: "CompressedPtr5B \<Rightarrow> u64" where
  "getRaw5 p = push_bit kIdxNumBits (ucast (cp_regionIdx p)) + ucast (cp_ptr p)"

definition deserializePtr :: "u64 \<Rightarrow> u32" where "deserializePtr ptr = ucast ptr"
definition deserializeRegion :: "u64 \<Rightarrow> u8" where
  "deserializeRegion ptr = ucast (drop_bit kIdxNumBits ptr)"

definition saveState5 :: "CompressedPtr5B \<Rightarrow> u64" where "saveState5 = getRaw5"
definition restore5 :: "u64 \<Rightarrow> CompressedPtr5B" where
  "restore5 ser = \<lparr>cp_ptr = deserializePtr ser, cp_regionIdx = deserializeRegion ser\<rparr>"

definition getSlabIdx5 :: "bool \<Rightarrow> CompressedPtr5B \<Rightarrow> u32" where
  "getSlabIdx5 isMultiTiered p =
     (let noTierIdPtr = (if isMultiTiered then ucast (cp_regionIdx p) AND NOT (ucast kTierIdxMask5)
                         else ucast (cp_regionIdx p))
      in push_bit (kIdxNumBits - kNumAllocIdxBits) noTierIdPtr + drop_bit kNumAllocIdxBits (cp_ptr p))"

definition getAllocIdx5 :: "CompressedPtr5B \<Rightarrow> u32" where
  "getAllocIdx5 p = cp_ptr p AND kAllocIdxMask"

definition getTierId5 :: "bool \<Rightarrow> CompressedPtr5B \<Rightarrow> u32" where
  "getTierId5 isMultiTiered p =
     (if isMultiTiered then ucast (drop_bit kNumTierIdxOffset5 (cp_regionIdx p)) else 0)"

definition setTierId5 :: "TierId \<Rightarrow> CompressedPtr5B \<Rightarrow> CompressedPtr5B" where
  "setTierId5 tid p = p\<lparr>cp_regionIdx := cp_regionIdx p + ucast (push_bit kNumTierIdxOffset5 (scast tid :: u32))\<rparr>"

section \<open>The contract of a pointer format and of a pointer compressor\<close>

text \<open>
  What the slab allocator uses of its template parameter \<open>CompressedPtrType\<close>, and the law
  it relies on: indices in range are packed into a non-null pointer and read back.
\<close>

record 'c CompressedPtrType =
  ct_null :: 'c
  ct_isNull :: "'c \<Rightarrow> bool"
  ct_make :: "u32 \<Rightarrow> u32 \<Rightarrow> bool \<Rightarrow> 'c"
  ct_getSlabIdx :: "bool \<Rightarrow> 'c \<Rightarrow> u32"
  ct_getAllocIdx :: "'c \<Rightarrow> u32"
  ct_numSlabIdxBits :: "bool \<Rightarrow> nat"
  ct_getMaxAddressableSize :: size_t

definition cptr4 :: "CompressedPtr4B CompressedPtrType" where
  "cptr4 = \<lparr>ct_null = kNull4, ct_isNull = isNull4, ct_make = (\<lambda>s a mt. compress4 s a mt 0),
            ct_getSlabIdx = getSlabIdx4, ct_getAllocIdx = getAllocIdx4,
            ct_numSlabIdxBits = numSlabIdxBits4, ct_getMaxAddressableSize = getMaxAddressableSize4\<rparr>"

definition cptr5 :: "CompressedPtr5B CompressedPtrType" where
  "cptr5 = \<lparr>ct_null = null5, ct_isNull = isNull5, ct_make = (\<lambda>s a mt. make5 s a mt 0),
            ct_getSlabIdx = getSlabIdx5, ct_getAllocIdx = getAllocIdx5,
            ct_numSlabIdxBits = numSlabIdxBits5, ct_getMaxAddressableSize = getMaxAddressableSize5\<rparr>"

locale pointer_format =
  fixes ct :: "'c CompressedPtrType"
  assumes null_isNull: "ct_isNull ct (ct_null ct)"
    and make_not_null: "a \<le> kAllocIdxMask \<Longrightarrow> unat s < 2 ^ ct_numSlabIdxBits ct mt - 1 \<Longrightarrow>
          \<not> ct_isNull ct (ct_make ct s a mt)"
    and slab_make: "a \<le> kAllocIdxMask \<Longrightarrow> unat s < 2 ^ ct_numSlabIdxBits ct mt - 1 \<Longrightarrow>
          ct_getSlabIdx ct mt (ct_make ct s a mt) = s"
    and alloc_make: "a \<le> kAllocIdxMask \<Longrightarrow> unat s < 2 ^ ct_numSlabIdxBits ct mt - 1 \<Longrightarrow>
          ct_getAllocIdx ct (ct_make ct s a mt) = a"
    and max_size: "unat (ct_getMaxAddressableSize ct) = 2 ^ (ct_numSlabIdxBits ct False + kNumSlabBits)"

text \<open>
  \<open>class PtrCompressor\<close>, the template parameter of the intrusive lists: a pair of
  functions. What the lists rely on is that compression can be undone for the null pointer
  and for the pointers of valid allocations.
\<close>

record 'c PtrCompressor =
  pc_compress :: "ptr \<Rightarrow> 'c"
  pc_unCompress :: "'c \<Rightarrow> ptr"

locale ptr_compressor =
  fixes pc :: "'c PtrCompressor" and valid :: "addr set"
  assumes unCompress_null: "pc_unCompress pc (pc_compress pc None) = None"
    and unCompress_compress: "p \<in> valid \<Longrightarrow> pc_unCompress pc (pc_compress pc (Some p)) = Some p"
begin

lemma unCompress_ptr: "set_option q \<subseteq> valid \<Longrightarrow> pc_unCompress pc (pc_compress pc q) = q"
  by (cases q) (simp_all add: unCompress_null unCompress_compress)

lemma valid_card: "finite (UNIV :: 'c set) \<Longrightarrow> finite valid \<and> card valid \<le> card (UNIV :: 'c set)"
proof -
  have "inj_on (\<lambda>p. pc_compress pc (Some p)) valid"
    by (rule inj_onI) (metis option.inject unCompress_compress)
  then show "finite (UNIV :: 'c set) \<Longrightarrow> finite valid \<and> card valid \<le> card (UNIV :: 'c set)"
    by (metis finite_imageD card_image card_mono finite_subset subset_UNIV)
qed

lemma compress_inj: "p \<in> valid \<Longrightarrow> q \<in> valid \<Longrightarrow>
    pc_compress pc (Some p) = pc_compress pc (Some q) \<Longrightarrow> p = q"
  by (metis option.inject unCompress_compress)

lemma compress_not_null: "p \<in> valid \<Longrightarrow> pc_compress pc (Some p) \<noteq> pc_compress pc None"
  by (metis option.distinct(1) unCompress_compress unCompress_null)

end

section \<open>Packing and unpacking\<close>

lemmas ptr_layout = kNumAllocIdxBits_def kNumSlabBits_def kMinAllocPower_def kNumTierIdxOffset4_def
  numSlabIdxBits4_def kIdxNumBits_def kRegionNumBits_def kNumTierIdxOffset5_def numSlabIdxBits5_def

lemma kAllocIdxMask_mask: "kAllocIdxMask = mask 16"
  by (simp add: kAllocIdxMask_def ptr_layout mask_eq_exp_minus_1 push_bit_of_1)

lemma mask16_le: "x \<le> kAllocIdxMask \<longleftrightarrow> unat x < 2 ^ 16"
proof -
  have "kAllocIdxMask = 0xffff" by (simp add: kAllocIdxMask_def ptr_layout push_bit_of_1)
  then have "x \<le> kAllocIdxMask \<longleftrightarrow> unat x \<le> unat (0xffff :: u32)" by (simp only: word_le_nat_alt)
  also have "unat (0xffff :: u32) = 2 ^ 16 - 1" by simp
  finally show ?thesis by (simp add: less_eq_Suc_le [symmetric] less_Suc_eq_le [symmetric])
qed

lemma bit_join16:
  fixes slabIdx allocIdx :: u32
  assumes "unat allocIdx < 2 ^ 16"
  shows "bit (push_bit 16 slabIdx + allocIdx) k \<longleftrightarrow>
           (if k < 16 then bit allocIdx k else k < 32 \<and> bit slabIdx (k - 16))"
proof -
  have "push_bit 16 slabIdx + allocIdx = push_bit 16 slabIdx OR allocIdx"
    by (rule add_disjoint) (auto simp: bit_simps dest: bit_small [OF assms])
  then show ?thesis
    using bit_small [OF assms, of k] by (auto simp: bit_simps)
qed

lemma alloc_of_join16:
  "unat allocIdx < 2 ^ 16 \<Longrightarrow> (push_bit 16 slabIdx + allocIdx) AND mask 16 = allocIdx"
  for slabIdx allocIdx :: u32
  using bit_small [of allocIdx 16]
  by (intro bit_word_eqI) (auto simp: bit_simps bit_join16)

lemma slab_of_join16:
  "unat allocIdx < 2 ^ 16 \<Longrightarrow> drop_bit 16 (push_bit 16 slabIdx + allocIdx) = take_bit 16 slabIdx"
  for slabIdx allocIdx :: u32
  by (rule bit_word_eqI) (auto simp: bit_simps bit_join16)

lemma tier_join31:
  fixes x :: u32
  assumes "unat x < 2 ^ 31"
  shows "push_bit 31 1 + x = push_bit 31 1 OR x"
    and "(push_bit 31 1 + x) AND NOT (push_bit 31 1) = x"
    and "drop_bit 31 (push_bit 31 1 + x) = 1"
    and "drop_bit 31 x = 0"
    and "(push_bit 31 1 + x) AND mask 16 = x AND mask 16"
proof -
  have hi: "bit x k \<Longrightarrow> k < 31" for k by (rule bit_small [OF assms])
  show or: "push_bit 31 1 + x = push_bit 31 1 OR x"
    by (rule add_disjoint) (auto simp: bit_simps dest: hi)
  show "(push_bit 31 1 + x) AND NOT (push_bit 31 1) = x"
    and "drop_bit 31 (push_bit 31 1 + x) = 1"
    and "drop_bit 31 x = 0"
    and "(push_bit 31 1 + x) AND mask 16 = x AND mask 16"
    unfolding or by (rule bit_word_eqI; auto simp: bit_simps dest: hi)+
qed

lemma join16_small:
  fixes slabIdx allocIdx :: u32
  assumes "unat allocIdx < 2 ^ 16" and "unat slabIdx < 2 ^ n" and "n \<le> 16"
  shows "unat (push_bit 16 slabIdx + allocIdx) < 2 ^ (16 + n)"
proof -
  let ?x = "push_bit 16 slabIdx + allocIdx"
  have "take_bit (16 + n) ?x = ?x"
    by (intro bit_word_eqI)
       (auto simp: bit_simps bit_join16 [OF assms(1)] dest: bit_small [OF assms(2)])
  then have "unat ?x = take_bit (16 + n) (unat ?x)" by (metis unsigned_take_bit_eq)
  then show ?thesis by (metis take_bit_nat_less_exp)
qed

lemma compress4_laws:
  assumes alloc: "allocIdx \<le> kAllocIdxMask"
    and slab: "unat slabIdx < 2 ^ numSlabIdxBits4 mt - 1"
    and tier: "tid = 0 \<or> tid = 1"
  shows "getSlabIdx4 mt (compress4 slabIdx allocIdx mt tid) = slabIdx \<and>
         getAllocIdx4 (compress4 slabIdx allocIdx mt tid) = allocIdx \<and>
         getTierId4 mt (compress4 slabIdx allocIdx mt tid) = (if mt then ucast tid else 0) \<and>
         \<not> isNull4 (compress4 slabIdx allocIdx mt tid)"
proof -
  have a: "unat allocIdx < 2 ^ 16" using alloc by (simp only: mask16_le)
  let ?x = "push_bit 16 slabIdx + allocIdx"
  have notnull: "c \<noteq> kNull4" if "getSlabIdx4 mt c = slabIdx" for c
  proof
    assume c: "c = kNull4"
    have "unat (getSlabIdx4 mt kNull4) = 2 ^ numSlabIdxBits4 mt - 1"
      by (cases mt) (simp_all add: getSlabIdx4_def kNull4_def kTierIdxMask4_def ptr_layout push_bit_of_1)
    with that c slab show False by simp
  qed
  show ?thesis
  proof (cases mt)
    case False
    then have "unat slabIdx < 2 ^ 16" using slab by (simp add: ptr_layout)
    then have s: "take_bit 16 slabIdx = slabIdx" by (rule take_bit_small)
    show ?thesis using a s False notnull
      by (simp add: compress4_def getSlabIdx4_def getAllocIdx4_def getTierId4_def isNull4_def ptr_layout
          kAllocIdxMask_mask alloc_of_join16 slab_of_join16)
  next
    case True
    then have sl: "unat slabIdx < 2 ^ 15" using slab by (simp add: ptr_layout)
    then have s: "take_bit 16 slabIdx = slabIdx" by (intro take_bit_small) simp
    have x: "unat ?x < 2 ^ 31" using join16_small [OF a sl] by simp
    have c: "compress4 slabIdx allocIdx mt tid = (if tid = 1 then push_bit 31 1 + ?x else ?x)"
      using tier True by (auto simp: compress4_def ptr_layout add.assoc)
    have x': "?x AND NOT (push_bit 31 1) = ?x"
      by (intro bit_word_eqI) (auto simp: bit_simps dest: bit_small [OF x])
    define y where "y = (if tid = 1 then push_bit 31 1 + ?x else ?x)"
    have y: "y AND NOT (push_bit 31 1) = ?x" "y AND mask 16 = ?x AND mask 16"
      "drop_bit 31 y = (if tid = 1 then 1 else 0)"
      using tier_join31 [OF x] x' by (auto simp: y_def)
    have slabs: "getSlabIdx4 mt y = slabIdx"
      using True s slab_of_join16 [OF a, of slabIdx]
      by (simp only: getSlabIdx4_def kTierIdxMask4_def ptr_layout y if_True Let_def) simp
    show ?thesis unfolding c y_def [symmetric] isNull4_def
      using True tier slabs notnull [OF slabs] y alloc_of_join16 [OF a, of slabIdx]
      by (auto simp: getAllocIdx4_def getTierId4_def kAllocIdxMask_mask ptr_layout)
  qed
qed

text \<open>
  C33. The 32-bit pointer format is a round trip: for the indices the compressor accepts,
  the slab index, allocation index and tier read back are those packed, with and without
  tiers; the packed word is never the null pattern; and saving and restoring a compressed
  pointer is the identity.
\<close>

theorem compressed4_roundtrip:
  assumes "allocIdx \<le> kAllocIdxMask"
    and "unat slabIdx < 2 ^ numSlabIdxBits4 mt - 1"
    and "tid = 0 \<or> tid = 1"
  shows "getSlabIdx4 mt (compress4 slabIdx allocIdx mt tid) = slabIdx \<and>
         getAllocIdx4 (compress4 slabIdx allocIdx mt tid) = allocIdx \<and>
         getTierId4 mt (compress4 slabIdx allocIdx mt tid) = (if mt then ucast tid else 0) \<and>
         \<not> isNull4 (compress4 slabIdx allocIdx mt tid) \<and>
         restore4 (saveState4 ptr) = ptr"
proof -
  have "restore4 (saveState4 ptr) = ptr"
    unfolding restore4_def saveState4_def by (rule bit_word_eqI) (auto simp: bit_simps)
  with compress4_laws [OF assms] show ?thesis by blast
qed

theorem compressed4_roundtrip_witness:
  "getSlabIdx4 True (compress4 7 9 True 1) = 7 \<and> getAllocIdx4 (compress4 7 9 True 1) = 9 \<and>
   getTierId4 True (compress4 7 9 True 1) = 1 \<and> \<not> isNull4 (compress4 7 9 True 1) \<and>
   restore4 (saveState4 5) = 5"
  using compressed4_roundtrip [of 9 7 True 1 5]
  by (simp add: mask16_le numSlabIdxBits4_def ptr_layout)

lemma region_parts:
  fixes slabIdx :: u32
  assumes "unat slabIdx < 2 ^ 24"
  shows "push_bit 16 (ucast (ucast (drop_bit 16 slabIdx) :: u8)) + take_bit 16 slabIdx = slabIdx"
proof -
  have hi: "bit slabIdx k \<Longrightarrow> k < 24" for k by (rule bit_small [OF assms])
  have "push_bit 16 (ucast (ucast (drop_bit 16 slabIdx) :: u8)) + take_bit 16 slabIdx
      = push_bit 16 (ucast (ucast (drop_bit 16 slabIdx) :: u8)) OR take_bit 16 slabIdx"
    by (rule add_disjoint) (auto simp: bit_simps)
  also have "\<dots> = slabIdx"
    by (rule bit_word_eqI) (auto simp: bit_simps dest: hi)
  finally show ?thesis .
qed

lemma ptr5_low: "ucast (compress5 slabIdx allocIdx mt tid) = push_bit 16 slabIdx + allocIdx"
proof -
  have p: "ucast (push_bit 38 w) = (0 :: u32)" for w :: u64
    by (rule bit_word_eqI) (auto simp: bit_simps)
  have i: "ucast (ucast w :: u64) = w" for w :: u32
    by (rule bit_word_eqI) (auto simp: bit_simps)
  show ?thesis by (simp add: compress5_def ptr_layout ucast_down_add p i)
qed

lemma region5:
  assumes "mt \<Longrightarrow> tid = 0 \<or> tid = 1" and "unat slabIdx < 2 ^ (if mt then 22 else 23)"
  shows "getRegionIdx slabIdx mt tid =
           ucast (drop_bit 16 slabIdx) OR (if mt \<and> tid = 1 then push_bit 6 1 else 0)"
proof -
  let ?r = "ucast (drop_bit 16 slabIdx) :: u8"
  have hi: "bit slabIdx k \<Longrightarrow> k < (if mt then 22 else 23)" for k
    by (rule bit_small [OF assms(2)])
  have m: "ucast (drop_bit 16 slabIdx AND NOT (ucast kTierIdxMask5)) = ?r" if mt
    using that by (intro bit_word_eqI) (auto simp: kTierIdxMask5_def ptr_layout bit_simps dest: hi)
  have t: "ucast (push_bit 6 (1 :: u32)) = (push_bit 6 1 :: u8)"
    by (rule bit_word_eqI) (auto simp: bit_simps)
  have "push_bit 6 1 + ?r = push_bit 6 1 OR ?r" if mt
    using that by (intro add_disjoint) (auto simp: bit_simps dest: hi)
  then show ?thesis
    using assms(1) m t by (cases mt) (auto simp: getRegionIdx_def ptr_layout or.commute)
qed

lemma make5_laws:
  assumes alloc: "allocIdx \<le> kAllocIdxMask"
    and slab: "unat slabIdx < 2 ^ numSlabIdxBits5 mt - 1"
    and tier: "tid = 0 \<or> tid = 1"
  shows "getSlabIdx5 mt (make5 slabIdx allocIdx mt tid) = slabIdx \<and>
         getAllocIdx5 (make5 slabIdx allocIdx mt tid) = allocIdx \<and>
         getTierId5 mt (make5 slabIdx allocIdx mt tid) = (if mt then ucast tid else 0) \<and>
         \<not> isNull5 (make5 slabIdx allocIdx mt tid)"
proof (intro conjI)
  have a: "unat allocIdx < 2 ^ 16" using alloc by (simp only: mask16_le)
  have s: "unat slabIdx < 2 ^ (if mt then 22 else 23)"
    using slab by (cases mt) (simp_all add: ptr_layout)
  then have s24: "unat slabIdx < 2 ^ 24" by (cases mt) simp_all
  have hi: "bit slabIdx k \<Longrightarrow> k < (if mt then 22 else 23)" for k by (rule bit_small [OF s])
  let ?r = "ucast (drop_bit 16 slabIdx) :: u8"
  let ?t = "(if mt \<and> tid = 1 then push_bit 6 1 else 0) :: u8"
  have c: "make5 slabIdx allocIdx mt tid = \<lparr>cp_ptr = push_bit 16 slabIdx + allocIdx, cp_regionIdx = ?r OR ?t\<rparr>"
    using tier s by (simp add: make5_def ptr5_low region5)
  have strip: "ucast (?r OR ?t) AND NOT (ucast kTierIdxMask5) = (ucast ?r :: u32)" if mt
    using that by (intro bit_word_eqI) (auto simp: kTierIdxMask5_def ptr_layout bit_simps dest: hi)
  show "getSlabIdx5 mt (make5 slabIdx allocIdx mt tid) = slabIdx"
    unfolding c using region_parts [OF s24] slab_of_join16 [OF a, of slabIdx] strip
    by (cases mt) (simp_all add: getSlabIdx5_def ptr_layout)
  show "getAllocIdx5 (make5 slabIdx allocIdx mt tid) = allocIdx"
    by (simp add: c getAllocIdx5_def kAllocIdxMask_mask alloc_of_join16 [OF a])
  have top: "drop_bit 6 (?r OR ?t) = (if tid = 1 then 1 else 0)" if mt
    using that by (intro bit_word_eqI) (auto simp: bit_simps dest: hi)
  show "getTierId5 mt (make5 slabIdx allocIdx mt tid) = (if mt then ucast tid else 0)"
    unfolding c using tier top by (auto simp: getTierId5_def ptr_layout)
  have "\<not> bit (?r OR ?t) 7" using hi [of 23] by (auto simp: bit_simps split: if_splits)
  moreover have "bit kRegionNull 7" by (simp add: kRegionNull_def)
  ultimately have "?r OR ?t \<noteq> kRegionNull" by (elim contrapos_nn) (simp only:)
  then show "\<not> isNull5 (make5 slabIdx allocIdx mt tid)" by (simp add: c isNull5_def)
qed

lemma saveState5_restore: "restore5 (saveState5 p) = p"
proof -
  have "push_bit 32 (ucast r) + ucast q = (push_bit 32 (ucast r) OR ucast q :: u64)" for r :: u8 and q :: u32
    by (rule add_disjoint) (auto simp: bit_simps dest: bit_bounded)
  then have raw: "getRaw5 p = push_bit 32 (ucast (cp_regionIdx p)) OR ucast (cp_ptr p)"
    by (simp add: getRaw5_def ptr_layout)
  have "deserializePtr (getRaw5 p) = cp_ptr p" "deserializeRegion (getRaw5 p) = cp_regionIdx p"
    unfolding raw deserializePtr_def deserializeRegion_def kIdxNumBits_def
    by (rule bit_word_eqI; auto simp: bit_simps dest: bit_bounded)+
  then show ?thesis by (simp add: restore5_def saveState5_def)
qed

text \<open>
  C34. The 40-bit pointer format is a round trip: 23 bits of slab index (22 with tiers) and
  16 bits of allocation index read back as packed, although the shift of the slab index
  drops its region bits; the tier reads back; no packed pointer is null; saving and
  restoring is the identity on every value of the type.
\<close>

theorem compressed5_roundtrip:
  assumes "allocIdx \<le> kAllocIdxMask"
    and "unat slabIdx < 2 ^ numSlabIdxBits5 mt - 1"
    and "tid = 0 \<or> tid = 1"
  shows "getSlabIdx5 mt (make5 slabIdx allocIdx mt tid) = slabIdx \<and>
         getAllocIdx5 (make5 slabIdx allocIdx mt tid) = allocIdx \<and>
         getTierId5 mt (make5 slabIdx allocIdx mt tid) = (if mt then ucast tid else 0) \<and>
         \<not> isNull5 (make5 slabIdx allocIdx mt tid) \<and>
         restore5 (saveState5 p) = p"
  using make5_laws [OF assms] saveState5_restore by blast

theorem compressed5_roundtrip_witness:
  "getSlabIdx5 False (make5 0x12345 9 False 0) = 0x12345 \<and>
   getAllocIdx5 (make5 0x12345 9 False 0) = 9 \<and>
   getTierId5 False (make5 0x12345 9 False 0) = 0 \<and> \<not> isNull5 (make5 0x12345 9 False 0) \<and>
   restore5 (saveState5 null5) = null5"
  using compressed5_roundtrip [of 9 "0x12345" False 0 null5]
  by (simp add: mask16_le ptr_layout)

section \<open>Both formats keep the contract\<close>

lemma restore4_saveState4: "restore4 (saveState4 c) = c"
  unfolding restore4_def saveState4_def by (rule bit_word_eqI) (auto simp: bit_simps)

interpretation format4: pointer_format cptr4
  by unfold_locales
     (use compress4_laws in \<open>auto simp: cptr4_def isNull4_def getMaxAddressableSize4_def ptr_layout push_bit_of_1\<close>)

interpretation format5: pointer_format cptr5
  by unfold_locales
     (use make5_laws in \<open>auto simp: cptr5_def isNull5_def null5_def getMaxAddressableSize5_def ptr_layout push_bit_of_1\<close>)

end
