(* ===== verification/SlabAllocator.thy ===== *)
theory SlabAllocator
  imports CompressedPtr
begin

text \<open>
  The slab allocator: \<open>cachelib/allocator/memory/SlabAllocator.{h,cpp}\<close>. It owns a region of
  memory, keeps the headers of all slabs in its first slabs and hands the others out. A
  \<open>Slab*\<close> kept by the allocator is its address, \<open>nullptr\<close> being 0; a \<open>Slab*\<close> returned to a
  caller is a \<^typ>\<open>ptr\<close>. A \<open>SlabHeader*\<close> is the index of the header in the header array.
  Sections under the allocator's lock are single steps. The memory locker thread only reads
  pages: its page walk is \<open>lockMemoryAsync\<close>; \<open>madvise\<close> is a parameter (its success).
\<close>

type_synonym SlabIdx = u32

definition sizeof_SlabHeader :: size_t where "sizeof_SlabHeader = 7"
definition sizeof_Slab :: size_t where "sizeof_Slab = of_nat kSize"
definition kNullSlabIdx :: SlabIdx where "kNullSlabIdx = - 1"
definition getMinAllocSize :: u32 where "getMinAllocSize = push_bit kMinAllocPower 1"
definition kAddressMask :: u64 where "kAddressMask = - 1 - push_bit kNumSlabBits 1 + 1"

text \<open>\<open>memoryPoolSize_\<close> is an array of \<open>std::numeric_limits<PoolId>::max()\<close> entries.\<close>

definition kMaxPools :: nat where "kMaxPools = 127"

record SlabAllocator_Config =
  excludeFromCoredump :: bool
  lockMemory :: bool

record SlabAllocator =
  sa_memoryPoolSize :: "PoolId \<Rightarrow> size_t"
  sa_freeSlabs :: "addr list"
  sa_advisedSlabs :: "addr list"
  sa_memoryStart :: addr
  sa_memorySize :: size_t
  sa_slabMemoryStart :: addr
  sa_nextSlabAllocation :: addr
  sa_canAllocate :: bool
  sa_ownsMemory :: bool
  sa_pretendMadvise :: bool
  sa_headers :: "SlabIdx \<Rightarrow> SlabHeader"

definition roundDownToSlabSize :: "size_t \<Rightarrow> size_t" where
  "roundDownToSlabSize sz = sz - sz mod sizeof_Slab"

definition numSlabs :: "size_t \<Rightarrow> u32" where
  "numSlabs memorySize = ucast (memorySize div sizeof_Slab)"

definition numSlabsForHeaders :: "size_t \<Rightarrow> u32" where
  "numSlabsForHeaders memorySize =
     (let headerSpace = sizeof_SlabHeader * ucast (numSlabs memorySize)
      in ucast ((headerSpace + sizeof_Slab - 1) div sizeof_Slab))"

definition getNumUsableSlabs_static :: "size_t \<Rightarrow> u32" where
  "getNumUsableSlabs_static memorySize = numSlabs memorySize - numSlabsForHeaders memorySize"

definition computeSlabMemoryStart :: "addr \<Rightarrow> size_t \<Rightarrow> exn + addr" where
  "computeSlabMemoryStart memoryStart memorySize =
     (let numHeaderSlabs = numSlabsForHeaders memorySize
      in if numSlabs memorySize \<le> numHeaderSlabs then Inl invalid_argument
         else if memoryStart = 0 \<or> memoryStart mod kSize \<noteq> 0 then Inl invalid_argument
         else Inr (memoryStart + unat numHeaderSlabs * kSize))"

definition getSlabMemoryEnd :: "SlabAllocator \<Rightarrow> addr" where
  "getSlabMemoryEnd sa = sa_memoryStart sa + unat (sa_memorySize sa)"

definition getSlabForMemory :: "addr \<Rightarrow> addr" where
  "getSlabForMemory memory = unat ((of_nat memory :: u64) AND kAddressMask)"

definition isValidSlab :: "SlabAllocator \<Rightarrow> addr \<Rightarrow> bool" where
  "isValidSlab sa slab \<longleftrightarrow>
     slab \<ge> sa_slabMemoryStart sa \<and> slab < sa_nextSlabAllocation sa \<and> getSlabForMemory slab = slab"

definition isRestorable :: "SlabAllocator \<Rightarrow> bool" where
  "isRestorable sa \<longleftrightarrow> \<not> sa_ownsMemory sa"

definition allMemorySlabbed :: "SlabAllocator \<Rightarrow> bool" where
  "allMemorySlabbed sa \<longleftrightarrow> sa_nextSlabAllocation sa = getSlabMemoryEnd sa"

definition allSlabsAllocated :: "SlabAllocator \<Rightarrow> bool" where
  "allSlabsAllocated sa \<longleftrightarrow> allMemorySlabbed sa \<and> sa_freeSlabs sa = []"

definition numSlabsReclaimable :: "SlabAllocator \<Rightarrow> nat" where
  "numSlabsReclaimable sa = length (sa_advisedSlabs sa)"

definition getNumUsableAndAdvisedSlabs :: "SlabAllocator \<Rightarrow> u32" where
  "getNumUsableAndAdvisedSlabs sa = of_nat ((getSlabMemoryEnd sa - sa_slabMemoryStart sa) div kSize)"

definition getNumUsableSlabs :: "SlabAllocator \<Rightarrow> u32" where
  "getNumUsableSlabs sa = getNumUsableAndAdvisedSlabs sa - of_nat (numSlabsReclaimable sa)"

definition checkState :: "SlabAllocator \<Rightarrow> exn + unit" where
  "checkState sa =
     (if sa_memoryStart sa = 0 \<or> sa_memorySize sa \<le> sizeof_Slab then Inl invalid_argument
      else if sa_slabMemoryStart sa = 0 \<or> sa_nextSlabAllocation sa = 0 then Inl invalid_argument
      else if sa_nextSlabAllocation sa > getSlabMemoryEnd sa then Inl invalid_argument
      else if \<not> list_all (isValidSlab sa) (sa_freeSlabs sa) then Inl invalid_argument
      else Inr ())"

section \<open>Slab indices and headers\<close>

definition slabIdx :: "SlabAllocator \<Rightarrow> addr \<Rightarrow> SlabIdx" where
  "slabIdx sa slab =
     (if slab = 0 then kNullSlabIdx else of_nat ((slab - sa_slabMemoryStart sa) div kSize))"

definition getSlabForIdx :: "SlabAllocator \<Rightarrow> SlabIdx \<Rightarrow> addr" where
  "getSlabForIdx sa idx = (if idx = kNullSlabIdx then 0 else sa_slabMemoryStart sa + unat idx * kSize)"

definition getSlabHeader_slab :: "SlabAllocator \<Rightarrow> addr \<Rightarrow> SlabIdx option" where
  "getSlabHeader_slab sa slab = (if isValidSlab sa slab then Some (slabIdx sa slab) else None)"

definition getSlabHeader_memory :: "SlabAllocator \<Rightarrow> addr \<Rightarrow> SlabIdx option" where
  "getSlabHeader_memory sa memory =
     (let slab = getSlabForMemory memory
      in if isValidSlab sa slab then Some (of_nat ((slab - sa_slabMemoryStart sa) div kSize)) else None)"

definition isMemoryInSlab :: "SlabAllocator \<Rightarrow> addr \<Rightarrow> addr \<Rightarrow> bool" where
  "isMemoryInSlab sa p slab = (if \<not> isValidSlab sa slab then False else getSlabForMemory p = slab)"

definition upd_header :: "SlabIdx \<Rightarrow> (SlabHeader \<Rightarrow> SlabHeader) \<Rightarrow> SlabAllocator \<Rightarrow> SlabAllocator" where
  "upd_header i f sa = sa\<lparr>sa_headers := (sa_headers sa)(i := f (sa_headers sa i))\<rparr>"

section \<open>Construction\<close>

definition excludeMemoryFromCoredump :: "bool \<Rightarrow> exn + unit" where
  "excludeMemoryFromCoredump madvise_ok = (if madvise_ok then Inr () else Inl system_error)"

text \<open>The header array is in the memory handed over: its content is an argument.\<close>

definition SlabAllocator_new ::
  "addr \<Rightarrow> size_t \<Rightarrow> bool \<Rightarrow> SlabAllocator_Config \<Rightarrow> bool \<Rightarrow> (SlabIdx \<Rightarrow> SlabHeader) \<Rightarrow> exn + SlabAllocator" where
  "SlabAllocator_new memoryStart memorySize ownsMemory config madvise_ok hdrs =
     (let sz = roundDownToSlabSize memorySize
      in ebind (computeSlabMemoryStart memoryStart sz) (\<lambda>start.
         let sa = \<lparr>sa_memoryPoolSize = (\<lambda>_. 0), sa_freeSlabs = [], sa_advisedSlabs = [],
                   sa_memoryStart = memoryStart, sa_memorySize = sz, sa_slabMemoryStart = start,
                   sa_nextSlabAllocation = start, sa_canAllocate = True, sa_ownsMemory = ownsMemory,
                   sa_pretendMadvise = False, sa_headers = hdrs\<rparr>
         in ebind (checkState sa) (\<lambda>_.
            ebind (if excludeFromCoredump config then excludeMemoryFromCoredump madvise_ok else Inr ()) (\<lambda>_.
            Inr sa))))"

section \<open>Handing slabs out and taking them back\<close>

definition makeNewSlabImpl :: "SlabAllocator \<Rightarrow> ptr \<times> SlabAllocator" where
  "makeNewSlabImpl sa =
     (if \<not> sa_canAllocate sa then (None, sa)
      else if sa_freeSlabs sa \<noteq> []
      then (Some (last (sa_freeSlabs sa)), sa\<lparr>sa_freeSlabs := butlast (sa_freeSlabs sa)\<rparr>)
      else if allMemorySlabbed sa then (None, sa\<lparr>sa_canAllocate := False\<rparr>)
      else (Some (sa_nextSlabAllocation sa),
            sa\<lparr>sa_nextSlabAllocation := sa_nextSlabAllocation sa + kSize\<rparr>))"

text \<open>The caller guarantees a valid slab: the header pointer is dereferenced unchecked.\<close>

definition initializeHeader :: "addr \<Rightarrow> PoolId \<Rightarrow> SlabAllocator \<Rightarrow> SlabAllocator" where
  "initializeHeader slab pid sa =
     (case getSlabHeader_slab sa slab of
        None \<Rightarrow> sa
      | Some i \<Rightarrow> upd_header i (\<lambda>_. new_SlabHeader pid) sa)"

definition add_poolSize :: "PoolId \<Rightarrow> size_t \<Rightarrow> SlabAllocator \<Rightarrow> SlabAllocator" where
  "add_poolSize pid n sa = sa\<lparr>sa_memoryPoolSize := (sa_memoryPoolSize sa)(pid := sa_memoryPoolSize sa pid + n)\<rparr>"

definition makeNewSlab :: "PoolId \<Rightarrow> SlabAllocator \<Rightarrow> ptr \<times> SlabAllocator" where
  "makeNewSlab pid sa =
     (case makeNewSlabImpl sa of
        (None, sa') \<Rightarrow> (None, sa')
      | (Some slab, sa') \<Rightarrow> (Some slab, initializeHeader slab pid (add_poolSize pid sizeof_Slab sa')))"

definition freeSlab :: "addr \<Rightarrow> SlabAllocator \<Rightarrow> exn + SlabAllocator" where
  "freeSlab slab sa =
     (case getSlabHeader_slab sa slab of
        None \<Rightarrow> Inl runtime_error
      | Some header \<Rightarrow>
          let sa1 = add_poolSize (poolId (sa_headers sa header)) (- sizeof_Slab) sa;
              sa2 = sa1\<lparr>sa_freeSlabs := sa_freeSlabs sa1 @ [slab], sa_canAllocate := True\<rparr>
          in Inr (upd_header header resetAllocInfo sa2))"

definition adviseSlab :: "bool \<Rightarrow> addr \<Rightarrow> SlabAllocator \<Rightarrow> exn + bool \<times> SlabAllocator" where
  "adviseSlab madvise_ok slab sa =
     (case getSlabHeader_slab sa slab of
        None \<Rightarrow> Inl runtime_error
      | Some header \<Rightarrow>
          let sa1 = upd_header header (setAdvised True) sa
          in if madvise_ok \<or> sa_pretendMadvise sa1
             then Inr (True, upd_header header resetAllocInfo
                               (sa1\<lparr>sa_advisedSlabs := sa_advisedSlabs sa1 @ [slab]\<rparr>))
             else Inr (False, upd_header header (setAdvised False) sa1))"

definition reclaimSlab :: "PoolId \<Rightarrow> SlabAllocator \<Rightarrow> ptr \<times> SlabAllocator" where
  "reclaimSlab pid sa =
     (case sa_advisedSlabs sa of
        [] \<Rightarrow> (None, sa)
      | slab # rest \<Rightarrow>
          (Some slab, initializeHeader slab pid (add_poolSize pid sizeof_Slab (sa\<lparr>sa_advisedSlabs := rest\<rparr>))))"

text \<open>The page walk of the locker thread: the page offsets it reads and how many it skips.\<close>

function lockMemory_pages ::
  "SlabAllocator \<Rightarrow> (nat \<Rightarrow> bool) \<Rightarrow> nat \<Rightarrow> nat \<Rightarrow> nat \<Rightarrow> nat list \<times> nat \<Rightarrow> nat list \<times> nat" where
  "lockMemory_pages sa stopLocking pageSize numPages pageOffset (touched, advisedAway) =
     (if pageOffset < numPages \<and> \<not> stopLocking pageOffset
      then let pageAddr = sa_memoryStart sa + pageOffset * pageSize;
               header = getSlabHeader_memory sa pageAddr
           in lockMemory_pages sa stopLocking pageSize numPages (pageOffset + 1)
                (case header of
                   Some h \<Rightarrow> if isAdvised (sa_headers sa h) then (touched, advisedAway + 1)
                             else (touched @ [pageAddr], advisedAway)
                 | None \<Rightarrow> (touched @ [pageAddr], advisedAway))
      else (touched, advisedAway))"
  by pat_completeness auto
termination
  by (relation "measure (\<lambda>(sa, st, ps, n, i, _). n - i)") auto

declare lockMemory_pages.simps [simp del]

definition lockMemoryAsync :: "SlabAllocator \<Rightarrow> (nat \<Rightarrow> bool) \<Rightarrow> nat \<Rightarrow> nat list \<times> nat" where
  "lockMemoryAsync sa stopLocking pageSize =
     lockMemory_pages sa stopLocking pageSize ((unat (sa_memorySize sa) + pageSize - 1) div pageSize) 0 ([], 0)"

section \<open>Saving and restoring\<close>

record SlabAllocatorObject =
  so_memorySize :: size_t
  so_nextSlabIdx :: SlabIdx
  so_canAllocate :: bool
  so_memoryPoolSize :: "(PoolId \<times> size_t) list"
  so_freeSlabIdxs :: "SlabIdx list"
  so_advisedSlabIdxs :: "SlabIdx list"
  so_slabSize :: size_t
  so_minAllocSize :: size_t

definition saveState :: "SlabAllocator \<Rightarrow> exn + SlabAllocatorObject" where
  "saveState sa =
     (if \<not> isRestorable sa then Inl logic_error
      else Inr \<lparr>so_memorySize = sa_memorySize sa,
                so_nextSlabIdx = slabIdx sa (sa_nextSlabAllocation sa),
                so_canAllocate = sa_canAllocate sa,
                so_memoryPoolSize = map (\<lambda>i. (of_nat i, sa_memoryPoolSize sa (of_nat i))) [0..<kMaxPools],
                so_freeSlabIdxs = map (slabIdx sa) (sa_freeSlabs sa),
                so_advisedSlabIdxs = map (slabIdx sa) (sa_advisedSlabs sa),
                so_slabSize = sizeof_Slab, so_minAllocSize = ucast getMinAllocSize\<rparr>)"

text \<open>A negative id passes the bound check and indexes before the array.\<close>

fun restorePoolSizes :: "(PoolId \<times> size_t) list \<Rightarrow> SlabAllocator \<Rightarrow> exn + SlabAllocator" where
  "restorePoolSizes [] sa = Inr sa"
| "restorePoolSizes ((pid, sz) # rest) sa =
     (if sint pid \<ge> int kMaxPools then Inl invalid_argument
      else if sint pid < 0 then Inl undefined_behaviour
      else restorePoolSizes rest (sa\<lparr>sa_memoryPoolSize := (sa_memoryPoolSize sa)(pid := sz)\<rparr>))"

fun restoreAdvisedSlabs :: "SlabIdx list \<Rightarrow> SlabAllocator \<Rightarrow> SlabAllocator" where
  "restoreAdvisedSlabs [] sa = sa"
| "restoreAdvisedSlabs (i # is) sa =
     (let sa1 = upd_header i (setAdvised True) sa
      in restoreAdvisedSlabs is (sa1\<lparr>sa_advisedSlabs := sa_advisedSlabs sa1 @ [getSlabForIdx sa1 i]\<rparr>))"

definition SlabAllocator_restore ::
  "SlabAllocatorObject \<Rightarrow> addr \<Rightarrow> size_t \<Rightarrow> SlabAllocator_Config \<Rightarrow> bool \<Rightarrow> (SlabIdx \<Rightarrow> SlabHeader) \<Rightarrow> exn + SlabAllocator" where
  "SlabAllocator_restore object memoryStart memSize config madvise_ok hdrs =
     ebind (computeSlabMemoryStart memoryStart (so_memorySize object)) (\<lambda>start.
       let sa = \<lparr>sa_memoryPoolSize = (\<lambda>_. 0), sa_freeSlabs = [], sa_advisedSlabs = [],
                 sa_memoryStart = memoryStart, sa_memorySize = so_memorySize object,
                 sa_slabMemoryStart = start, sa_nextSlabAllocation = 0,
                 sa_canAllocate = so_canAllocate object, sa_ownsMemory = False,
                 sa_pretendMadvise = False, sa_headers = hdrs\<rparr>;
           sa1 = sa\<lparr>sa_nextSlabAllocation := getSlabForIdx sa (so_nextSlabIdx object)\<rparr>
       in if sizeof_Slab \<noteq> so_slabSize object then Inl invalid_argument
          else if ucast getMinAllocSize \<noteq> so_minAllocSize object then Inl invalid_argument
          else if sa_memorySize sa1 \<noteq> roundDownToSlabSize memSize then Inl invalid_argument
          else ebind (if excludeFromCoredump config then excludeMemoryFromCoredump madvise_ok else Inr ()) (\<lambda>_.
               ebind (restorePoolSizes (so_memoryPoolSize object) sa1) (\<lambda>sa2.
               let sa3 = sa2\<lparr>sa_freeSlabs := map (getSlabForIdx sa2) (so_freeSlabIdxs object)\<rparr>;
                   sa4 = restoreAdvisedSlabs (so_advisedSlabIdxs object) sa3
               in ebind (checkState sa4) (\<lambda>_. Inr sa4))))"

section \<open>Pointer compression\<close>

text \<open>
  The caller passes pointers into slabs that have an allocation size (the division by a zero
  size is undefined in C++). \<open>ndebug\<close> is the build without the debug-only checks.
\<close>

definition compress :: "'c CompressedPtrType \<Rightarrow> SlabAllocator \<Rightarrow> bool \<Rightarrow> ptr \<Rightarrow> exn + 'c" where
  "compress ct sa isMultiTiered p =
     (case p of
        None \<Rightarrow> Inr (ct_null ct)
      | Some ptr \<Rightarrow>
          let slab = getSlabForMemory ptr
          in if \<not> isValidSlab sa slab then Inl invalid_argument
             else let slabIndex = of_nat ((slab - sa_slabMemoryStart sa) div kSize);
                      allocSize = allocSize (sa_headers sa slabIndex);
                      allocIdx = of_nat (ptr - slab) div allocSize
                  in Inr (ct_make ct slabIndex allocIdx isMultiTiered))"

definition unCompress :: "bool \<Rightarrow> 'c CompressedPtrType \<Rightarrow> SlabAllocator \<Rightarrow> bool \<Rightarrow> 'c \<Rightarrow> exn + ptr" where
  "unCompress ndebug ct sa isMultiTiered c =
     (if ct_isNull ct c then Inr None
      else let slabIndex = ct_getSlabIdx ct isMultiTiered c;
               allocIdx = ct_getAllocIdx ct c;
               slab = sa_slabMemoryStart sa + unat slabIndex * kSize
           in if \<not> ndebug \<and> \<not> isValidSlab sa slab then Inl invalid_argument
              else let allocSize = allocSize (sa_headers sa slabIndex);
                       offset = allocSize * allocIdx
                   in if \<not> ndebug \<and> unat offset \<ge> kSize then Inl invalid_argument
                      else Inr (Some (memoryAtOffset slab (unat offset))))"

definition createPtrCompressor :: "'c CompressedPtrType \<Rightarrow> SlabAllocator \<Rightarrow> bool \<Rightarrow> 'c PtrCompressor" where
  "createPtrCompressor ct sa isMultiTiered =
     \<lparr>pc_compress = (\<lambda>p. projr (compress ct sa isMultiTiered p)),
      pc_unCompress = (\<lambda>c. projr (unCompress True ct sa isMultiTiered c))\<rparr>"

definition kMarkerBits :: nat where "kMarkerBits = 6"

definition compressAlt :: "SlabAllocator \<Rightarrow> ptr \<Rightarrow> CompressedPtr4B" where
  "compressAlt sa p =
     (case p of
        None \<Rightarrow> kNull4
      | Some ptr \<Rightarrow> let delta = int ptr - int (sa_slabMemoryStart sa)
                    in of_int (drop_bit kMarkerBits delta))"

text \<open>The shift of the raw value is done in its own 32 bits.\<close>

definition unCompressAlt :: "SlabAllocator \<Rightarrow> CompressedPtr4B \<Rightarrow> exn + ptr" where
  "unCompressAlt sa c =
     (if isNull4 c then Inr None
      else let markerOffset = push_bit kMarkerBits c;
               markerPtr = sa_slabMemoryStart sa + unat markerOffset
           in case getSlabHeader_memory sa markerPtr of
                None \<Rightarrow> Inl undefined_behaviour
              | Some header \<Rightarrow>
                  let allocSize = unat (allocSize (sa_headers sa header));
                      slab = getSlabForMemory markerPtr;
                      slabOffset = markerPtr - slab;
                      delta = slabOffset mod allocSize
                  in Inr (Some (memoryAtOffset slab
                       (if delta \<noteq> 0 then slabOffset + (allocSize - delta) else slabOffset))))"

text \<open>The random offset is an argument.\<close>

definition getRandomAlloc :: "SlabAllocator \<Rightarrow> nat \<Rightarrow> u32 \<times> ptr" where
  "getRandomAlloc sa offset =
     (let memory = sa_slabMemoryStart sa + offset;
          slab = getSlabForMemory memory
      in case getSlabHeader_slab sa slab of
           None \<Rightarrow> (0, None)
         | Some header \<Rightarrow>
             let allocSize = allocSize (sa_headers sa header)
             in if allocSize = 0 then (0, None)
                else let maxAllocIdx = sizeof_Slab div ucast allocSize - 1;
                         idx = of_nat (memory - slab) div ucast allocSize;
                         allocIdx = (if idx > maxAllocIdx then maxAllocIdx else idx)
                     in (allocSize, Some (slab + unat (ucast allocSize * allocIdx))))"

section \<open>Geometry\<close>

lemma next_multiple: "k dvd a \<Longrightarrow> k dvd b \<Longrightarrow> a < b \<Longrightarrow> a + k \<le> b" for a b k :: nat
  using dvd_imp_le [of k "b - a"] by simp

lemma kSize_pos [simp]: "0 < kSize"
  by (simp add: kSize_def)

lemma kSize_dvd_2_64: "kSize dvd 2 ^ 64"
  unfolding kSize_def kNumSlabBits_def by (rule le_imp_power_dvd) simp

lemma unat_sizeof_Slab [simp]: "unat sizeof_Slab = kSize"
  by (simp add: sizeof_Slab_def kSize_def kNumSlabBits_def)

lemma getSlabForMemory_eq: "m < 2 ^ 64 \<Longrightarrow> getSlabForMemory m = m - m mod kSize"
proof -
  assume m: "m < 2 ^ 64"
  let ?w = "of_nat m :: u64"
  have u: "unat ?w = m" using m by (simp add: unsigned_of_nat take_bit_nat_eq_self)
  have mask: "kAddressMask = NOT (mask 22)"
    by (simp add: kAddressMask_def kNumSlabBits_def push_bit_of_1 mask_eq_exp_minus_1)
  have "(?w AND mask 22) + (?w AND NOT (mask 22)) = (?w AND mask 22) OR (?w AND NOT (mask 22))"
    by (rule add_disjoint) (auto simp: bit_simps)
  also have "\<dots> = ?w" by (rule bit_word_eqI) (auto simp: bit_simps)
  finally have "(?w AND mask 22) + (?w AND NOT (mask 22)) = ?w" .
  then have eq: "?w AND NOT (mask 22) = ?w - take_bit 22 ?w"
    by (simp add: take_bit_eq_mask algebra_simps)
  have t: "unat (take_bit 22 ?w) = m mod 2 ^ 22"
    by (subst unsigned_take_bit_eq) (simp only: u take_bit_eq_mod)
  then have "take_bit 22 ?w \<le> ?w" by (simp only: word_le_nat_alt u) simp
  then have "unat (?w - take_bit 22 ?w) = m - m mod 2 ^ 22" by (simp only: unat_sub u t)
  then show ?thesis by (simp only: getSlabForMemory_def mask eq kSize_def kNumSlabBits_def)
qed

lemma slab_of_offset:
  assumes "kSize dvd slab" and "off < kSize" and "slab + off < 2 ^ 64"
  shows "getSlabForMemory (slab + off) = slab"
proof -
  from assms(1) obtain k where "slab = kSize * k" ..
  then show ?thesis using assms(2,3) by (simp add: getSlabForMemory_eq)
qed

text \<open>
  The shape of the memory region. The bound on the size is what 32-bit slab indices can
  count; every operation keeps the shape, the constructor establishes it.
\<close>

definition sa_geometry :: "SlabAllocator \<Rightarrow> bool" where
  "sa_geometry sa \<longleftrightarrow>
     0 < sa_memoryStart sa \<and> kSize dvd sa_memoryStart sa \<and> kSize dvd unat (sa_memorySize sa) \<and>
     getSlabMemoryEnd sa < 2 ^ 64 \<and> unat (sa_memorySize sa) < 2 ^ 54 - kSize \<and>
     numSlabsForHeaders (sa_memorySize sa) < numSlabs (sa_memorySize sa) \<and>
     sa_slabMemoryStart sa = sa_memoryStart sa + unat (numSlabsForHeaders (sa_memorySize sa)) * kSize \<and>
     sa_slabMemoryStart sa \<le> sa_nextSlabAllocation sa \<and> kSize dvd sa_nextSlabAllocation sa \<and>
     sa_nextSlabAllocation sa \<le> getSlabMemoryEnd sa"

text \<open>The slabs cut out of the memory so far.\<close>

definition carved :: "SlabAllocator \<Rightarrow> addr set" where
  "carved sa = {s. sa_slabMemoryStart sa \<le> s \<and> s < sa_nextSlabAllocation sa \<and> kSize dvd s}"

lemma numSlabs_unat: "unat m < 2 ^ 54 \<Longrightarrow> unat (numSlabs m) = unat m div kSize"
proof -
  assume m: "unat m < 2 ^ 54"
  have "unat (m div sizeof_Slab) = unat m div kSize" by (simp add: unat_div)
  moreover have "unat m div kSize < 2 ^ 32"
    using m by (simp add: kSize_def kNumSlabBits_def less_mult_imp_div_less)
  ultimately show ?thesis
    unfolding numSlabs_def by (subst unsigned_ucast_eq) (simp add: take_bit_nat_eq_self)
qed

lemma numSlabsForHeaders_unat:
  assumes "unat m < 2 ^ 54"
  shows "unat (numSlabsForHeaders m) = (7 * (unat m div kSize) + kSize - 1) div kSize"
proof -
  let ?n = "unat m div kSize"
  have n: "?n < 2 ^ 32" using assms by (simp add: kSize_def kNumSlabBits_def less_mult_imp_div_less)
  have h: "unat (sizeof_SlabHeader * ucast (numSlabs m) :: size_t) = 7 * ?n"
    using n numSlabs_unat [OF assms]
    by (simp add: sizeof_SlabHeader_def unat_word_ariths unsigned_ucast_eq take_bit_nat_eq_self)
  have k: "kSize = 2 ^ 22" by (simp add: kSize_def kNumSlabBits_def)
  have s: "unat (sizeof_SlabHeader * ucast (numSlabs m) + sizeof_Slab - 1 :: size_t) = 7 * ?n + kSize - 1"
  proof -
    have a: "unat (sizeof_SlabHeader * ucast (numSlabs m) + sizeof_Slab :: size_t) = 7 * ?n + kSize"
      using n by (subst unat_add_lem [THEN iffD1]) (simp_all add: h k)
    then have "(sizeof_SlabHeader * ucast (numSlabs m) + sizeof_Slab :: size_t) \<noteq> 0"
      by (metis add_is_0 kSize_pos less_numeral_extra(3) unsigned_0)
    from unat_minus_one [OF this] show ?thesis by (simp only: a)
  qed
  have "(7 * ?n + kSize - 1) div kSize < 2 ^ 32"
    using n by (simp add: k less_mult_imp_div_less)
  then show ?thesis
    unfolding numSlabsForHeaders_def Let_def
    by (subst unsigned_ucast_eq) (simp add: unat_div s take_bit_nat_eq_self)
qed

lemma geometry_start:
  assumes "sa_geometry sa"
  shows "kSize dvd sa_slabMemoryStart sa" and "0 < sa_slabMemoryStart sa"
    and "sa_slabMemoryStart sa < getSlabMemoryEnd sa" and "kSize dvd getSlabMemoryEnd sa"
    and "(getSlabMemoryEnd sa - sa_slabMemoryStart sa) div kSize < 2 ^ 32 - 1"
proof -
  let ?h = "unat (numSlabsForHeaders (sa_memorySize sa))" and ?n = "unat (sa_memorySize sa) div kSize"
  have "unat (sa_memorySize sa) < 2 ^ 54 - kSize" using assms by (simp add: sa_geometry_def)
  then have n: "unat (numSlabs (sa_memorySize sa)) = ?n" by (intro numSlabs_unat) linarith
  have hn: "?h < ?n" using assms by (simp add: sa_geometry_def word_less_nat_alt n)
  have sz: "unat (sa_memorySize sa) = ?n * kSize" using assms by (simp add: sa_geometry_def)
  have start: "sa_slabMemoryStart sa = sa_memoryStart sa + ?h * kSize"
    using assms by (simp add: sa_geometry_def)
  show "kSize dvd sa_slabMemoryStart sa" "0 < sa_slabMemoryStart sa"
    using assms by (simp_all add: sa_geometry_def)
  show e: "kSize dvd getSlabMemoryEnd sa" using assms by (simp add: getSlabMemoryEnd_def sa_geometry_def)
  have "?h * kSize < ?n * kSize" using hn by simp
  then show "sa_slabMemoryStart sa < getSlabMemoryEnd sa"
    unfolding start getSlabMemoryEnd_def using sz by linarith
  have "(getSlabMemoryEnd sa - sa_slabMemoryStart sa) div kSize \<le> ?n"
    unfolding start getSlabMemoryEnd_def by (rule div_le_mono) simp
  moreover have "?n < 2 ^ 32 - 1"
    using assms by (simp add: sa_geometry_def kSize_def kNumSlabBits_def less_mult_imp_div_less)
  ultimately show "(getSlabMemoryEnd sa - sa_slabMemoryStart sa) div kSize < 2 ^ 32 - 1" by simp
qed

lemma valid_iff_carved: "sa_geometry sa \<Longrightarrow> isValidSlab sa s \<longleftrightarrow> s \<in> carved sa"
  by (auto simp: isValidSlab_def carved_def sa_geometry_def getSlabForMemory_eq dvd_eq_mod_eq_0)

lemma slab_index:
  assumes g: "sa_geometry sa" and s: "s \<in> carved sa \<or> s = sa_nextSlabAllocation sa"
  shows "unat (slabIdx sa s) = (s - sa_slabMemoryStart sa) div kSize"
    and "sa_slabMemoryStart sa + unat (slabIdx sa s) * kSize = s"
    and "getSlabForIdx sa (slabIdx sa s) = s" and "0 < s"
    and "slabIdx sa s = of_nat ((s - sa_slabMemoryStart sa) div kSize)"
proof -
  have b: "sa_slabMemoryStart sa \<le> s" "kSize dvd s" "s \<le> getSlabMemoryEnd sa"
    using g s by (auto simp: carved_def sa_geometry_def)
  show pos: "0 < s" using b geometry_start(2) [OF g] by linarith
  then show i: "slabIdx sa s = of_nat ((s - sa_slabMemoryStart sa) div kSize)"
    by (simp add: slabIdx_def)
  have le: "(s - sa_slabMemoryStart sa) div kSize < 2 ^ 32 - 1"
    using b(3) geometry_start(5) [OF g]
    by (meson diff_le_mono div_le_mono le_less_trans)
  then show u: "unat (slabIdx sa s) = (s - sa_slabMemoryStart sa) div kSize"
    by (simp add: i unsigned_of_nat take_bit_nat_eq_self)
  have "kSize dvd s - sa_slabMemoryStart sa" using b(2) geometry_start(1) [OF g] by simp
  then show ret: "sa_slabMemoryStart sa + unat (slabIdx sa s) * kSize = s"
    using b(1) by (simp add: u)
  have "unat (slabIdx sa s) \<noteq> unat kNullSlabIdx"
    using le by (simp add: u kNullSlabIdx_def unsigned_minus_1_eq_mask mask_eq_exp_minus_1)
  then show "getSlabForIdx sa (slabIdx sa s) = s"
    using ret by (auto simp: getSlabForIdx_def)
qed

lemma slab_index_inj:
  "sa_geometry sa \<Longrightarrow> s \<in> carved sa \<Longrightarrow> t \<in> carved sa \<Longrightarrow> slabIdx sa s = slabIdx sa t \<longleftrightarrow> s = t"
  by (metis slab_index(3))

lemma slab_index_memory:
  assumes g: "sa_geometry sa" and "s \<in> carved sa" and "off < kSize"
  shows "getSlabForMemory (s + off) = s"
proof (rule slab_of_offset)
  show "kSize dvd s" using assms(2) by (simp add: carved_def)
  have "s + kSize \<le> sa_nextSlabAllocation sa"
    using assms(2) g by (intro next_multiple) (auto simp: carved_def sa_geometry_def)
  then show "s + off < 2 ^ 64" using assms(3) g by (simp add: sa_geometry_def)
qed fact

section \<open>Who owns a slab\<close>

text \<open>
  The allocator together with the set of slabs it has handed out. Each operation is a step;
  the owner of a slab may rewrite its header (the allocation classes do), but not the bit
  that says the slab is advised away.
\<close>

definition header_of :: "SlabAllocator \<Rightarrow> addr \<Rightarrow> SlabHeader" where
  "header_of sa s = sa_headers sa (slabIdx sa s)"

inductive sa_step :: "SlabAllocator \<times> addr set \<Rightarrow> SlabAllocator \<times> addr set \<Rightarrow> bool" where
  make: "makeNewSlab pid sa = (Some s, sa') \<Longrightarrow> sa_step (sa, used) (sa', insert s used)"
| make_null: "makeNewSlab pid sa = (None, sa') \<Longrightarrow> sa_step (sa, used) (sa', used)"
| free: "s \<in> used \<Longrightarrow> freeSlab s sa = Inr sa' \<Longrightarrow> sa_step (sa, used) (sa', used - {s})"
| advise: "s \<in> used \<Longrightarrow> adviseSlab ok s sa = Inr (True, sa') \<Longrightarrow> sa_step (sa, used) (sa', used - {s})"
| advise_fail: "s \<in> used \<Longrightarrow> adviseSlab ok s sa = Inr (False, sa') \<Longrightarrow> sa_step (sa, used) (sa', used)"
| reclaim: "reclaimSlab pid sa = (Some s, sa') \<Longrightarrow> sa_step (sa, used) (sa', insert s used)"
| reclaim_null: "reclaimSlab pid sa = (None, sa') \<Longrightarrow> sa_step (sa, used) (sa', used)"
| header: "s \<in> used \<Longrightarrow> (\<And>h. isAdvised (f h) = isAdvised h) \<Longrightarrow>
     sa_step (sa, used) (upd_header (slabIdx sa s) f sa, used)"

definition sa_inv :: "SlabAllocator \<Rightarrow> addr set \<Rightarrow> bool" where
  "sa_inv sa used \<longleftrightarrow>
     sa_geometry sa \<and> distinct (sa_freeSlabs sa @ sa_advisedSlabs sa) \<and>
     used \<inter> (set (sa_freeSlabs sa) \<union> set (sa_advisedSlabs sa)) = {} \<and>
     used \<union> set (sa_freeSlabs sa) \<union> set (sa_advisedSlabs sa) = carved sa \<and>
     (sa_canAllocate sa \<or> sa_freeSlabs sa = [] \<and> allMemorySlabbed sa) \<and>
     (\<forall>s. s \<in> carved sa \<longrightarrow> isAdvised (header_of sa s) = (s \<in> set (sa_advisedSlabs sa)))"

lemma upd_header_frame [simp]:
  "sa_freeSlabs (upd_header i f sa) = sa_freeSlabs sa"
  "sa_advisedSlabs (upd_header i f sa) = sa_advisedSlabs sa"
  "sa_canAllocate (upd_header i f sa) = sa_canAllocate sa"
  "sa_pretendMadvise (upd_header i f sa) = sa_pretendMadvise sa"
  "sa_headers (upd_header i f sa) = (sa_headers sa)(i := f (sa_headers sa i))"
  "sa_memoryPoolSize (upd_header i f sa) = sa_memoryPoolSize sa"
  "sa_nextSlabAllocation (upd_header i f sa) = sa_nextSlabAllocation sa"
  "sa_slabMemoryStart (upd_header i f sa) = sa_slabMemoryStart sa"
  "sa_ownsMemory (upd_header i f sa) = sa_ownsMemory sa"
  by (simp_all add: upd_header_def)

lemma add_poolSize_frame [simp]:
  "sa_freeSlabs (add_poolSize pid n sa) = sa_freeSlabs sa"
  "sa_advisedSlabs (add_poolSize pid n sa) = sa_advisedSlabs sa"
  "sa_canAllocate (add_poolSize pid n sa) = sa_canAllocate sa"
  "sa_headers (add_poolSize pid n sa) = sa_headers sa"
  "sa_memoryPoolSize (add_poolSize pid n sa) = (sa_memoryPoolSize sa)(pid := sa_memoryPoolSize sa pid + n)"
  "sa_nextSlabAllocation (add_poolSize pid n sa) = sa_nextSlabAllocation sa"
  by (simp_all add: add_poolSize_def)

text \<open>The geometry reads only the fields that describe the memory.\<close>

definition same_memory :: "SlabAllocator \<Rightarrow> SlabAllocator \<Rightarrow> bool" where
  "same_memory sa sb \<longleftrightarrow>
     sa_memoryStart sa = sa_memoryStart sb \<and> sa_memorySize sa = sa_memorySize sb \<and>
     sa_slabMemoryStart sa = sa_slabMemoryStart sb \<and> sa_nextSlabAllocation sa = sa_nextSlabAllocation sb"

lemma same_memory_cong:
  assumes "same_memory sa sb"
  shows "sa_geometry sa = sa_geometry sb" "carved sa = carved sb" "slabIdx sa = slabIdx sb"
    "isValidSlab sa = isValidSlab sb" "allMemorySlabbed sa = allMemorySlabbed sb"
    "getSlabHeader_slab sa = getSlabHeader_slab sb" "getSlabMemoryEnd sa = getSlabMemoryEnd sb"
proof -
  show e: "getSlabMemoryEnd sa = getSlabMemoryEnd sb" and c: "carved sa = carved sb"
    and i: "slabIdx sa = slabIdx sb" and v: "isValidSlab sa = isValidSlab sb"
    using assms by (auto simp: same_memory_def getSlabMemoryEnd_def carved_def slabIdx_def isValidSlab_def fun_eq_iff)
  show "sa_geometry sa = sa_geometry sb" "allMemorySlabbed sa = allMemorySlabbed sb"
    "getSlabHeader_slab sa = getSlabHeader_slab sb"
    using assms by (simp_all add: same_memory_def sa_geometry_def allMemorySlabbed_def
        getSlabHeader_slab_def fun_eq_iff e i v)
qed

lemma same_memory_frames [simp, intro]:
  "same_memory (upd_header i f sa) sa" "same_memory (add_poolSize pid n sa) sa"
  "same_memory (sa\<lparr>sa_freeSlabs := fs\<rparr>) sa" "same_memory (sa\<lparr>sa_advisedSlabs := fs\<rparr>) sa"
  "same_memory (sa\<lparr>sa_canAllocate := b\<rparr>) sa"
  "same_memory (sa\<lparr>sa_freeSlabs := fs, sa_canAllocate := b\<rparr>) sa"
  by (simp_all add: same_memory_def upd_header_def add_poolSize_def)

lemmas frame_simps [simp] =
  same_memory_frames(1) [THEN same_memory_cong(1)] same_memory_frames(1) [THEN same_memory_cong(2)]
  same_memory_frames(1) [THEN same_memory_cong(3)] same_memory_frames(1) [THEN same_memory_cong(5)]
  same_memory_frames(2) [THEN same_memory_cong(1)] same_memory_frames(2) [THEN same_memory_cong(2)]
  same_memory_frames(2) [THEN same_memory_cong(3)] same_memory_frames(2) [THEN same_memory_cong(5)]
  same_memory_frames(3) [THEN same_memory_cong(1)] same_memory_frames(3) [THEN same_memory_cong(2)]
  same_memory_frames(3) [THEN same_memory_cong(3)] same_memory_frames(3) [THEN same_memory_cong(5)]
  same_memory_frames(4) [THEN same_memory_cong(1)] same_memory_frames(4) [THEN same_memory_cong(2)]
  same_memory_frames(4) [THEN same_memory_cong(3)] same_memory_frames(4) [THEN same_memory_cong(5)]
  same_memory_frames(5) [THEN same_memory_cong(1)] same_memory_frames(5) [THEN same_memory_cong(2)]
  same_memory_frames(5) [THEN same_memory_cong(3)] same_memory_frames(5) [THEN same_memory_cong(5)]
  same_memory_frames(6) [THEN same_memory_cong(1)] same_memory_frames(6) [THEN same_memory_cong(2)]
  same_memory_frames(6) [THEN same_memory_cong(3)] same_memory_frames(6) [THEN same_memory_cong(5)]

lemma header_of_upd:
  "sa_geometry sa \<Longrightarrow> s \<in> carved sa \<Longrightarrow> t \<in> carved sa \<Longrightarrow>
   header_of (upd_header (slabIdx sa s) f sa) t = (if t = s then f (header_of sa s) else header_of sa t)"
  by (simp add: header_of_def slab_index_inj)

lemma header_of_frame [simp]:
  "header_of (add_poolSize pid n sa) = header_of sa"
  "header_of (sa\<lparr>sa_freeSlabs := fs\<rparr>) = header_of sa" "header_of (sa\<lparr>sa_advisedSlabs := fs\<rparr>) = header_of sa"
  "header_of (sa\<lparr>sa_canAllocate := b\<rparr>) = header_of sa"
  "header_of (sa\<lparr>sa_freeSlabs := fs, sa_canAllocate := b\<rparr>) = header_of sa"
  by (simp_all add: fun_eq_iff header_of_def slabIdx_def)

lemma header_lookup:
  "sa_geometry sa \<Longrightarrow> s \<in> carved sa \<Longrightarrow> getSlabHeader_slab sa s = Some (slabIdx sa s)"
  by (simp add: getSlabHeader_slab_def valid_iff_carved)

lemma initializeHeader_carved:
  "sa_geometry sa \<Longrightarrow> s \<in> carved sa \<Longrightarrow>
   initializeHeader s pid sa = upd_header (slabIdx sa s) (\<lambda>_. new_SlabHeader pid) sa"
  by (simp add: initializeHeader_def header_lookup)

lemma sa_invD:
  assumes "sa_inv sa used"
  shows "sa_geometry sa" "distinct (sa_freeSlabs sa)" "distinct (sa_advisedSlabs sa)"
    "set (sa_freeSlabs sa) \<inter> set (sa_advisedSlabs sa) = {}"
    "used \<inter> (set (sa_freeSlabs sa) \<union> set (sa_advisedSlabs sa)) = {}"
    "carved sa = used \<union> set (sa_freeSlabs sa) \<union> set (sa_advisedSlabs sa)"
    "sa_canAllocate sa \<or> sa_freeSlabs sa = [] \<and> allMemorySlabbed sa"
    "\<And>s. s \<in> carved sa \<Longrightarrow> isAdvised (header_of sa s) = (s \<in> set (sa_advisedSlabs sa))"
  using assms by (auto simp: sa_inv_def)

text \<open>Cutting the next slab out of the memory.\<close>

lemma carve_next:
  assumes g: "sa_geometry sa" and "\<not> allMemorySlabbed sa"
  defines "sb \<equiv> sa\<lparr>sa_nextSlabAllocation := sa_nextSlabAllocation sa + kSize\<rparr>"
  shows "sa_geometry sb" and "carved sb = insert (sa_nextSlabAllocation sa) (carved sa)"
    and "sa_nextSlabAllocation sa \<notin> carved sa" and "slabIdx sb = slabIdx sa" and "header_of sb = header_of sa"
proof -
  have e: "getSlabMemoryEnd sb = getSlabMemoryEnd sa" by (simp add: sb_def getSlabMemoryEnd_def)
  have d: "kSize dvd sa_nextSlabAllocation sa" "sa_nextSlabAllocation sa \<le> getSlabMemoryEnd sa"
    using g by (simp_all add: sa_geometry_def)
  with assms(2) have "sa_nextSlabAllocation sa < getSlabMemoryEnd sa" by (simp add: allMemorySlabbed_def)
  moreover have "kSize dvd getSlabMemoryEnd sa" by (rule geometry_start(4) [OF g])
  ultimately have le: "sa_nextSlabAllocation sa + kSize \<le> getSlabMemoryEnd sa"
    using d(1) by (intro next_multiple)
  then show "sa_geometry sb" using g d e by (simp add: sa_geometry_def) (simp add: sb_def)
  have between: "s < n + kSize \<Longrightarrow> kSize dvd s \<Longrightarrow> kSize dvd n \<Longrightarrow> n \<le> s \<Longrightarrow> s = n" for s n
    using next_multiple [of kSize n s] by linarith
  show "carved sb = insert (sa_nextSlabAllocation sa) (carved sa)"
    using g d by (auto simp: carved_def sb_def sa_geometry_def not_less intro: between)
  show "sa_nextSlabAllocation sa \<notin> carved sa" by (simp add: carved_def)
  show "slabIdx sb = slabIdx sa" by (simp add: sb_def slabIdx_def fun_eq_iff)
  then show "header_of sb = header_of sa" by (simp add: header_of_def fun_eq_iff) (simp add: sb_def)
qed

lemma init_slab_inv:
  assumes "sa_geometry sa" and "distinct (sa_freeSlabs sa @ sa_advisedSlabs sa)"
    and "insert s used \<inter> (set (sa_freeSlabs sa) \<union> set (sa_advisedSlabs sa)) = {}"
    and "insert s used \<union> set (sa_freeSlabs sa) \<union> set (sa_advisedSlabs sa) = carved sa"
    and "sa_canAllocate sa \<or> sa_freeSlabs sa = [] \<and> allMemorySlabbed sa"
    and "\<And>t. t \<in> carved sa \<Longrightarrow> t \<noteq> s \<Longrightarrow> isAdvised (header_of sa t) = (t \<in> set (sa_advisedSlabs sa))"
  shows "sa_inv (initializeHeader s pid (add_poolSize pid n sa)) (insert s used)"
    and "header_of (initializeHeader s pid (add_poolSize pid n sa)) s = new_SlabHeader pid"
proof -
  have c: "s \<in> carved sa" using assms(4) by blast
  let ?sb = "add_poolSize pid n sa"
  have i: "initializeHeader s pid ?sb = upd_header (slabIdx ?sb s) (\<lambda>_. new_SlabHeader pid) ?sb"
    using c assms(1) by (intro initializeHeader_carved) simp_all
  have h: "header_of (upd_header (slabIdx ?sb s) (\<lambda>_. new_SlabHeader pid) ?sb) t =
             (if t = s then new_SlabHeader pid else header_of sa t)" if "t \<in> carved sa" for t
    using header_of_upd [of ?sb s t] that c assms(1) by simp
  show "header_of (initializeHeader s pid ?sb) s = new_SlabHeader pid"
    using h [OF c] by (simp only: i simp_thms if_True)
  show "sa_inv (initializeHeader s pid ?sb) (insert s used)"
    unfolding i sa_inv_def using assms h by auto
qed

lemma makeNewSlab_Some:
  assumes inv: "sa_inv sa used" and "makeNewSlab pid sa = (Some s, sa')"
  shows "sa_inv sa' (insert s used) \<and> s \<notin> used \<and> header_of sa' s = new_SlabHeader pid"
proof -
  note I = sa_invD [OF inv]
  have can: "sa_canAllocate sa" and out: "s \<notin> used"
    and s: "sa_freeSlabs sa \<noteq> [] \<and> s = last (sa_freeSlabs sa) \<and>
            sa' = initializeHeader s pid (add_poolSize pid sizeof_Slab (sa\<lparr>sa_freeSlabs := butlast (sa_freeSlabs sa)\<rparr>)) \<or>
       sa_freeSlabs sa = [] \<and> \<not> allMemorySlabbed sa \<and> s = sa_nextSlabAllocation sa \<and>
            sa' = initializeHeader s pid (add_poolSize pid sizeof_Slab (sa\<lparr>sa_nextSlabAllocation := s + kSize\<rparr>))"
    using assms(2) I(5,6) carve_next(3) [OF I(1)]
    by (auto simp: makeNewSlab_def makeNewSlabImpl_def split: if_splits)
  from s show ?thesis
  proof (elim disjE conjE)
    assume ne: "sa_freeSlabs sa \<noteq> []" and last: "s = last (sa_freeSlabs sa)"
      and sa': "sa' = initializeHeader s pid (add_poolSize pid sizeof_Slab (sa\<lparr>sa_freeSlabs := butlast (sa_freeSlabs sa)\<rparr>))"
    then have fs: "sa_freeSlabs sa = butlast (sa_freeSlabs sa) @ [s]" by simp
    define fs where "fs = butlast (sa_freeSlabs sa)"
    have F: "distinct (fs @ [s])" "set (sa_freeSlabs sa) = insert s (set fs)"
      using I(2) fs by (metis fs_def, metis Un_insert_right fs_def list.set(2) set_append sup_bot_right empty_set)
    let ?sb = "sa\<lparr>sa_freeSlabs := fs\<rparr>"
    have "sa_inv (initializeHeader s pid (add_poolSize pid sizeof_Slab ?sb)) (insert s used)"
      "header_of (initializeHeader s pid (add_poolSize pid sizeof_Slab ?sb)) s = new_SlabHeader pid"
      by (rule init_slab_inv; use I F can out in auto)+
    then show ?thesis using out by (simp add: sa' fs_def)
  next
    assume e: "sa_freeSlabs sa = []" "\<not> allMemorySlabbed sa" and nxt: "s = sa_nextSlabAllocation sa"
      and sa': "sa' = initializeHeader s pid (add_poolSize pid sizeof_Slab (sa\<lparr>sa_nextSlabAllocation := s + kSize\<rparr>))"
    note C = carve_next [OF I(1) e(2), folded nxt]
    let ?sb = "sa\<lparr>sa_nextSlabAllocation := s + kSize\<rparr>"
    have "sa_inv (initializeHeader s pid (add_poolSize pid sizeof_Slab ?sb)) (insert s used)"
      "header_of (initializeHeader s pid (add_poolSize pid sizeof_Slab ?sb)) s = new_SlabHeader pid"
      by (rule init_slab_inv; use I C e(1) can out in auto)+
    then show ?thesis using out by (simp add: sa')
  qed
qed

lemma makeNewSlab_None:
  assumes "sa_inv sa used" and "makeNewSlab pid sa = (None, sa')"
  shows "sa_inv sa' used \<and> sa_freeSlabs sa = [] \<and> allMemorySlabbed sa"
  using sa_invD [OF assms(1)] assms
  by (auto simp: makeNewSlab_def makeNewSlabImpl_def sa_inv_def split: if_splits prod.splits option.splits)

lemma freeSlab_inv:
  assumes "sa_inv sa used" and "s \<in> used"
  shows "\<exists>sa'. freeSlab s sa = Inr sa' \<and> sa_inv sa' (used - {s}) \<and>
           sa_freeSlabs sa' = sa_freeSlabs sa @ [s] \<and> header_of sa' s = resetAllocInfo (header_of sa s)"
proof -
  note I = sa_invD [OF assms(1)]
  have c: "s \<in> carved sa" using I(6) assms(2) by blast
  let ?sb = "(add_poolSize (poolId (header_of sa s)) (- sizeof_Slab) sa)
               \<lparr>sa_freeSlabs := sa_freeSlabs sa @ [s], sa_canAllocate := True\<rparr>"
  let ?sc = "upd_header (slabIdx ?sb s) resetAllocInfo ?sb"
  have f: "freeSlab s sa = Inr ?sc"
    using c I(1) by (simp add: freeSlab_def header_lookup Let_def header_of_def)
  have h: "header_of ?sc t = (if t = s then resetAllocInfo (header_of sa s) else header_of sa t)"
    if "t \<in> carved sa" for t
    using header_of_upd [of ?sb s t] that c I(1) by simp
  have "sa_inv ?sc (used - {s})"
    unfolding sa_inv_def using I assms(2) c h by auto
  then show ?thesis using f h [OF c] by auto
qed

lemma adviseSlab_inv:
  assumes "sa_inv sa used" and "s \<in> used"
  shows "\<exists>ok' sa'. adviseSlab ok s sa = Inr (ok', sa') \<and> ok' = (ok \<or> sa_pretendMadvise sa) \<and>
           sa_inv sa' (if ok' then used - {s} else used) \<and>
           sa_advisedSlabs sa' = sa_advisedSlabs sa @ (if ok' then [s] else []) \<and>
           sa_memoryPoolSize sa' = sa_memoryPoolSize sa"
proof -
  note I = sa_invD [OF assms(1)]
  have c: "s \<in> carved sa" using I(6) assms(2) by blast
  let ?sb = "upd_header (slabIdx sa s) (setAdvised True) sa"
  let ?sc = "?sb\<lparr>sa_advisedSlabs := sa_advisedSlabs sa @ [s]\<rparr>"
  have b: "header_of ?sb t = (if t = s then setAdvised True (header_of sa s) else header_of sa t)"
    if "t \<in> carved sa" for t using that c I(1) by (simp add: header_of_upd)
  have yes: "header_of (upd_header (slabIdx ?sc s) resetAllocInfo ?sc) t =
      (if t = s then resetAllocInfo (setAdvised True (header_of sa s)) else header_of sa t)"
    if "t \<in> carved sa" for t
    using header_of_upd [of ?sc s t resetAllocInfo] that c I(1) b by simp
  have no: "header_of (upd_header (slabIdx ?sb s) (setAdvised False) ?sb) t =
      (if t = s then setAdvised False (setAdvised True (header_of sa s)) else header_of sa t)"
    if "t \<in> carved sa" for t
    using header_of_upd [of ?sb s t "setAdvised False"] that c I(1) b by simp
  have "sa_inv (upd_header (slabIdx ?sc s) resetAllocInfo ?sc) (used - {s})"
    unfolding sa_inv_def using I assms(2) c yes by auto
  moreover have "sa_inv (upd_header (slabIdx ?sb s) (setAdvised False) ?sb) used"
    unfolding sa_inv_def using I assms(2) c no by auto
  ultimately show ?thesis
    using c I(1) by (simp add: adviseSlab_def header_lookup Let_def)
qed

lemma reclaimSlab_Some:
  assumes "sa_inv sa used" and "reclaimSlab pid sa = (Some s, sa')"
  shows "sa_inv sa' (insert s used) \<and> s \<notin> used \<and> header_of sa' s = new_SlabHeader pid \<and>
         sa_advisedSlabs sa = s # sa_advisedSlabs sa'"
proof -
  note I = sa_invD [OF assms(1)]
  obtain rest where r: "sa_advisedSlabs sa = s # rest"
    and sa': "sa' = initializeHeader s pid (add_poolSize pid sizeof_Slab (sa\<lparr>sa_advisedSlabs := rest\<rparr>))"
    using assms(2) by (auto simp: reclaimSlab_def split: list.splits)
  let ?sb = "sa\<lparr>sa_advisedSlabs := rest\<rparr>"
  have "sa_inv (initializeHeader s pid (add_poolSize pid sizeof_Slab ?sb)) (insert s used)"
    "header_of (initializeHeader s pid (add_poolSize pid sizeof_Slab ?sb)) s = new_SlabHeader pid"
    by (rule init_slab_inv; use I r in auto)+
  moreover have "sa_advisedSlabs sa' = rest"
    by (simp add: sa' initializeHeader_def split: option.splits)
  ultimately show ?thesis using I(5) r by (auto simp: sa')
qed

lemma sa_step_inv: "sa_step (sa, used) (sa', used') \<Longrightarrow> sa_inv sa used \<Longrightarrow> sa_inv sa' used'"
proof (induction "(sa, used)" "(sa', used')" rule: sa_step.induct)
  case (make pid s)
  then show ?case using makeNewSlab_Some by blast
next
  case (make_null pid)
  then show ?case using makeNewSlab_None by blast
next
  case (free s)
  then show ?case using freeSlab_inv [of sa used s] by auto
next
  case (advise s ok)
  then show ?case using adviseSlab_inv [of sa used s ok] by auto
next
  case (advise_fail s ok)
  then show ?case using adviseSlab_inv [of sa used s ok] by auto
next
  case (reclaim pid s)
  then show ?case using reclaimSlab_Some by blast
next
  case (reclaim_null pid)
  then show ?case by (simp add: reclaimSlab_def split: list.splits)
next
  case (header s f)
  note I = sa_invD [OF header.prems]
  have "s \<in> carved sa" using I(6) header.hyps by blast
  then show ?case using I header.hyps unfolding sa_inv_def by (auto simp: header_of_upd split: if_splits)
qed

section \<open>A new allocator\<close>

lemma roundDownToSlabSize_unat: "unat (roundDownToSlabSize sz) = unat sz div kSize * kSize"
proof -
  have "sz mod sizeof_Slab \<le> sz" by (simp add: word_le_nat_alt unat_mod)
  then have "unat (roundDownToSlabSize sz) = unat sz - unat sz mod kSize"
    by (simp add: roundDownToSlabSize_def unat_sub unat_mod)
  then show ?thesis by (simp add: minus_mod_eq_div_mult)
qed

text \<open>Two slabs are enough: one for the headers, one to hand out.\<close>

lemma header_slabs_less: "(7 * n + kSize - 1) div kSize < n \<longleftrightarrow> 2 \<le> n"
proof -
  have k: "kSize = 4194304" by (simp add: kSize_def kNumSlabBits_def)
  show ?thesis unfolding k by linarith
qed

lemma SlabAllocator_new_iff:
  assumes "unat sz < 2 ^ 54 - kSize" and "m + unat sz < 2 ^ 64"
  shows "SlabAllocator_new m sz own cfg ok hdrs = Inr sa \<longleftrightarrow>
           0 < m \<and> kSize dvd m \<and> 2 \<le> unat sz div kSize \<and> (excludeFromCoredump cfg \<longrightarrow> ok) \<and>
           (let n = unat sz div kSize; start = m + (7 * n + kSize - 1) div kSize * kSize in
            sa = \<lparr>sa_memoryPoolSize = (\<lambda>_. 0), sa_freeSlabs = [], sa_advisedSlabs = [], sa_memoryStart = m,
                  sa_memorySize = roundDownToSlabSize sz, sa_slabMemoryStart = start,
                  sa_nextSlabAllocation = start, sa_canAllocate = True, sa_ownsMemory = own,
                  sa_pretendMadvise = False, sa_headers = hdrs\<rparr>)"
proof -
  let ?n = "unat sz div kSize" and ?m = "roundDownToSlabSize sz"
  let ?h = "(7 * ?n + kSize - 1) div kSize"
  have u: "unat ?m = ?n * kSize" by (rule roundDownToSlabSize_unat)
  have le: "?n * kSize \<le> unat sz" by simp
  then have b: "unat ?m < 2 ^ 54" using assms(1) u by linarith
  have N: "unat (numSlabs ?m) = ?n" "unat (numSlabsForHeaders ?m) = ?h"
    using numSlabs_unat [OF b] numSlabsForHeaders_unat [OF b] by (simp_all add: u)
  have c: "numSlabs ?m \<le> numSlabsForHeaders ?m \<longleftrightarrow> \<not> 2 \<le> ?n"
    using header_slabs_less [of ?n] by (auto simp: word_le_nat_alt N)
  have big: "\<not> ?m \<le> sizeof_Slab" if "2 \<le> ?n"
    using that by (simp add: word_le_nat_alt u)
  have comp: "computeSlabMemoryStart m ?m =
      (if 2 \<le> ?n \<and> 0 < m \<and> kSize dvd m then Inr (m + ?h * kSize) else Inl invalid_argument)"
    by (simp add: computeSlabMemoryStart_def c N dvd_eq_mod_eq_0)
  have hn: "?h * kSize \<le> ?n * kSize" if "2 \<le> ?n"
    using that header_slabs_less [of ?n] by simp
  show ?thesis
  proof (cases "2 \<le> ?n \<and> 0 < m \<and> kSize dvd m")
    case True
    then show ?thesis using hn big
      by (simp add: SlabAllocator_new_def Let_def comp checkState_def getSlabMemoryEnd_def u
          excludeMemoryFromCoredump_def) fast
  next
    case False
    then show ?thesis by (auto simp add: SlabAllocator_new_def Let_def comp)
  qed
qed

lemma new_inv:
  assumes "SlabAllocator_new m sz own cfg ok hdrs = Inr sa" and "unat sz < 2 ^ 54 - kSize" and "m + unat sz < 2 ^ 64"
  shows "sa_inv sa {}"
proof -
  let ?n = "unat sz div kSize"
  have new: "0 < m" "kSize dvd m" "2 \<le> ?n" and
    sa: "sa = \<lparr>sa_memoryPoolSize = (\<lambda>_. 0), sa_freeSlabs = [], sa_advisedSlabs = [], sa_memoryStart = m,
                  sa_memorySize = roundDownToSlabSize sz, sa_slabMemoryStart = m + (7 * ?n + kSize - 1) div kSize * kSize,
                  sa_nextSlabAllocation = m + (7 * ?n + kSize - 1) div kSize * kSize, sa_canAllocate = True, sa_ownsMemory = own,
                  sa_pretendMadvise = False, sa_headers = hdrs\<rparr>"
    using assms(1) by (auto simp: SlabAllocator_new_iff [OF assms(2,3)] Let_def)
  have u: "unat (roundDownToSlabSize sz) = ?n * kSize" by (rule roundDownToSlabSize_unat)
  have le: "?n * kSize \<le> unat sz" by simp
  then have b: "unat (roundDownToSlabSize sz) < 2 ^ 54" using assms(2) u by linarith
  have h: "(7 * ?n + kSize - 1) div kSize < ?n" using new(3) header_slabs_less by blast
  then have hk: "(7 * ?n + kSize - 1) div kSize * kSize \<le> ?n * kSize" by simp
  have "numSlabsForHeaders (roundDownToSlabSize sz) < numSlabs (roundDownToSlabSize sz)"
    using h by (simp add: word_less_nat_alt numSlabs_unat [OF b] numSlabsForHeaders_unat [OF b] u)
  then have "sa_geometry sa"
    using new hk le_less_trans [OF le assms(2)] le_less_trans [OF add_left_mono [OF le] assms(3)]
    by (simp add: sa_geometry_def sa getSlabMemoryEnd_def u numSlabsForHeaders_unat [OF b])
  moreover have "carved sa = {}" by (auto simp: carved_def sa)
  ultimately show ?thesis by (simp add: sa_inv_def) (simp add: sa)
qed

inductive sa_reachable :: "SlabAllocator \<times> addr set \<Rightarrow> bool" where
  start: "SlabAllocator_new m sz own cfg ok hdrs = Inr sa \<Longrightarrow> unat sz < 2 ^ 54 - kSize \<Longrightarrow>
     m + unat sz < 2 ^ 64 \<Longrightarrow> sa_reachable (sa, {})"
| step: "sa_reachable x \<Longrightarrow> sa_step x y \<Longrightarrow> sa_reachable y"

lemma sa_reachable_inv: "sa_reachable x \<Longrightarrow> sa_inv (fst x) (snd x)"
proof (induction rule: sa_reachable.induct)
  case (start m sz own cfg ok hdrs sa)
  then show ?case using new_inv by simp
next
  case (step x y)
  then show ?case using sa_step_inv by (metis prod.collapse)
qed

lemma carved_image:
  assumes "sa_geometry sa"
  shows "carved sa = (\<lambda>i. sa_slabMemoryStart sa + i * kSize) ` {..<(sa_nextSlabAllocation sa - sa_slabMemoryStart sa) div kSize}"
proof (intro equalityI subsetI)
  fix s assume s: "s \<in> carved sa"
  have "(s - sa_slabMemoryStart sa) div kSize < (sa_nextSlabAllocation sa - sa_slabMemoryStart sa) div kSize"
    using s assms geometry_start(1) [OF assms]
    by (auto simp: carved_def sa_geometry_def intro!: div_less_mono)
  then show "s \<in> (\<lambda>i. sa_slabMemoryStart sa + i * kSize) ` {..<(sa_nextSlabAllocation sa - sa_slabMemoryStart sa) div kSize}"
    using slab_index(1,2) [OF assms, of s] s by (intro image_eqI) auto
next
  fix s assume "s \<in> (\<lambda>i. sa_slabMemoryStart sa + i * kSize) ` {..<(sa_nextSlabAllocation sa - sa_slabMemoryStart sa) div kSize}"
  then obtain i where s: "s = sa_slabMemoryStart sa + i * kSize"
    and "i < (sa_nextSlabAllocation sa - sa_slabMemoryStart sa) div kSize" by auto
  then have "(i + 1) * kSize \<le> sa_nextSlabAllocation sa - sa_slabMemoryStart sa"
    by (metis Suc_eq_plus1 Suc_leI div_times_less_eq_dividend mult_le_mono1 order_trans)
  then have "i * kSize + kSize \<le> sa_nextSlabAllocation sa - sa_slabMemoryStart sa" by simp
  then have "sa_slabMemoryStart sa + i * kSize < sa_nextSlabAllocation sa" using kSize_pos by linarith
  then show "s \<in> carved sa"
    using geometry_start(1) [OF assms] by (simp add: carved_def s)
qed

lemma card_carved:
  "sa_geometry sa \<Longrightarrow> card (carved sa) = (sa_nextSlabAllocation sa - sa_slabMemoryStart sa) div kSize"
  unfolding carved_image by (subst card_image) (auto intro!: inj_onI)

lemma headers_fit:
  assumes "sa_geometry sa"
  shows "sa_memoryStart sa + 7 * unat (numSlabs (sa_memorySize sa)) \<le> sa_slabMemoryStart sa"
proof -
  let ?n = "unat (sa_memorySize sa) div kSize"
  have "unat (sa_memorySize sa) < 2 ^ 54 - kSize" using assms by (simp add: sa_geometry_def)
  then have b: "unat (sa_memorySize sa) < 2 ^ 54" by linarith
  have "7 * ?n \<le> (7 * ?n + kSize - 1) div kSize * kSize"
  proof -
    have "7 * ?n + kSize - 1 = (7 * ?n + kSize - 1) div kSize * kSize + (7 * ?n + kSize - 1) mod kSize"
      by simp
    moreover have "(7 * ?n + kSize - 1) mod kSize \<le> kSize - 1" using mod_less_divisor [OF kSize_pos, of "7 * ?n + kSize - 1"] by linarith
    ultimately show ?thesis using kSize_pos by linarith
  qed
  then show ?thesis
    using assms by (simp add: sa_geometry_def numSlabs_unat [OF b] numSlabsForHeaders_unat [OF b])
qed

text \<open>
  C8. In every reachable state of the slab allocator the slabs cut out of its memory are
  partitioned into those handed out, the free list and the advised list: no slab is in two
  of them or twice in one, none is lost. Slabs handed out are aligned, lie inside the
  memory, and never overlap the header array.
\<close>

theorem slabs_partitioned:
  assumes "sa_reachable (sa, used)"
  shows "distinct (sa_freeSlabs sa @ sa_advisedSlabs sa) \<and>
         used \<inter> set (sa_freeSlabs sa @ sa_advisedSlabs sa) = {} \<and>
         used \<union> set (sa_freeSlabs sa @ sa_advisedSlabs sa) = {s. isValidSlab sa s} \<and>
         (s \<in> used \<longrightarrow> kSize dvd s \<and> sa_memoryStart sa + 7 * unat (numSlabs (sa_memorySize sa)) \<le> s \<and>
            s + kSize \<le> sa_memoryStart sa + unat (sa_memorySize sa))"
proof -
  have inv: "sa_inv sa used" using sa_reachable_inv [OF assms] by simp
  note I = sa_invD [OF this]
  have "kSize dvd s \<and> sa_memoryStart sa + 7 * unat (numSlabs (sa_memorySize sa)) \<le> s \<and>
      s + kSize \<le> getSlabMemoryEnd sa" if "s \<in> carved sa"
    using that headers_fit [OF I(1)] next_multiple [of kSize s "sa_nextSlabAllocation sa"] I(1)
    by (auto simp: carved_def sa_geometry_def)
  then show ?thesis
    using I by (auto simp: valid_iff_carved getSlabMemoryEnd_def)
qed

text \<open>A concrete allocator of three slabs (one of them for headers), used by the examples.\<close>

definition example_sa :: SlabAllocator where
  "example_sa = \<lparr>sa_memoryPoolSize = (\<lambda>_. 0), sa_freeSlabs = [], sa_advisedSlabs = [], sa_memoryStart = kSize,
                  sa_memorySize = roundDownToSlabSize (3 * sizeof_Slab), sa_slabMemoryStart = 2 * kSize,
                  sa_nextSlabAllocation = 2 * kSize, sa_canAllocate = True, sa_ownsMemory = False,
                  sa_pretendMadvise = False, sa_headers = (\<lambda>_. new_SlabHeader 0)\<rparr>"

definition example_sa1 :: SlabAllocator where
  "example_sa1 = snd (makeNewSlab 5 example_sa)"

lemma unat_three_slabs: "unat (3 * sizeof_Slab) = 3 * kSize"
  by (simp add: sizeof_Slab_def kSize_def kNumSlabBits_def)

lemma example_sa_new:
  "SlabAllocator_new kSize (3 * sizeof_Slab) False \<lparr>excludeFromCoredump = False, lockMemory = False\<rparr>
     True (\<lambda>_. new_SlabHeader 0) = Inr example_sa"
proof (subst SlabAllocator_new_iff)
  show "unat (3 * sizeof_Slab) < 2 ^ 54 - kSize" and "kSize + unat (3 * sizeof_Slab) < 2 ^ 64"
    by (simp_all add: unat_three_slabs) (simp_all add: kSize_def kNumSlabBits_def)
  have "(7 * 3 + kSize - 1) div kSize = 1" by (simp add: kSize_def kNumSlabBits_def)
  then show "0 < kSize \<and> kSize dvd kSize \<and> 2 \<le> unat (3 * sizeof_Slab) div kSize \<and>
     (excludeFromCoredump \<lparr>excludeFromCoredump = False, lockMemory = False\<rparr> \<longrightarrow> True) \<and>
     (let n = unat (3 * sizeof_Slab) div kSize; start = kSize + (7 * n + kSize - 1) div kSize * kSize in
      example_sa = \<lparr>sa_memoryPoolSize = (\<lambda>_. 0), sa_freeSlabs = [], sa_advisedSlabs = [], sa_memoryStart = kSize,
                  sa_memorySize = roundDownToSlabSize (3 * sizeof_Slab), sa_slabMemoryStart = start,
                  sa_nextSlabAllocation = start, sa_canAllocate = True, sa_ownsMemory = False,
                  sa_pretendMadvise = False, sa_headers = (\<lambda>_. new_SlabHeader 0)\<rparr>)"
    by (simp add: unat_three_slabs example_sa_def)
qed

lemma example_sa_make: "makeNewSlab 5 example_sa = (Some (2 * kSize), example_sa1)"
proof -
  have "\<not> allMemorySlabbed example_sa"
    by (simp add: allMemorySlabbed_def getSlabMemoryEnd_def example_sa_def roundDownToSlabSize_unat unat_three_slabs)
  then have "fst (makeNewSlab 5 example_sa) = Some (2 * kSize)"
    by (simp add: makeNewSlab_def makeNewSlabImpl_def example_sa_def)
  then show ?thesis by (simp add: example_sa1_def prod_eq_iff)
qed

lemma example_reachable:
  "sa_reachable (example_sa, {})" "sa_reachable (example_sa1, {2 * kSize})"
proof -
  show "sa_reachable (example_sa, {})"
    by (rule sa_reachable.start [OF example_sa_new])
       (simp_all add: unat_three_slabs, simp_all add: kSize_def kNumSlabBits_def)
  then show "sa_reachable (example_sa1, {2 * kSize})"
    by (rule sa_reachable.step) (rule sa_step.make [OF example_sa_make])
qed

theorem slabs_partitioned_witness:
  "sa_reachable (example_sa1, {2 * kSize}) \<and>
   {2 * kSize} \<inter> set (sa_freeSlabs example_sa1 @ sa_advisedSlabs example_sa1) = {} \<and>
   2 * kSize + kSize \<le> sa_memoryStart example_sa1 + unat (sa_memorySize example_sa1)"
  using slabs_partitioned [OF example_reachable(2), of "2 * kSize"] example_reachable(2) by simp

lemma slab_count:
  assumes inv: "sa_inv sa used"
  shows "card used + length (sa_freeSlabs sa) + length (sa_advisedSlabs sa) \<le> unat (getNumUsableAndAdvisedSlabs sa)"
    and "card used + length (sa_freeSlabs sa) + length (sa_advisedSlabs sa) = unat (getNumUsableAndAdvisedSlabs sa)
           \<longleftrightarrow> allMemorySlabbed sa"
proof -
  note I = sa_invD [OF inv]
  let ?nxt = "sa_nextSlabAllocation sa" and ?start = "sa_slabMemoryStart sa" and ?fin = "getSlabMemoryEnd sa"
  have "finite (carved sa)" by (simp add: carved_image [OF I(1)])
  then have "card (carved sa) = card used + card (set (sa_freeSlabs sa) \<union> set (sa_advisedSlabs sa))"
    using I(5) unfolding I(6) Un_assoc by (intro card_Un_disjoint) auto
  also have "card (set (sa_freeSlabs sa) \<union> set (sa_advisedSlabs sa)) = length (sa_freeSlabs sa) + length (sa_advisedSlabs sa)"
    using I(2,3,4) by (simp add: card_Un_disjoint distinct_card)
  finally have cnt: "card used + length (sa_freeSlabs sa) + length (sa_advisedSlabs sa) = (?nxt - ?start) div kSize"
    by (simp add: card_carved [OF I(1)])
  have tot: "unat (getNumUsableAndAdvisedSlabs sa) = (?fin - ?start) div kSize"
    using geometry_start(5) [OF I(1)]
    by (simp add: getNumUsableAndAdvisedSlabs_def unsigned_of_nat take_bit_nat_eq_self)
  show "card used + length (sa_freeSlabs sa) + length (sa_advisedSlabs sa) \<le> unat (getNumUsableAndAdvisedSlabs sa)"
    unfolding cnt tot using I(1) by (intro div_le_mono diff_le_mono) (simp add: sa_geometry_def)
  have "(?nxt - ?start) div kSize \<noteq> (?fin - ?start) div kSize" if "\<not> allMemorySlabbed sa"
    using that I(1) geometry_start(1,4) [OF I(1)]
    by (intro less_imp_neq) (auto simp: sa_geometry_def allMemorySlabbed_def intro!: div_less_mono)
  then show "card used + length (sa_freeSlabs sa) + length (sa_advisedSlabs sa) = unat (getNumUsableAndAdvisedSlabs sa)
      \<longleftrightarrow> allMemorySlabbed sa"
    unfolding cnt tot by (cases "allMemorySlabbed sa") (simp_all add: allMemorySlabbed_def)
qed

text \<open>
  C23. \<open>makeNewSlab\<close> succeeds whenever there is a slab to give: it returns \<open>nullptr\<close> exactly
  when every usable slab is handed out or advised away (the lock-free early return on
  \<open>canAllocate_\<close> never hides a free slab), and a slab it returns was not handed out, has a
  fresh header naming the pool, and is added to the pool's accounted size.
\<close>

theorem makeNewSlab_complete:
  assumes "sa_reachable (sa, used)"
  shows "case makeNewSlab pid sa of
           (Some s, sa') \<Rightarrow> s \<notin> used \<and> sa_reachable (sa', insert s used) \<and> header_of sa' s = new_SlabHeader pid
             \<and> sa_memoryPoolSize sa' = (sa_memoryPoolSize sa)(pid := sa_memoryPoolSize sa pid + sizeof_Slab)
             \<and> card used + length (sa_advisedSlabs sa) < unat (getNumUsableAndAdvisedSlabs sa)
         | (None, sa') \<Rightarrow> sa_reachable (sa', used)
             \<and> card used + length (sa_advisedSlabs sa) = unat (getNumUsableAndAdvisedSlabs sa)"
proof (cases "makeNewSlab pid sa")
  case (Pair r sa')
  have inv: "sa_inv sa used" using sa_reachable_inv [OF assms] by simp
  note count = slab_count [OF inv]
  show ?thesis
  proof (cases r)
    case None
    have "sa_freeSlabs sa = []" "allMemorySlabbed sa"
      using makeNewSlab_None [OF inv] Pair None by blast+
    then show ?thesis using Pair None count(2) assms
      by (auto intro: sa_reachable.step sa_step.make_null)
  next
    case (Some s)
    have "sa_freeSlabs sa \<noteq> [] \<or> \<not> allMemorySlabbed sa"
      using Pair Some by (auto simp: makeNewSlab_def makeNewSlabImpl_def split: if_splits)
    then have "card used + length (sa_advisedSlabs sa) < unat (getNumUsableAndAdvisedSlabs sa)"
      using count by (cases "sa_freeSlabs sa") auto
    moreover have "sa_memoryPoolSize sa' = (sa_memoryPoolSize sa)(pid := sa_memoryPoolSize sa pid + sizeof_Slab)"
      using Pair Some by (auto simp: makeNewSlab_def makeNewSlabImpl_def initializeHeader_def
          split: if_splits option.splits)
    ultimately show ?thesis
      using Pair Some makeNewSlab_Some [OF inv, of pid s sa'] assms
      by (auto intro: sa_reachable.step sa_step.make)
  qed
qed

theorem makeNewSlab_complete_witness:
  "sa_reachable (example_sa, {}) \<and> 2 * kSize \<notin> {} \<and> header_of example_sa1 (2 * kSize) = new_SlabHeader 5"
  using makeNewSlab_complete [OF example_reachable(1), of 5] example_reachable(1)
  by (simp add: example_sa_make)

section \<open>Pointer compression\<close>

text \<open>The address of an allocation of a slab that has an allocation size.\<close>

definition is_alloc :: "SlabAllocator \<Rightarrow> addr \<Rightarrow> bool" where
  "is_alloc sa p \<longleftrightarrow>
     (let slab = getSlabForMemory p; a = unat (allocSize (header_of sa slab))
      in isValidSlab sa slab \<and> slab \<le> p \<and> unat getMinAllocSize \<le> a \<and> a dvd p - slab \<and> p - slab + a \<le> kSize)"

definition valid_allocs :: "'c CompressedPtrType \<Rightarrow> SlabAllocator \<Rightarrow> addr set" where
  "valid_allocs ct sa =
     {p. sa_geometry sa \<and> sa_memorySize sa \<le> ct_getMaxAddressableSize ct \<and> is_alloc sa p}"

text \<open>
  The memory for headers takes at least one slab, so in memory of the largest addressable
  size the highest slab index, the one the null pattern uses, never occurs.
\<close>

lemma slab_index_bound:
  assumes g: "sa_geometry sa" and "s \<in> carved sa" and sz: "unat (sa_memorySize sa) \<le> 2 ^ (b + kNumSlabBits)"
  shows "unat (slabIdx sa s) < 2 ^ b - 1"
proof -
  let ?n = "unat (sa_memorySize sa) div kSize" and ?h = "unat (numSlabsForHeaders (sa_memorySize sa))"
  have "unat (sa_memorySize sa) < 2 ^ 54 - kSize" using g by (simp add: sa_geometry_def)
  then have b54: "unat (sa_memorySize sa) < 2 ^ 54" by linarith
  have h: "?h < ?n" using g by (simp add: sa_geometry_def word_less_nat_alt numSlabs_unat [OF b54])
  have "1 \<le> (7 * ?n + kSize - 1) div kSize"
    using div_le_mono [of kSize "7 * ?n + kSize - 1" kSize] h by simp
  then have h1: "1 \<le> ?h" by (simp only: numSlabsForHeaders_unat [OF b54])
  have "?n \<le> 2 ^ b"
    using div_le_mono [OF sz, of kSize] by (simp add: kSize_def power_add)
  moreover have "(s - sa_slabMemoryStart sa) div kSize < ?n - ?h"
  proof (rule less_mult_imp_div_less)
    have e: "getSlabMemoryEnd sa = sa_memoryStart sa + ?n * kSize"
      using g by (simp add: getSlabMemoryEnd_def sa_geometry_def)
    have "s < sa_nextSlabAllocation sa" "sa_nextSlabAllocation sa \<le> getSlabMemoryEnd sa"
      using assms(2) g by (simp_all add: carved_def sa_geometry_def)
    then have "s < sa_memoryStart sa + ?n * kSize" by (simp only: e)
    moreover have "sa_slabMemoryStart sa \<le> s" "sa_slabMemoryStart sa = sa_memoryStart sa + ?h * kSize"
      using assms(2) g by (simp_all add: carved_def sa_geometry_def)
    ultimately show "s - sa_slabMemoryStart sa < (?n - ?h) * kSize" by (simp add: diff_mult_distrib)
  qed
  ultimately show ?thesis using slab_index(1) [OF g, of s] assms(2) h h1 by simp
qed

lemma is_allocE:
  assumes "sa_geometry sa" and "is_alloc sa p"
  obtains s a k where "s \<in> carved sa" "getSlabForMemory p = s" "a = unat (allocSize (header_of sa s))"
    "p = s + a * k" "64 \<le> a" "a * k + a \<le> kSize" "k < 2 ^ 16"
proof -
  let ?s = "getSlabForMemory p"
  let ?a = "unat (allocSize (header_of sa ?s))"
  have min: "unat getMinAllocSize = 64" by (simp add: getMinAllocSize_def kMinAllocPower_def push_bit_of_1)
  have "?s \<in> carved sa \<and> ?s \<le> p \<and> 64 \<le> ?a \<and> ?a dvd p - ?s \<and> p - ?s + ?a \<le> kSize"
    using assms(2) by (simp only: is_alloc_def Let_def valid_iff_carved [OF assms(1)] min)
  then have *: "?s \<in> carved sa" "?s \<le> p" "64 \<le> ?a" "?a dvd p - ?s" "p - ?s + ?a \<le> kSize" by blast+
  then obtain k where k: "p - ?s = ?a * k" by (auto elim: dvdE)
  have le: "?a * k + ?a \<le> kSize" using * k by simp
  have "64 * (k + 1) \<le> ?a * (k + 1)" using *(3) by (rule mult_le_mono1)
  also have "\<dots> \<le> 2 ^ 22" using le by (simp add: kSize_def kNumSlabBits_def)
  finally have "k < 2 ^ 16" by simp
  with * k le show ?thesis by (intro that [of ?s ?a k]) simp_all
qed

context pointer_format
begin

lemma compress_unCompress:
  assumes g: "sa_geometry sa" and sz: "sa_memorySize sa \<le> ct_getMaxAddressableSize ct" and p: "is_alloc sa p"
  shows "\<exists>c. compress ct sa False (Some p) = Inr c \<and> \<not> ct_isNull ct c \<and>
             unCompress ndebug ct sa False c = Inr (Some p)"
proof -
  obtain s a k where s: "s \<in> carved sa" "getSlabForMemory p = s" and a: "a = unat (allocSize (header_of sa s))"
    and pk: "p = s + a * k" "64 \<le> a" "a * k + a \<le> kSize" "k < 2 ^ 16"
    using is_allocE [OF g p] by metis
  note X = slab_index [OF g disjI1 [OF s(1)]]
  have bound: "unat (slabIdx sa s) < 2 ^ ct_numSlabIdxBits ct False - 1"
    using sz by (intro slab_index_bound [OF g s(1)]) (simp add: word_le_nat_alt max_size)
  have off: "a * k < kSize" using pk by linarith
  have u: "unat (of_nat (a * k) :: u32) = a * k"
    using off by (simp add: unsigned_of_nat take_bit_nat_eq_self kSize_def kNumSlabBits_def del: of_nat_mult)
  have idx: "of_nat (p - s) div allocSize (header_of sa s) = (of_nat k :: u32)"
  proof (rule word_unat_eq_iff [THEN iffD2])
    have "unat (of_nat (p - s) div allocSize (header_of sa s)) = (a * k) div a"
      using pk(1) u by (simp only: unat_div a diff_add_inverse)
    then show "unat (of_nat (p - s) div allocSize (header_of sa s)) = unat (of_nat k :: u32)"
      using pk by (simp add: unsigned_of_nat take_bit_nat_eq_self)
  qed
  have k16: "of_nat k \<le> kAllocIdxMask" using pk(4) by (simp add: mask16_le unsigned_of_nat take_bit_nat_eq_self)
  let ?c = "ct_make ct (slabIdx sa s) (of_nat k) False"
  have "unat (allocSize (header_of sa s) * of_nat k) = a * k"
    using off pk(4) by (simp add: unat_word_ariths a unsigned_of_nat take_bit_nat_eq_self kSize_def kNumSlabBits_def)
  moreover have "isValidSlab sa s" using s(1) by (simp add: valid_iff_carved [OF g])
  moreover have "compress ct sa False (Some p) = Inr ?c"
    using s \<open>isValidSlab sa s\<close> idx X(5) by (simp add: compress_def Let_def header_of_def)
  ultimately show ?thesis
    using make_not_null [OF k16 bound] slab_make [OF k16 bound] alloc_make [OF k16 bound] X(2) off pk(1)
    by (simp add: unCompress_def Let_def header_of_def memoryAtOffset_def)
qed

lemma compressor_laws:
  "ptr_compressor (createPtrCompressor ct sa False) (valid_allocs ct sa)"
proof
  show "pc_unCompress (createPtrCompressor ct sa False) (pc_compress (createPtrCompressor ct sa False) None) = None"
    by (simp add: createPtrCompressor_def compress_def unCompress_def null_isNull)
  fix p assume "p \<in> valid_allocs ct sa"
  then show "pc_unCompress (createPtrCompressor ct sa False) (pc_compress (createPtrCompressor ct sa False) (Some p)) = Some p"
    using compress_unCompress [of sa p True] by (auto simp: valid_allocs_def createPtrCompressor_def)
qed

end

interpretation compressor4: ptr_compressor "createPtrCompressor cptr4 sa False" "valid_allocs cptr4 sa" for sa
  by (rule format4.compressor_laws)

interpretation compressor5: ptr_compressor "createPtrCompressor cptr5 sa False" "valid_allocs cptr5 sa" for sa
  by (rule format5.compressor_laws)

text \<open>
  C18. Pointer compression is a round trip: in every reachable state, the address of any
  allocation compresses to a non-null pointer that decompresses to the same address, in
  both pointer formats and in both builds, whenever the memory is within the largest
  addressable size of the format. In particular no allocation collides with null.
\<close>

theorem pointer_compression_roundtrip:
  assumes "sa_reachable (sa, used)" and "is_alloc sa p"
  shows "(sa_memorySize sa \<le> getMaxAddressableSize4 \<longrightarrow>
            (\<exists>c. compress cptr4 sa False (Some p) = Inr c \<and> \<not> isNull4 c \<and>
                 unCompress ndebug cptr4 sa False c = Inr (Some p))) \<and>
         (sa_memorySize sa \<le> getMaxAddressableSize5 \<longrightarrow>
            (\<exists>c. compress cptr5 sa False (Some p) = Inr c \<and> \<not> isNull5 c \<and>
                 unCompress ndebug cptr5 sa False c = Inr (Some p)))"
proof -
  have "sa_geometry sa" using sa_reachable_inv [OF assms(1)] by (simp add: sa_inv_def)
  then show ?thesis
    using format4.compress_unCompress [of sa p ndebug] format5.compress_unCompress [of sa p ndebug] assms(2)
    by (simp add: cptr4_def cptr5_def)
qed

definition example_sa2 :: SlabAllocator where
  "example_sa2 = upd_header (slabIdx example_sa1 (2 * kSize)) (\<lambda>h. h\<lparr>allocSize := 100\<rparr>) example_sa1"

lemma example_sa2_reachable: "sa_reachable (example_sa2, {2 * kSize})"
  unfolding example_sa2_def
  by (rule sa_reachable.step [OF example_reachable(2)], rule sa_step.header) simp_all

lemma example_sa1_memory: "sa_memorySize example_sa1 = roundDownToSlabSize (3 * sizeof_Slab)"
  "sa_slabMemoryStart example_sa1 = 2 * kSize" "sa_nextSlabAllocation example_sa1 = 3 * kSize"
  "sa_memoryStart example_sa1 = kSize"
proof -
  have e: "\<not> allMemorySlabbed example_sa"
    by (simp add: allMemorySlabbed_def getSlabMemoryEnd_def example_sa_def roundDownToSlabSize_unat unat_three_slabs)
  have c: "sa_canAllocate example_sa" "sa_freeSlabs example_sa = []" "sa_nextSlabAllocation example_sa = 2 * kSize"
    "sa_memorySize example_sa = roundDownToSlabSize (3 * sizeof_Slab)" "sa_slabMemoryStart example_sa = 2 * kSize"
    "sa_memoryStart example_sa = kSize"
    by (simp_all add: example_sa_def)
  show "sa_memorySize example_sa1 = roundDownToSlabSize (3 * sizeof_Slab)"
    "sa_slabMemoryStart example_sa1 = 2 * kSize" "sa_nextSlabAllocation example_sa1 = 3 * kSize"
    "sa_memoryStart example_sa1 = kSize"
    unfolding example_sa1_def makeNewSlab_def makeNewSlabImpl_def
    by (simp_all add: e c initializeHeader_def upd_header_def add_poolSize_def split: option.splits)
qed

lemma example_alloc: "k < 40000 \<Longrightarrow> is_alloc example_sa2 (2 * kSize + 100 * k)"
proof -
  assume "k < 40000"
  then have k: "100 * k + 100 \<le> kSize" by (simp add: kSize_def kNumSlabBits_def)
  have i: "sa_inv example_sa2 {2 * kSize}" using sa_reachable_inv [OF example_sa2_reachable] by simp
  note I = sa_invD [OF i]
  have c: "2 * kSize \<in> carved example_sa2" using I(6) by blast
  have c1: "2 * kSize \<in> carved example_sa1" and g1: "sa_geometry example_sa1"
    using sa_reachable_inv [OF example_reachable(2)] by (auto simp: sa_inv_def)
  have m: "getSlabForMemory (2 * kSize + 100 * k) = 2 * kSize"
    using slab_index_memory [OF I(1) c, of "100 * k"] k by simp
  have "allocSize (header_of example_sa2 (2 * kSize)) = 100"
    unfolding example_sa2_def using header_of_upd [OF g1 c1 c1] by simp
  then show ?thesis
    using c k by (simp add: is_alloc_def Let_def m valid_iff_carved [OF I(1)] getMinAllocSize_def kMinAllocPower_def push_bit_of_1)
qed

lemma example_valid_alloc: "k < 40000 \<Longrightarrow> 2 * kSize + 100 * k \<in> valid_allocs cptr4 example_sa2"
proof -
  assume "k < 40000"
  have "sa_memorySize example_sa2 = roundDownToSlabSize (3 * sizeof_Slab)"
    by (simp add: example_sa2_def upd_header_def example_sa1_memory)
  then have "sa_memorySize example_sa2 \<le> getMaxAddressableSize4"
    by (simp add: word_le_nat_alt roundDownToSlabSize_unat unat_three_slabs getMaxAddressableSize4_def ptr_layout
        push_bit_of_1) (simp add: kSize_def kNumSlabBits_def)
  moreover have "sa_geometry example_sa2"
    using sa_reachable_inv [OF example_sa2_reachable] by (simp add: sa_inv_def)
  ultimately show ?thesis
    using example_alloc [OF \<open>k < 40000\<close>] by (simp add: valid_allocs_def cptr4_def)
qed

theorem pointer_compression_roundtrip_witness:
  "\<exists>c. compress cptr4 example_sa2 False (Some (2 * kSize + 200)) = Inr c \<and> \<not> isNull4 c \<and>
       unCompress False cptr4 example_sa2 False c = Inr (Some (2 * kSize + 200))"
  using pointer_compression_roundtrip [OF example_sa2_reachable, of "2 * kSize + 200" False]
    example_alloc [of 2] example_valid_alloc [of 2]
  by (simp add: valid_allocs_def cptr4_def)

section \<open>Saving and restoring\<close>

lemma setAdvised_True_id: "isAdvised h \<Longrightarrow> setAdvised True h = h"
proof -
  assume "isAdvised h"
  then have "bit (flags h) 1"
    by (simp only: isAdvised_def SlabHeader_isFlagSet_def SlabHeaderFlag_bit.simps and_push_bit_1_iff not_not)
  then have "flags h OR push_bit 1 1 = flags h" by (intro bit_word_eqI) (auto simp: bit_simps)
  then show ?thesis by (simp add: setAdvised_def SlabHeader_setFlag_def)
qed

lemma restorePoolSizes_all:
  "restorePoolSizes (map (\<lambda>i. (of_nat i, f (of_nat i))) [a..<127]) sa =
     Inr (sa\<lparr>sa_memoryPoolSize := (\<lambda>pid. if a \<le> unat pid \<and> unat pid < 127 then f pid else sa_memoryPoolSize sa pid)\<rparr>)"
proof (induction "127 - a" arbitrary: a sa)
  case 0
  then have "(a \<le> unat pid \<and> unat pid < 127) = False" for pid :: PoolId by auto
  then show ?case using 0 by (simp only:) simp
next
  case (Suc n)
  then have a: "a < 127" by simp
  have s: "sint (of_nat a :: PoolId) = int a"
    using a by (simp add: signed_of_nat signed_take_bit_int_eq_self)
  have u: "unat (of_nat a :: PoolId) = a" using a by (simp add: unsigned_of_nat take_bit_nat_eq_self)
  have eq: "pid = of_nat a \<longleftrightarrow> unat pid = a" for pid :: PoolId by (metis u word_nat_cases word_unat_eq_iff)
  show ?case
    using a Suc.hyps(1) [of "Suc a"] Suc.hyps(2)
    by (simp add: upt_rec [of a] s kMaxPools_def)
       (auto simp: fun_eq_iff eq intro!: arg_cong [of _ _ "\<lambda>x. sa\<lparr>sa_memoryPoolSize := x\<rparr>"])
qed

lemma restoreAdvisedSlabs_all:
  assumes "\<And>i. i \<in> set is \<Longrightarrow> isAdvised (sa_headers sa i)"
  shows "restoreAdvisedSlabs is sa = sa\<lparr>sa_advisedSlabs := sa_advisedSlabs sa @ map (getSlabForIdx sa) is\<rparr>"
  using assms
proof (induction "is" arbitrary: sa)
  case Nil
  show ?case by simp
next
  case (Cons i "is")
  have "upd_header i (setAdvised True) sa = sa"
    using Cons.prems by (simp add: upd_header_def setAdvised_True_id)
  moreover have "getSlabForIdx (sa\<lparr>sa_advisedSlabs := l\<rparr>) = getSlabForIdx sa" for l
    by (simp add: fun_eq_iff getSlabForIdx_def)
  ultimately show ?case using Cons by simp
qed

lemma checkState_inv: "sa_inv sa used \<Longrightarrow> checkState sa = Inr ()"
proof -
  assume "sa_inv sa used"
  note I = sa_invD [OF this]
  note g = I(1)
  have "0 < unat (numSlabs (sa_memorySize sa))" using g by (auto simp: sa_geometry_def word_less_nat_alt)
  then have "sa_memoryStart sa < sa_slabMemoryStart sa" "sa_slabMemoryStart sa < getSlabMemoryEnd sa"
    using headers_fit [OF g] geometry_start(3) [OF g] by linarith+
  moreover have "kSize dvd sa_memoryStart sa" "kSize dvd sa_slabMemoryStart sa"
    using g geometry_start(1) [OF g] by (simp_all add: sa_geometry_def)
  ultimately have "sa_memoryStart sa + kSize < getSlabMemoryEnd sa"
    using next_multiple [of kSize "sa_memoryStart sa" "sa_slabMemoryStart sa"] by linarith
  then have big: "\<not> sa_memorySize sa \<le> sizeof_Slab" by (simp add: word_le_nat_alt getSlabMemoryEnd_def)
  show ?thesis
    using I(6) g geometry_start(2) [OF g] big
    by (auto simp: checkState_def valid_iff_carved list_all_iff sa_geometry_def)
qed

text \<open>
  C26. Saving the state of a slab allocator that does not own its memory and restoring it on
  the same memory gives back the same allocator: memory layout, free and advised slabs in
  order, headers, accounted pool sizes of all pools, and whether it can allocate. Saving
  one that owns its memory fails.
\<close>

theorem saveState_restore:
  assumes "sa_reachable (sa, used)" and "\<not> sa_pretendMadvise sa"
  shows "if sa_ownsMemory sa then saveState sa = Inl logic_error
         else \<exists>obj. saveState sa = Inr obj \<and>
           SlabAllocator_restore obj (sa_memoryStart sa) (sa_memorySize sa) cfg True (sa_headers sa) =
             Inr (sa\<lparr>sa_memoryPoolSize := (\<lambda>pid. if unat pid < kMaxPools then sa_memoryPoolSize sa pid else 0)\<rparr>)"
proof (cases "sa_ownsMemory sa")
  case True
  then show ?thesis by (simp add: saveState_def isRestorable_def)
next
  case False
  note I = sa_invD [OF sa_reachable_inv [OF assms(1), simplified]]
  note g = I(1)
  let ?sz = "sa_memorySize sa"
  have start: "computeSlabMemoryStart (sa_memoryStart sa) ?sz = Inr (sa_slabMemoryStart sa)"
    using g by (simp add: computeSlabMemoryStart_def Let_def sa_geometry_def not_le dvd_eq_mod_eq_0)
  have nxt: "getSlabForIdx sb (slabIdx sa s) = s"
    if "s \<in> carved sa \<or> s = sa_nextSlabAllocation sa" "sa_slabMemoryStart sb = sa_slabMemoryStart sa" for s sb
    using slab_index(3) [OF g that(1)] that(2) by (simp add: getSlabForIdx_def split: if_splits)
  have size: "roundDownToSlabSize ?sz = ?sz"
    using g by (intro word_unat_eq_iff [THEN iffD2]) (simp add: roundDownToSlabSize_unat sa_geometry_def)
  let ?sb = "sa\<lparr>sa_memoryPoolSize := (\<lambda>pid. if unat pid < kMaxPools then sa_memoryPoolSize sa pid else 0)\<rparr>"
  have same: "same_memory ?sb sa" by (simp add: same_memory_def)
  have "sa_inv ?sb used"
    using sa_reachable_inv [OF assms(1), simplified] same_memory_cong [OF same]
    by (simp add: sa_inv_def header_of_def)
  then have chk: "checkState ?sb = Inr ()" by (rule checkState_inv)
  have adv: "isAdvised (sa_headers sa (slabIdx sa s))" if "s \<in> set (sa_advisedSlabs sa)" for s
    using I(6,8) that by (auto simp: header_of_def)
  have m: "map (getSlabForIdx sb \<circ> slabIdx sa) (sa_freeSlabs sa) = sa_freeSlabs sa"
    "map (getSlabForIdx sb \<circ> slabIdx sa) (sa_advisedSlabs sa) = sa_advisedSlabs sa"
    if "sa_slabMemoryStart sb = sa_slabMemoryStart sa" for sb
    using that nxt I(6) by (auto intro!: map_idI)
  have adv_all: "restoreAdvisedSlabs (map (slabIdx sa) (sa_advisedSlabs sa)) sb =
      sb\<lparr>sa_advisedSlabs := sa_advisedSlabs sb @ map (getSlabForIdx sb \<circ> slabIdx sa) (sa_advisedSlabs sa)\<rparr>"
    if "sa_headers sb = sa_headers sa" for sb
    using restoreAdvisedSlabs_all [of "map (slabIdx sa) (sa_advisedSlabs sa)" sb] adv that by auto
  have lit: "\<lparr>sa_memoryPoolSize = f, sa_freeSlabs = sa_freeSlabs sa, sa_advisedSlabs = sa_advisedSlabs sa,
      sa_memoryStart = sa_memoryStart sa, sa_memorySize = ?sz, sa_slabMemoryStart = sa_slabMemoryStart sa,
      sa_nextSlabAllocation = sa_nextSlabAllocation sa, sa_canAllocate = sa_canAllocate sa, sa_ownsMemory = False,
      sa_pretendMadvise = False, sa_headers = sa_headers sa\<rparr> = sa\<lparr>sa_memoryPoolSize := f\<rparr>" for f
    using False assms(2) by (cases sa) simp
  show ?thesis
    using False start size chk
    by (simp add: saveState_def isRestorable_def SlabAllocator_restore_def Let_def kMaxPools_def
        restorePoolSizes_all adv_all nxt m lit excludeMemoryFromCoredump_def cong: if_cong)
qed

theorem saveState_restore_witness:
  "sa_reachable (example_sa, {}) \<and>
   (\<exists>obj. saveState example_sa = Inr obj \<and>
      SlabAllocator_restore obj kSize (sa_memorySize example_sa) \<lparr>excludeFromCoredump = True, lockMemory = False\<rparr> True
        (sa_headers example_sa) = Inr example_sa)"
  using saveState_restore [OF example_reachable(1), of "\<lparr>excludeFromCoredump = True, lockMemory = False\<rparr>"]
    example_reachable(1)
  by (simp add: example_sa_def cong: if_cong)

section \<open>The memory locker and the advised slabs\<close>

lemma lockMemory_pages_touched:
  "a \<in> set (fst (lockMemory_pages sa stop ps n i acc)) \<Longrightarrow>
   a \<in> set (fst acc) \<or> (case getSlabHeader_memory sa a of None \<Rightarrow> True | Some h \<Rightarrow> \<not> isAdvised (sa_headers sa h))"
proof (induction sa stop ps n i acc rule: lockMemory_pages.induct)
  case (1 sa stop ps n i touched away)
  show ?case
  proof (cases "i < n \<and> \<not> stop i")
    case False
    then have "lockMemory_pages sa stop ps n i (touched, away) = (touched, away)"
      by (simp only: lockMemory_pages.simps if_False)
    with "1.prems" show ?thesis by simp
  next
    case True
    then have "a \<in> set (fst (lockMemory_pages sa stop ps n (i + 1)
                (case getSlabHeader_memory sa (sa_memoryStart sa + i * ps) of
                   Some h \<Rightarrow> if isAdvised (sa_headers sa h) then (touched, away + 1)
                             else (touched @ [sa_memoryStart sa + i * ps], away)
                 | None \<Rightarrow> (touched @ [sa_memoryStart sa + i * ps], away))))"
      using "1.prems" by (subst (asm) lockMemory_pages.simps) (simp add: Let_def)
    from "1.IH" [OF True refl refl this] show ?thesis by (auto split: option.splits if_splits)
  qed
qed


lemma example_advise:
  "\<exists>sa. adviseSlab True (2 * kSize) example_sa1 = Inr (True, sa) \<and> sa_reachable (sa, {}) \<and>
        sa_advisedSlabs sa = [2 * kSize]"
proof -
  have i: "sa_inv example_sa1 {2 * kSize}" using sa_reachable_inv [OF example_reachable(2)] by simp
  have "sa_advisedSlabs example_sa1 = []"
    using example_sa_make by (auto simp: example_sa1_def makeNewSlab_def makeNewSlabImpl_def example_sa_def
        initializeHeader_def split: if_splits option.splits)
  then obtain sa where sa: "adviseSlab True (2 * kSize) example_sa1 = Inr (True, sa)" "sa_advisedSlabs sa = [2 * kSize]"
    using adviseSlab_inv [OF i, of "2 * kSize" True] by auto
  have "sa_reachable (sa, {2 * kSize} - {2 * kSize})"
    by (rule sa_reachable.step [OF example_reachable(2)]) (rule sa_step.advise [OF _ sa(1)], simp)
  then show ?thesis using sa by simp
qed


text \<open>
  C39. A slab that is advised away and then reclaimed by a pool is counted twice in the
  accounted size of the pool: \<open>adviseSlab\<close> does not take it out of \<open>memoryPoolSize_\<close>,
  \<open>reclaimSlab\<close> adds it. The slabs handed out are the same before and after.
\<close>

theorem advise_reclaim_counts_twice:
  assumes "sa_reachable (sa, used)" and "s \<in> used" and "sa_advisedSlabs sa = []"
    and "adviseSlab ok s sa = Inr (True, sa1)" and "reclaimSlab pid sa1 = (r, sa2)"
  shows "r = Some s \<and> sa_reachable (sa2, used) \<and>
         sa_memoryPoolSize sa2 pid = sa_memoryPoolSize sa pid + sizeof_Slab"
proof -
  have "sa_advisedSlabs sa1 = [s]" "sa_memoryPoolSize sa1 = sa_memoryPoolSize sa"
    using adviseSlab_inv [OF sa_reachable_inv [OF assms(1), simplified] assms(2), of ok] assms(3,4) by auto
  then have r: "r = Some s" "sa_memoryPoolSize sa2 pid = sa_memoryPoolSize sa pid + sizeof_Slab"
    using assms(5) by (auto simp: reclaimSlab_def initializeHeader_def split: option.splits)
  have "sa_reachable (sa1, used - {s})"
    by (rule sa_reachable.step [OF assms(1)]) (rule sa_step.advise [OF assms(2,4)])
  then have "sa_reachable (sa2, insert s (used - {s}))"
    by (rule sa_reachable.step) (rule sa_step.reclaim [OF assms(5) [unfolded r(1)]])
  then show ?thesis using r assms(2) by (simp add: insert_absorb)
qed

theorem advise_reclaim_counts_twice_witness:
  "\<exists>sa1. adviseSlab True (2 * kSize) example_sa1 = Inr (True, sa1) \<and>
         sa_memoryPoolSize (snd (reclaimSlab 5 sa1)) 5 = sa_memoryPoolSize example_sa1 5 + sizeof_Slab"
proof -
  have "sa_advisedSlabs example_sa1 = []"
    using example_sa_make by (auto simp: example_sa1_def makeNewSlab_def makeNewSlabImpl_def example_sa_def
        initializeHeader_def split: if_splits option.splits)
  moreover obtain sa1 where "adviseSlab True (2 * kSize) example_sa1 = Inr (True, sa1)"
    using example_advise by blast
  ultimately show ?thesis
    using advise_reclaim_counts_twice [OF example_reachable(2), of "2 * kSize" True sa1 5 "fst (reclaimSlab 5 sa1)"
        "snd (reclaimSlab 5 sa1)"] by simp
qed

section \<open>The alternative compression\<close>

lemma compressAlt_marker:
  assumes "sa_slabMemoryStart sa \<le> p"
  defines "d \<equiv> p - sa_slabMemoryStart sa"
  shows "unat (compressAlt sa (Some p)) = d div 64 mod 2 ^ 32"
    and "unat (push_bit kMarkerBits (compressAlt sa (Some p))) = d div 64 * 64 mod 2 ^ 32"
proof -
  have z: "int p - int (sa_slabMemoryStart sa) = int d" using assms(1) by (simp add: d_def of_nat_diff)
  have "drop_bit 6 (int d) = int (d div 64)"
    by (simp add: drop_bit_eq_div zdiv_int)
  then have c: "compressAlt sa (Some p) = of_nat (d div 64)"
    by (simp add: compressAlt_def z kMarkerBits_def)
  show u: "unat (compressAlt sa (Some p)) = d div 64 mod 2 ^ 32"
    unfolding c by (simp add: unsigned_of_nat take_bit_eq_mod)
  have "push_bit kMarkerBits (compressAlt sa (Some p)) = of_nat (d div 64 * 64)"
    unfolding c kMarkerBits_def by (simp add: push_bit_eq_mult)
  then show "unat (push_bit kMarkerBits (compressAlt sa (Some p))) = d div 64 * 64 mod 2 ^ 32"
    by (simp only: unsigned_of_nat take_bit_eq_mod) simp
qed

lemma round_up_marker:
  fixes a k :: nat
  assumes "64 \<le> a" and "m = (c + a * k) div 64 * 64 - c" and "64 dvd c"
  shows "(if m mod a \<noteq> 0 then m + (a - m mod a) else m) = a * k"
proof -
  have m: "m = a * k div 64 * 64" using assms(2,3) by (auto elim!: dvdE)
  then have le: "m \<le> a * k" "a * k < m + 64" by simp_all
  show ?thesis
  proof (cases "m = a * k")
    case True
    then show ?thesis by simp
  next
    case False
    with le have "m < a * k" by simp
    then obtain j where j: "k = Suc j" by (cases k) auto
    have "m = a * j + (m - a * j)" "m - a * j < a" using \<open>m < a * k\<close> le(2) assms(1) j by auto
    moreover have "0 < m - a * j" using le(2) assms(1) j False by auto
    ultimately have "m mod a = m - a * j" by (metis mod_mult_self4 mod_less)
    then show ?thesis using \<open>0 < m - a * j\<close> \<open>m - a * j < a\<close> j by auto
  qed
qed

lemma getSlabForMemory_le: "getSlabForMemory m \<le> m"
proof -
  have "unat ((of_nat m :: u64) AND kAddressMask) \<le> unat (of_nat m :: u64)"
    by (simp only: word_le_nat_alt [symmetric] word_and_le2)
  also have "\<dots> \<le> m" by (simp add: unsigned_of_nat)
  finally show ?thesis by (simp only: getSlabForMemory_def)
qed

lemma alt_roundtrip:
  assumes g: "sa_geometry sa" and p: "is_alloc sa p" and small: "p - sa_slabMemoryStart sa < 2 ^ 32"
  shows "unCompressAlt sa (compressAlt sa (Some p)) = Inr (Some p)"
proof -
  obtain s a k where s: "s \<in> carved sa" "getSlabForMemory p = s" and a: "a = unat (allocSize (header_of sa s))"
    and pk: "p = s + a * k" "64 \<le> a" "a * k + a \<le> kSize"
    using is_allocE [OF g p] by metis
  let ?start = "sa_slabMemoryStart sa" and ?d = "p - sa_slabMemoryStart sa"
  have le: "?start \<le> s" "?start \<le> p" using s(1) pk(1) by (simp_all add: carved_def)
  define c where "c = s - ?start"
  have "kSize dvd c" using s(1) geometry_start(1) [OF g] by (simp add: c_def carved_def)
  moreover have "64 dvd kSize" by (simp add: kSize_def kNumSlabBits_def)
  ultimately have c64: "64 dvd c" by (rule dvd_trans [rotated])
  have d: "?d = c + a * k" using le pk(1) by (simp add: c_def)
  note M = compressAlt_marker [OF le(2)]
  let ?x = "?d div 64 * 64"
  have x: "?x \<le> ?d" "c \<le> ?x" using c64 d by (auto elim!: dvdE)
  have mark: "unat (push_bit kMarkerBits (compressAlt sa (Some p))) = ?x"
    using M(2) x(1) small by simp
  have "unat (compressAlt sa (Some p)) \<noteq> unat kNull4"
    using M(1) small by (simp add: kNull4_def)
  then have notnull: "\<not> isNull4 (compressAlt sa (Some p))" by (auto simp: isNull4_def)
  have mp: "?start + ?x = s + (?x - c)" using x(2) le(1) by (simp add: c_def)
  have "?x - c < kSize" using x(1) d pk by linarith
  then have slab: "getSlabForMemory (?start + ?x) = s"
    unfolding mp by (rule slab_index_memory [OF g s(1)])
  have hd: "getSlabHeader_memory sa (?start + ?x) = Some (slabIdx sa s)"
    using slab s(1) slab_index(5) [OF g disjI1 [OF s(1)]]
    by (simp add: getSlabHeader_memory_def Let_def valid_iff_carved [OF g])
  define m where "m = (c + a * k) div 64 * 64 - c"
  have m: "?start + ?x - s = m" using mp d by (simp add: m_def)
  have "unCompressAlt sa (compressAlt sa (Some p)) = Inr (Some (s + (if m mod a \<noteq> 0 then m + (a - m mod a) else m)))"
    by (simp only: unCompressAlt_def Let_def notnull if_False mark hd option.case slab m memoryAtOffset_def
        header_of_def [symmetric] a [symmetric])
  also have "(if m mod a \<noteq> 0 then m + (a - m mod a) else m) = a * k"
    by (rule round_up_marker [OF pk(2) m_def c64])
  finally show ?thesis by (simp only: pk(1) [symmetric])
qed

text \<open>
  C40. The alternative compression (used by benchmarks) is a round trip for allocations in
  the first 4 GB of slab memory; the marker is shifted back in 32 bits, so no allocation a
  slab or more beyond 4 GB decompresses to its address.
\<close>

theorem compressAlt_only_below_4GB:
  assumes "sa_reachable (sa, used)" and "is_alloc sa p"
    and "\<And>i. unat (allocSize (sa_headers sa i)) \<le> kSize"
  shows "(p - sa_slabMemoryStart sa < 2 ^ 32 \<longrightarrow> unCompressAlt sa (compressAlt sa (Some p)) = Inr (Some p)) \<and>
         (2 ^ 32 + kSize \<le> p - sa_slabMemoryStart sa \<longrightarrow> unCompressAlt sa c \<noteq> Inr (Some p))"
proof (intro conjI impI notI)
  have g: "sa_geometry sa" using sa_reachable_inv [OF assms(1)] by (simp add: sa_inv_def)
  show "unCompressAlt sa (compressAlt sa (Some p)) = Inr (Some p)" if "p - sa_slabMemoryStart sa < 2 ^ 32"
    using that by (rule alt_roundtrip [OF g assms(2)])
  assume far: "2 ^ 32 + kSize \<le> p - sa_slabMemoryStart sa" and eq: "unCompressAlt sa c = Inr (Some p)"
  let ?m = "sa_slabMemoryStart sa + unat (push_bit kMarkerBits c)"
  have "unat (push_bit kMarkerBits c) < 2 ^ 32"
    using unsigned_less [of "push_bit kMarkerBits c"] by simp
  moreover obtain i where "getSlabHeader_memory sa ?m = Some i"
    using eq by (auto simp: unCompressAlt_def Let_def split: if_splits option.splits)
  then have "p \<le> getSlabForMemory ?m + ((?m - getSlabForMemory ?m) + unat (allocSize (sa_headers sa i)))"
    using eq by (auto simp: unCompressAlt_def Let_def memoryAtOffset_def split: if_splits)
  then have "p \<le> ?m + kSize" using getSlabForMemory_le [of ?m] assms(3) [of i] by linarith
  ultimately show False using far by linarith
qed

theorem compressAlt_only_below_4GB_witness:
  "unCompressAlt example_sa2 (compressAlt example_sa2 (Some (2 * kSize + 200))) = Inr (Some (2 * kSize + 200))"
proof -
  have h: "unat (allocSize (sa_headers example_sa2 i)) \<le> kSize" for i
  proof -
    have "allocSize (sa_headers example_sa1 i) = 0"
      using example_sa_make by (auto simp: example_sa1_def makeNewSlab_def makeNewSlabImpl_def example_sa_def
          initializeHeader_def split: if_splits option.splits)
    then have "allocSize (sa_headers example_sa2 i) \<in> {0, 100}" by (auto simp: example_sa2_def)
    then show ?thesis by (auto simp: kSize_def kNumSlabBits_def)
  qed
  have "sa_slabMemoryStart example_sa2 = 2 * kSize" by (simp add: example_sa2_def example_sa1_memory)
  then show ?thesis
    using compressAlt_only_below_4GB [OF example_sa2_reachable _ h, of "2 * kSize + 200"] example_alloc [of 2] by simp
qed

end
