(* ===== verification/DList.thy ===== *)
theory DList
  imports SlabAllocator
begin

text \<open>
  The intrusive doubly linked list: \<open>cachelib/allocator/datastruct/DList.h\<close>. The nodes are
  items in memory; their hooks hold compressed pointers. The model keeps the hooks in a
  store indexed by address, so that every write of the code is a write to the store, and
  aliasing between the nodes an operation touches is visible. The specification is a list of
  addresses: \<open>dl_rep\<close> says which list a linked structure stands for, and each operation is
  proved to do on it what its name says, for any compressor that keeps its contract.
\<close>

record 'c DListHook =
  dh_next :: 'c
  dh_prev :: 'c
  dh_updateTime :: u32

type_synonym 'c hooks = "addr \<Rightarrow> 'c DListHook"

record 'c DList =
  dl_compressor :: "'c PtrCompressor"
  dl_head :: ptr
  dl_tail :: ptr
  dl_size :: size_t

definition new_DList :: "'c PtrCompressor \<Rightarrow> 'c DList" where
  "new_DList compressor = \<lparr>dl_compressor = compressor, dl_head = None, dl_tail = None, dl_size = 0\<rparr>"

definition DListHook_setNext :: "'c PtrCompressor \<Rightarrow> ptr \<Rightarrow> 'c DListHook \<Rightarrow> 'c DListHook" where
  "DListHook_setNext compressor n hk = hk\<lparr>dh_next := pc_compress compressor n\<rparr>"
definition DListHook_setPrev :: "'c PtrCompressor \<Rightarrow> ptr \<Rightarrow> 'c DListHook \<Rightarrow> 'c DListHook" where
  "DListHook_setPrev compressor p hk = hk\<lparr>dh_prev := pc_compress compressor p\<rparr>"
definition DListHook_getNext :: "'c PtrCompressor \<Rightarrow> 'c DListHook \<Rightarrow> ptr" where
  "DListHook_getNext compressor hk = pc_unCompress compressor (dh_next hk)"
definition DListHook_getPrev :: "'c PtrCompressor \<Rightarrow> 'c DListHook \<Rightarrow> ptr" where
  "DListHook_getPrev compressor hk = pc_unCompress compressor (dh_prev hk)"
definition setUpdateTime :: "u32 \<Rightarrow> 'c DListHook \<Rightarrow> 'c DListHook" where
  "setUpdateTime time hk = hk\<lparr>dh_updateTime := time\<rparr>"
definition getUpdateTime :: "'c DListHook \<Rightarrow> u32" where
  "getUpdateTime hk = dh_updateTime hk"

definition DList_getNext :: "'c DList \<Rightarrow> 'c hooks \<Rightarrow> addr \<Rightarrow> ptr" where
  "DList_getNext dl h node = DListHook_getNext (dl_compressor dl) (h node)"
definition DList_getPrev :: "'c DList \<Rightarrow> 'c hooks \<Rightarrow> addr \<Rightarrow> ptr" where
  "DList_getPrev dl h node = DListHook_getPrev (dl_compressor dl) (h node)"
definition DList_setNext :: "'c DList \<Rightarrow> addr \<Rightarrow> ptr \<Rightarrow> 'c hooks \<Rightarrow> 'c hooks" where
  "DList_setNext dl node n h = h(node := DListHook_setNext (dl_compressor dl) n (h node))"
definition DList_setPrev :: "'c DList \<Rightarrow> addr \<Rightarrow> ptr \<Rightarrow> 'c hooks \<Rightarrow> 'c hooks" where
  "DList_setPrev dl node p h = h(node := DListHook_setPrev (dl_compressor dl) p (h node))"
definition DList_setNextFrom :: "addr \<Rightarrow> addr \<Rightarrow> 'c hooks \<Rightarrow> 'c hooks" where
  "DList_setNextFrom node other h = h(node := (h node)\<lparr>dh_next := dh_next (h other)\<rparr>)"
definition DList_setPrevFrom :: "addr \<Rightarrow> addr \<Rightarrow> 'c hooks \<Rightarrow> 'c hooks" where
  "DList_setPrevFrom node other h = h(node := (h node)\<lparr>dh_prev := dh_prev (h other)\<rparr>)"

definition DList_linkAtHead :: "addr \<Rightarrow> 'c DList \<times> 'c hooks \<Rightarrow> 'c DList \<times> 'c hooks" where
  "DList_linkAtHead node = (\<lambda>(dl, h).
     let h1 = DList_setNext dl node (dl_head dl) h;
         h2 = DList_setPrev dl node None h1;
         h3 = (case dl_head dl of None \<Rightarrow> h2 | Some hn \<Rightarrow> DList_setPrev dl hn (Some node) h2);
         dl1 = dl\<lparr>dl_head := Some node\<rparr>;
         dl2 = (if dl_tail dl1 = None then dl1\<lparr>dl_tail := Some node\<rparr> else dl1)
     in (dl2\<lparr>dl_size := dl_size dl2 + 1\<rparr>, h3))"

definition DList_linkAtTail :: "addr \<Rightarrow> 'c DList \<times> 'c hooks \<Rightarrow> 'c DList \<times> 'c hooks" where
  "DList_linkAtTail node = (\<lambda>(dl, h).
     let h1 = DList_setNext dl node None h;
         h2 = DList_setPrev dl node (dl_tail dl) h1;
         h3 = (case dl_tail dl of None \<Rightarrow> h2 | Some tn \<Rightarrow> DList_setNext dl tn (Some node) h2);
         dl1 = dl\<lparr>dl_tail := Some node\<rparr>;
         dl2 = (if dl_head dl1 = None then dl1\<lparr>dl_head := Some node\<rparr> else dl1)
     in (dl2\<lparr>dl_size := dl_size dl2 + 1\<rparr>, h3))"

definition DList_insertBefore :: "addr \<Rightarrow> addr \<Rightarrow> 'c DList \<times> 'c hooks \<Rightarrow> 'c DList \<times> 'c hooks" where
  "DList_insertBefore nextNode node = (\<lambda>(dl, h).
     let prev = DList_getPrev dl h nextNode;
         h1 = DList_setPrev dl node prev h;
         (dl2, h2) = (case prev of Some p \<Rightarrow> (dl, DList_setNext dl p (Some node) h1)
                      | None \<Rightarrow> (dl\<lparr>dl_head := Some node\<rparr>, h1));
         h3 = DList_setPrev dl nextNode (Some node) h2;
         h4 = DList_setNext dl node (Some nextNode) h3
     in (dl2\<lparr>dl_size := dl_size dl2 + 1\<rparr>, h4))"

definition DList_unlink :: "addr \<Rightarrow> 'c DList \<times> 'c hooks \<Rightarrow> 'c DList \<times> 'c hooks" where
  "DList_unlink node = (\<lambda>(dl, h).
     let prev = DList_getPrev dl h node;
         nxt = DList_getNext dl h node;
         dl1 = (if Some node = dl_head dl then dl\<lparr>dl_head := nxt\<rparr> else dl);
         dl2 = (if Some node = dl_tail dl1 then dl1\<lparr>dl_tail := prev\<rparr> else dl1);
         h1 = (case prev of None \<Rightarrow> h | Some p \<Rightarrow> DList_setNextFrom p node h);
         h2 = (case nxt of None \<Rightarrow> h1 | Some n \<Rightarrow> DList_setPrevFrom n node h1)
     in (dl2\<lparr>dl_size := dl_size dl2 - 1\<rparr>, h2))"

definition DList_remove :: "addr \<Rightarrow> 'c DList \<times> 'c hooks \<Rightarrow> 'c DList \<times> 'c hooks" where
  "DList_remove node s =
     (let (dl, h) = DList_unlink node s
      in (dl, DList_setPrev dl node None (DList_setNext dl node None h)))"

definition DList_replace :: "addr \<Rightarrow> addr \<Rightarrow> 'c DList \<times> 'c hooks \<Rightarrow> 'c DList \<times> 'c hooks" where
  "DList_replace oldNode newNode = (\<lambda>(dl, h).
     let dl1 = (if Some oldNode = dl_head dl then dl\<lparr>dl_head := Some newNode\<rparr> else dl);
         dl2 = (if Some oldNode = dl_tail dl1 then dl1\<lparr>dl_tail := Some newNode\<rparr> else dl1);
         prev = DList_getPrev dl h oldNode;
         nxt = DList_getNext dl h oldNode;
         h1 = (case prev of None \<Rightarrow> h | Some p \<Rightarrow> DList_setNext dl p (Some newNode) h);
         h2 = (case nxt of None \<Rightarrow> h1 | Some n \<Rightarrow> DList_setPrev dl n (Some newNode) h1);
         h3 = DList_setPrev dl newNode prev h2;
         h4 = DList_setNext dl newNode nxt h3;
         h5 = DList_setPrev dl oldNode None h4;
         h6 = DList_setNext dl oldNode None h5
     in (dl2, h6))"

definition DList_moveToHead :: "addr \<Rightarrow> 'c DList \<times> 'c hooks \<Rightarrow> 'c DList \<times> 'c hooks" where
  "DList_moveToHead node s =
     (if Some node = dl_head (fst s) then s else DList_linkAtHead node (DList_unlink node s))"

text \<open>Saving and restoring; \<open>ser\<close> and \<open>deser\<close> are the serialization of the pointer type.\<close>

record DListObject =
  do_compressedHead :: u64
  do_compressedTail :: u64
  do_size :: u64

definition DList_saveState :: "('c \<Rightarrow> u64) \<Rightarrow> 'c DList \<Rightarrow> DListObject" where
  "DList_saveState ser dl =
     \<lparr>do_compressedHead = ser (pc_compress (dl_compressor dl) (dl_head dl)),
      do_compressedTail = ser (pc_compress (dl_compressor dl) (dl_tail dl)), do_size = dl_size dl\<rparr>"

definition DList_restore :: "(u64 \<Rightarrow> 'c) \<Rightarrow> DListObject \<Rightarrow> 'c PtrCompressor \<Rightarrow> 'c DList" where
  "DList_restore deser object compressor =
     \<lparr>dl_compressor = compressor,
      dl_head = pc_unCompress compressor (deser (do_compressedHead object)),
      dl_tail = pc_unCompress compressor (deser (do_compressedTail object)), dl_size = do_size object\<rparr>"

section \<open>Iterators\<close>

datatype Direction = FROM_HEAD | FROM_TAIL

record DList_Iterator =
  it_curr :: ptr
  it_dir :: Direction

definition DList_begin :: "'c DList \<Rightarrow> DList_Iterator" where
  "DList_begin dl = \<lparr>it_curr = dl_head dl, it_dir = FROM_HEAD\<rparr>"
definition DList_rbegin :: "'c DList \<Rightarrow> DList_Iterator" where
  "DList_rbegin dl = \<lparr>it_curr = dl_tail dl, it_dir = FROM_TAIL\<rparr>"
definition DList_end :: DList_Iterator where
  "DList_end = \<lparr>it_curr = None, it_dir = FROM_HEAD\<rparr>"
definition DList_rend :: DList_Iterator where
  "DList_rend = \<lparr>it_curr = None, it_dir = FROM_TAIL\<rparr>"

definition Iterator_goForward :: "'c DList \<Rightarrow> 'c hooks \<Rightarrow> addr \<Rightarrow> DList_Iterator \<Rightarrow> DList_Iterator" where
  "Iterator_goForward dl h c it =
     (if it_dir it = FROM_TAIL then it\<lparr>it_curr := DList_getPrev dl h c\<rparr>
      else it\<lparr>it_curr := DList_getNext dl h c\<rparr>)"
definition Iterator_goBackward :: "'c DList \<Rightarrow> 'c hooks \<Rightarrow> addr \<Rightarrow> DList_Iterator \<Rightarrow> DList_Iterator" where
  "Iterator_goBackward dl h c it =
     (if it_dir it = FROM_TAIL then it\<lparr>it_curr := DList_getNext dl h c\<rparr>
      else it\<lparr>it_curr := DList_getPrev dl h c\<rparr>)"
definition Iterator_inc :: "'c DList \<Rightarrow> 'c hooks \<Rightarrow> DList_Iterator \<Rightarrow> DList_Iterator" where
  "Iterator_inc dl h it = (case it_curr it of None \<Rightarrow> it | Some c \<Rightarrow> Iterator_goForward dl h c it)"
definition Iterator_dec :: "'c DList \<Rightarrow> 'c hooks \<Rightarrow> DList_Iterator \<Rightarrow> DList_Iterator" where
  "Iterator_dec dl h it = (case it_curr it of None \<Rightarrow> it | Some c \<Rightarrow> Iterator_goBackward dl h c it)"
definition Iterator_reset :: "DList_Iterator \<Rightarrow> DList_Iterator" where
  "Iterator_reset it = it\<lparr>it_curr := None\<rparr>"
definition Iterator_resetToBegin :: "'c DList \<Rightarrow> DList_Iterator \<Rightarrow> DList_Iterator" where
  "Iterator_resetToBegin dl it = it\<lparr>it_curr := (if it_dir it = FROM_HEAD then dl_head dl else dl_tail dl)\<rparr>"

section \<open>Segments of doubly linked nodes\<close>

fun dlseg :: "(addr \<Rightarrow> ptr) \<Rightarrow> (addr \<Rightarrow> ptr) \<Rightarrow> ptr \<Rightarrow> addr list \<Rightarrow> ptr \<Rightarrow> bool" where
  "dlseg nx pv p [] n = True"
| "dlseg nx pv p (x # xs) n = (nx x = first_ptr xs n \<and> pv x = p \<and> dlseg nx pv (Some x) xs n)"

lemma dlseg_append:
  "dlseg nx pv p (xs @ ys) n \<longleftrightarrow> dlseg nx pv p xs (first_ptr ys n) \<and> dlseg nx pv (last_ptr p xs) ys n"
  by (induction xs arbitrary: p) auto

lemma dlseg_cong:
  "(\<And>x. x \<in> set xs \<Longrightarrow> nx x = nx' x \<and> pv x = pv' x) \<Longrightarrow> dlseg nx pv p xs n = dlseg nx' pv' p xs n"
  by (induction xs arbitrary: p) auto

lemma dlseg_frame [simp]:
  "a \<notin> set xs \<Longrightarrow> dlseg (nx(a := v)) pv p xs n = dlseg nx pv p xs n"
  "a \<notin> set xs \<Longrightarrow> dlseg nx (pv(a := v)) p xs n = dlseg nx pv p xs n"
  by (auto intro!: dlseg_cong)

lemma dlseg_nth:
  assumes "dlseg nx pv p xs n" and "i < length xs"
  shows "nx (xs ! i) = (if Suc i < length xs then Some (xs ! Suc i) else n)"
    and "pv (xs ! i) = (if i = 0 then p else Some (xs ! (i - 1)))"
proof -
  have x: "xs = take i xs @ xs ! i # drop (Suc i) xs" using assms(2) by (rule id_take_nth_drop)
  have s: "dlseg nx pv (last_ptr p (take i xs)) (xs ! i # drop (Suc i) xs) n"
    using assms(1) by (subst (asm) x) (simp only: dlseg_append)
  then show "nx (xs ! i) = (if Suc i < length xs then Some (xs ! Suc i) else n)"
    by (auto simp: first_ptr_def Cons_nth_drop_Suc [symmetric])
  from s have "pv (xs ! i) = last_ptr p (take i xs)" by simp
  then show "pv (xs ! i) = (if i = 0 then p else Some (xs ! (i - 1)))"
    using assms(2) by (auto simp: last_ptr_def last_conv_nth min_def)
qed

section \<open>What a list stands for\<close>

definition dl_next :: "'c PtrCompressor \<Rightarrow> 'c hooks \<Rightarrow> addr \<Rightarrow> ptr" where
  "dl_next pc h a = DListHook_getNext pc (h a)"
definition dl_prev :: "'c PtrCompressor \<Rightarrow> 'c hooks \<Rightarrow> addr \<Rightarrow> ptr" where
  "dl_prev pc h a = DListHook_getPrev pc (h a)"

definition has_compressor :: "'c PtrCompressor \<Rightarrow> 'c DList \<Rightarrow> bool" where
  "has_compressor pc dl \<longleftrightarrow> dl_compressor dl = pc"

lemma has_compressor_frame [simp]:
  "has_compressor pc (dl\<lparr>dl_head := a\<rparr>) = has_compressor pc dl"
  "has_compressor pc (dl\<lparr>dl_tail := a\<rparr>) = has_compressor pc dl"
  "has_compressor pc (dl\<lparr>dl_size := n\<rparr>) = has_compressor pc dl"
  by (simp_all add: has_compressor_def)

definition dl_rep :: "'c PtrCompressor \<Rightarrow> addr set \<Rightarrow> 'c DList \<times> 'c hooks \<Rightarrow> addr list \<Rightarrow> bool" where
  "dl_rep pc valid s xs \<longleftrightarrow>
     has_compressor pc (fst s) \<and> set xs \<subseteq> valid \<and> distinct xs \<and>
     dl_head (fst s) = first_ptr xs None \<and> dl_tail (fst s) = last_ptr None xs \<and>
     dl_size (fst s) = of_nat (length xs) \<and> dlseg (dl_next pc (snd s)) (dl_prev pc (snd s)) None xs None"

lemma dl_rep_new: "dl_rep pc valid (new_DList pc, h) []"
  by (simp add: dl_rep_def new_DList_def has_compressor_def)

text \<open>Only the hooks of the nodes of the list matter.\<close>

lemma dl_rep_hooks:
  assumes "\<And>a. a \<in> set xs \<Longrightarrow> dh_next (h a) = dh_next (h' a) \<and> dh_prev (h a) = dh_prev (h' a)"
  shows "dl_rep pc valid (dl, h) xs = dl_rep pc valid (dl, h') xs"
  unfolding dl_rep_def fst_conv snd_conv
  using assms dlseg_cong [of xs "dl_next pc h" "dl_next pc h'" "dl_prev pc h" "dl_prev pc h'"]
  by (simp add: dl_next_def dl_prev_def DListHook_getNext_def DListHook_getPrev_def)

context ptr_compressor
begin

lemma dl_next_setNext [simp]:
  "has_compressor pc dl \<Longrightarrow> set_option q \<subseteq> valid \<Longrightarrow> dl_next pc (DList_setNext dl a q h) = (dl_next pc h)(a := q)"
  by (auto simp: fun_eq_iff dl_next_def DList_setNext_def DListHook_setNext_def DListHook_getNext_def unCompress_ptr has_compressor_def)

lemma dl_prev_setPrev [simp]:
  "has_compressor pc dl \<Longrightarrow> set_option q \<subseteq> valid \<Longrightarrow> dl_prev pc (DList_setPrev dl a q h) = (dl_prev pc h)(a := q)"
  by (auto simp: fun_eq_iff dl_prev_def DList_setPrev_def DListHook_setPrev_def DListHook_getPrev_def unCompress_ptr has_compressor_def)

end

lemma dl_links_frame [simp]:
  "dl_prev pc (DList_setNext dl a q h) = dl_prev pc h" "dl_next pc (DList_setPrev dl a q h) = dl_next pc h"
  "dl_prev pc (DList_setNextFrom a b h) = dl_prev pc h" "dl_next pc (DList_setPrevFrom a b h) = dl_next pc h"
  "dl_next pc (DList_setNextFrom a b h) = (dl_next pc h)(a := dl_next pc h b)"
  "dl_prev pc (DList_setPrevFrom a b h) = (dl_prev pc h)(a := dl_prev pc h b)"
  by (auto simp: fun_eq_iff dl_next_def dl_prev_def DList_setNext_def DList_setPrev_def DList_setNextFrom_def
      DList_setPrevFrom_def DListHook_setNext_def DListHook_setPrev_def DListHook_getNext_def DListHook_getPrev_def)

context ptr_compressor
begin

lemma dl_get [simp]:
  "has_compressor pc dl \<Longrightarrow> DList_getNext dl h a = dl_next pc h a"
  "has_compressor pc dl \<Longrightarrow> DList_getPrev dl h a = dl_prev pc h a"
  by (simp_all add: DList_getNext_def DList_getPrev_def dl_next_def dl_prev_def has_compressor_def)

lemma linkAtHead_rep:
  assumes "dl_rep pc valid s xs" and "node \<in> valid" and "node \<notin> set xs"
  shows "dl_rep pc valid (DList_linkAtHead node s) (node # xs)"
  using assms
  by (cases s; cases xs) (auto simp: dl_rep_def DList_linkAtHead_def Let_def)

lemma linkAtTail_rep:
  assumes "dl_rep pc valid s xs" and "node \<in> valid" and "node \<notin> set xs"
  shows "dl_rep pc valid (DList_linkAtTail node s) (xs @ [node])"
  using assms
  by (cases s; cases xs rule: rev_cases) (auto simp: dl_rep_def DList_linkAtTail_def Let_def dlseg_append)

lemma insertBefore_rep:
  assumes "dl_rep pc valid s (as @ b # bs)" and "node \<in> valid" and "node \<notin> set (as @ b # bs)"
  shows "dl_rep pc valid (DList_insertBefore b node s) (as @ node # b # bs)"
  using assms
  by (cases s; cases as rule: rev_cases) (auto simp: dl_rep_def DList_insertBefore_def Let_def dlseg_append)

lemma unlink_rep:
  assumes "dl_rep pc valid s (as @ x # bs)"
  shows "dl_rep pc valid (DList_unlink x s) (as @ bs)"
    and "dl_next pc (snd (DList_unlink x s)) x = first_ptr bs None"
    and "dl_prev pc (snd (DList_unlink x s)) x = last_ptr None as"
proof -
  obtain dl h where s: "s = (dl, h)" by (cases s)
  have "dl_rep pc valid (DList_unlink x s) (as @ bs) \<and>
      dl_next pc (snd (DList_unlink x s)) x = first_ptr bs None \<and>
      dl_prev pc (snd (DList_unlink x s)) x = last_ptr None as"
    using assms unfolding s
    by (cases as rule: rev_cases; cases bs)
       (simp_all add: dl_rep_def DList_unlink_def Let_def dlseg_append)
  then show "dl_rep pc valid (DList_unlink x s) (as @ bs)"
    and "dl_next pc (snd (DList_unlink x s)) x = first_ptr bs None"
    and "dl_prev pc (snd (DList_unlink x s)) x = last_ptr None as" by blast+
qed

lemma remove_rep:
  assumes "dl_rep pc valid s (as @ x # bs)"
  shows "dl_rep pc valid (DList_remove x s) (as @ bs)"
    and "dl_next pc (snd (DList_remove x s)) x = None" and "dl_prev pc (snd (DList_remove x s)) x = None"
proof -
  have r: "dl_rep pc valid (DList_unlink x s) (as @ bs)" by (rule unlink_rep [OF assms])
  have x: "x \<notin> set (as @ bs)" using assms by (auto simp: dl_rep_def)
  show "dl_rep pc valid (DList_remove x s) (as @ bs)"
    and "dl_next pc (snd (DList_remove x s)) x = None" and "dl_prev pc (snd (DList_remove x s)) x = None"
    using r x by (auto simp: DList_remove_def dl_rep_def split: prod.splits)
qed

lemma replace_rep:
  assumes "dl_rep pc valid s (as @ x # bs)" and "y \<in> valid" and "y \<notin> set (as @ x # bs)"
  shows "dl_rep pc valid (DList_replace x y s) (as @ y # bs)"
    and "dl_next pc (snd (DList_replace x y s)) x = None" and "dl_prev pc (snd (DList_replace x y s)) x = None"
proof -
  obtain dl h where s: "s = (dl, h)" by (cases s)
  have "dl_rep pc valid (DList_replace x y s) (as @ y # bs) \<and>
      dl_next pc (snd (DList_replace x y s)) x = None \<and> dl_prev pc (snd (DList_replace x y s)) x = None"
    using assms unfolding s
    by (cases as rule: rev_cases; cases bs)
       (simp_all add: dl_rep_def DList_replace_def Let_def dlseg_append)
  then show "dl_rep pc valid (DList_replace x y s) (as @ y # bs)"
    and "dl_next pc (snd (DList_replace x y s)) x = None" and "dl_prev pc (snd (DList_replace x y s)) x = None"
    by blast+
qed

lemma moveToHead_rep:
  assumes "dl_rep pc valid s (as @ x # bs)"
  shows "dl_rep pc valid (DList_moveToHead x s) (x # as @ bs)"
proof (cases "Some x = dl_head (fst s)")
  case True
  then have "as = []" using assms by (cases as) (auto simp: dl_rep_def)
  with assms True show ?thesis by (simp add: DList_moveToHead_def)
next
  case False
  have "dl_rep pc valid (DList_unlink x s) (as @ bs)" "x \<notin> set (as @ bs)" "x \<in> valid"
    using unlink_rep [OF assms] assms by (auto simp: dl_rep_def)
  then show ?thesis using False by (simp add: DList_moveToHead_def linkAtHead_rep)
qed

end

section \<open>What the operations leave alone\<close>

lemma hook_writes:
  "DList_setNext dl n q h a = (if a = n then DListHook_setNext (dl_compressor dl) q (h n) else h a)"
  "DList_setPrev dl n q h a = (if a = n then DListHook_setPrev (dl_compressor dl) q (h n) else h a)"
  "DList_setNextFrom n m h a = (if a = n then (h n)\<lparr>dh_next := dh_next (h m)\<rparr> else h a)"
  "DList_setPrevFrom n m h a = (if a = n then (h n)\<lparr>dh_prev := dh_prev (h m)\<rparr> else h a)"
  by (simp_all add: DList_setNext_def DList_setPrev_def DList_setNextFrom_def DList_setPrevFrom_def)

lemma hook_time [simp]:
  "dh_updateTime (DListHook_setNext pc q hk) = dh_updateTime hk"
  "dh_updateTime (DListHook_setPrev pc q hk) = dh_updateTime hk"
  by (simp_all add: DListHook_setNext_def DListHook_setPrev_def)

lemmas DList_ops = DList_linkAtHead_def DList_linkAtTail_def DList_insertBefore_def DList_unlink_def
  DList_remove_def DList_replace_def DList_moveToHead_def

text \<open>No operation changes the time of last update of any node.\<close>

lemma ops_updateTime [simp]:
  "dh_updateTime (snd (DList_linkAtHead node s) a) = dh_updateTime (snd s a)"
  "dh_updateTime (snd (DList_linkAtTail node s) a) = dh_updateTime (snd s a)"
  "dh_updateTime (snd (DList_insertBefore x node s) a) = dh_updateTime (snd s a)"
  "dh_updateTime (snd (DList_unlink node s) a) = dh_updateTime (snd s a)"
  "dh_updateTime (snd (DList_remove node s) a) = dh_updateTime (snd s a)"
  "dh_updateTime (snd (DList_replace x node s) a) = dh_updateTime (snd s a)"
  "dh_updateTime (snd (DList_moveToHead node s) a) = dh_updateTime (snd s a)"
proof -
  show link: "dh_updateTime (snd (DList_linkAtHead node s) a) = dh_updateTime (snd s a)" for s
    by (cases s) (auto simp: DList_linkAtHead_def Let_def hook_writes split: option.splits)
  show "dh_updateTime (snd (DList_linkAtTail node s) a) = dh_updateTime (snd s a)"
    by (cases s) (auto simp: DList_linkAtTail_def Let_def hook_writes split: option.splits)
  show "dh_updateTime (snd (DList_insertBefore x node s) a) = dh_updateTime (snd s a)"
    by (cases s) (auto simp: DList_insertBefore_def Let_def hook_writes split: option.splits)
  show unlink: "dh_updateTime (snd (DList_unlink node s) a) = dh_updateTime (snd s a)"
    by (cases s) (auto simp: DList_unlink_def Let_def hook_writes split: option.splits)
  then show "dh_updateTime (snd (DList_remove node s) a) = dh_updateTime (snd s a)"
    by (auto simp: DList_remove_def hook_writes split: prod.splits)
  show "dh_updateTime (snd (DList_replace x node s) a) = dh_updateTime (snd s a)"
    by (cases s) (auto simp: DList_replace_def Let_def hook_writes split: option.splits)
  show "dh_updateTime (snd (DList_moveToHead node s) a) = dh_updateTime (snd s a)"
    by (simp add: DList_moveToHead_def link unlink)
qed

text \<open>An operation writes only the hooks of the nodes of the list and of the node it is given.\<close>

context ptr_compressor
begin

lemma dl_rep_neighbours:
  assumes "dl_rep pc valid (dl, h) xs"
  shows "dl_head dl = Some a \<Longrightarrow> a \<in> set xs" and "dl_tail dl = Some a \<Longrightarrow> a \<in> set xs"
    and "x \<in> set xs \<Longrightarrow> DList_getNext dl h x = Some a \<Longrightarrow> a \<in> set xs"
    and "x \<in> set xs \<Longrightarrow> DList_getPrev dl h x = Some a \<Longrightarrow> a \<in> set xs"
proof -
  show "dl_head dl = Some a \<Longrightarrow> a \<in> set xs" "dl_tail dl = Some a \<Longrightarrow> a \<in> set xs"
    using assms by (auto simp: dl_rep_def first_ptr_in_set last_ptr_in_set)
  assume "x \<in> set xs"
  then obtain as bs where xs: "xs = as @ x # bs" by (auto simp: in_set_conv_decomp)
  have "dl_next pc h x = first_ptr bs None" "dl_prev pc h x = last_ptr None as" "has_compressor pc dl"
    using assms by (auto simp: dl_rep_def xs dlseg_append)
  then show "DList_getNext dl h x = Some a \<Longrightarrow> a \<in> set xs" "DList_getPrev dl h x = Some a \<Longrightarrow> a \<in> set xs"
    by (auto simp: xs dest: first_ptr_in_set last_ptr_in_set)
qed

lemma ops_frame:
  assumes "dl_rep pc valid s xs" and "a \<notin> set xs" and "a \<noteq> node"
  shows "snd (DList_linkAtHead node s) a = snd s a" and "snd (DList_linkAtTail node s) a = snd s a"
    and "x \<in> set xs \<Longrightarrow> snd (DList_insertBefore x node s) a = snd s a"
    and "node \<in> set xs \<Longrightarrow> snd (DList_unlink node s) a = snd s a"
    and "x \<in> set xs \<Longrightarrow> snd (DList_replace x node s) a = snd s a"
proof -
  obtain dl h where s: "s = (dl, h)" by (cases s)
  note N = dl_rep_neighbours [OF assms(1) [unfolded s]]
  show "snd (DList_linkAtHead node s) a = snd s a" "snd (DList_linkAtTail node s) a = snd s a"
    using N(1,2) assms(2,3) by (auto simp: s DList_linkAtHead_def DList_linkAtTail_def Let_def hook_writes split: option.splits)
  show "x \<in> set xs \<Longrightarrow> snd (DList_insertBefore x node s) a = snd s a"
    using N(4) assms(2,3) by (auto simp: s DList_insertBefore_def Let_def hook_writes split: option.splits)
  have ne: "DList_getNext dl h y \<noteq> Some a \<and> DList_getPrev dl h y \<noteq> Some a" if "y \<in> set xs" for y
    using N(3,4) [OF that] assms(2) by blast
  show "snd (DList_unlink node s) a = snd s a" if "node \<in> set xs"
    using ne [OF that] by (auto simp: s DList_unlink_def Let_def hook_writes simp del: dl_get split: option.splits)
  show "snd (DList_replace x node s) a = snd s a" if "x \<in> set xs"
    using ne [OF that] that assms(2,3)
    by (auto simp: s DList_replace_def Let_def hook_writes simp del: dl_get split: option.splits)
qed

lemma remove_frame:
  "dl_rep pc valid s xs \<Longrightarrow> node \<in> set xs \<Longrightarrow> a \<notin> set xs \<Longrightarrow> snd (DList_remove node s) a = snd s a"
  using ops_frame(4) [of s xs a node] by (auto simp: DList_remove_def hook_writes split: prod.splits)

lemma moveToHead_frame:
  assumes "dl_rep pc valid s xs" and "node \<in> set xs" and "a \<notin> set xs"
  shows "snd (DList_moveToHead node s) a = snd s a"
proof -
  obtain as bs where xs: "xs = as @ node # bs" using assms(2) by (auto simp: in_set_conv_decomp)
  have "dl_rep pc valid (DList_unlink node s) (as @ bs)" using assms(1) unfolding xs by (rule unlink_rep)
  then show ?thesis
    using ops_frame(1) [of "DList_unlink node s" "as @ bs" a node] ops_frame(4) [OF assms(1,3), of node] assms(2,3)
    by (auto simp: DList_moveToHead_def xs)
qed

end

section \<open>Iteration\<close>

context ptr_compressor
begin

lemma iterate_head:
  assumes "dl_rep pc valid (dl, h) xs" and "k \<le> length xs"
  shows "(Iterator_inc dl h ^^ k) (DList_begin dl) =
           \<lparr>it_curr = (if k < length xs then Some (xs ! k) else None), it_dir = FROM_HEAD\<rparr>"
  using assms(2)
proof (induction k)
  case 0
  then show ?case using assms(1) by (auto simp: DList_begin_def dl_rep_def first_ptr_def nth_Cons' split: list.splits)
next
  case (Suc k)
  then have "has_compressor pc dl" "dl_next pc h (xs ! k) = (if Suc k < length xs then Some (xs ! Suc k) else None)"
    using assms(1) dlseg_nth(1) [of "dl_next pc h" "dl_prev pc h" None xs None k] by (auto simp: dl_rep_def)
  then show ?case using Suc by (simp add: Iterator_inc_def Iterator_goForward_def)
qed

lemma iterate_tail:
  assumes "dl_rep pc valid (dl, h) xs" and "k \<le> length xs"
  shows "(Iterator_inc dl h ^^ k) (DList_rbegin dl) =
           \<lparr>it_curr = (if k < length xs then Some (rev xs ! k) else None), it_dir = FROM_TAIL\<rparr>"
  using assms(2)
proof (induction k)
  case 0
  then show ?case using assms(1)
    by (auto simp: DList_rbegin_def dl_rep_def last_ptr_def rev_nth last_conv_nth)
next
  case (Suc k)
  then have "has_compressor pc dl"
    "dl_prev pc h (xs ! (length xs - Suc k)) = (if length xs - Suc k = 0 then None else Some (xs ! (length xs - Suc k - 1)))"
    using assms(1) dlseg_nth(2) [of "dl_next pc h" "dl_prev pc h" None xs None "length xs - Suc k"] by (auto simp: dl_rep_def)
  then show ?case using Suc by (auto simp: Iterator_inc_def Iterator_goForward_def rev_nth)
qed

lemma save_restore:
  assumes "dl_rep pc valid (dl, h) xs" and "\<And>c. deser (ser c) = c"
  shows "DList_restore deser (DList_saveState ser dl) pc = dl"
proof -
  have "set_option (dl_head dl) \<subseteq> valid" "set_option (dl_tail dl) \<subseteq> valid"
    using assms(1) by (auto simp: dl_rep_def dest: first_ptr_in_set last_ptr_in_set)
  then show ?thesis
    using assms by (simp add: dl_rep_def has_compressor_def DList_restore_def DList_saveState_def unCompress_ptr)
qed

end

section \<open>The list over compressed slab pointers\<close>

abbreviation rep4 :: "SlabAllocator \<Rightarrow> CompressedPtr4B DList \<times> CompressedPtr4B hooks \<Rightarrow> addr list \<Rightarrow> bool" where
  "rep4 sa \<equiv> dl_rep (createPtrCompressor cptr4 sa False) (valid_allocs cptr4 sa)"


definition example_list :: "CompressedPtr4B DList \<times> CompressedPtr4B hooks" where
  "example_list = DList_linkAtHead (2 * kSize + 200)
     (new_DList (createPtrCompressor cptr4 example_sa2 False), \<lambda>_. \<lparr>dh_next = kNull4, dh_prev = kNull4, dh_updateTime = 0\<rparr>)"

lemma example_list_rep: "rep4 example_sa2 example_list [2 * kSize + 200]"
  unfolding example_list_def
  using compressor4.linkAtHead_rep [OF dl_rep_new] example_valid_alloc [of 2] by simp


text \<open>
  C31. Iteration terminates and is faithful: the \<open>k\<close>-th increment of the iterator from the
  head is at the \<open>k\<close>-th node, from the tail at the \<open>k\<close>-th node from the end, and after
  exactly as many increments as there are nodes the iterator equals \<open>end()\<close> or \<open>rend()\<close>.
  A list restored from its saved state is the same list.
\<close>

theorem dlist_iteration:
  assumes "rep4 sa (dl, h) xs"
  shows "(\<forall>k. k < length xs \<longrightarrow> it_curr ((Iterator_inc dl h ^^ k) (DList_begin dl)) = Some (xs ! k) \<and>
                              it_curr ((Iterator_inc dl h ^^ k) (DList_rbegin dl)) = Some (rev xs ! k)) \<and>
         (Iterator_inc dl h ^^ length xs) (DList_begin dl) = DList_end \<and>
         (Iterator_inc dl h ^^ length xs) (DList_rbegin dl) = DList_rend \<and>
         DList_restore restore4 (DList_saveState saveState4 dl) (createPtrCompressor cptr4 sa False) = dl"
proof -
  show ?thesis
    using compressor4.iterate_head [OF assms] compressor4.iterate_tail [OF assms]
      compressor4.save_restore [OF assms, of restore4 saveState4] restore4_saveState4
    by (simp add: DList_end_def DList_rend_def)
qed

theorem dlist_iteration_witness:
  "(Iterator_inc (fst example_list) (snd example_list) ^^ 1) (DList_begin (fst example_list)) = DList_end"
  using dlist_iteration [of example_sa2 "fst example_list" "snd example_list" "[2 * kSize + 200]"] example_list_rep
  by simp

end
