(* ===== verification/MultiDList.thy ===== *)
theory MultiDList
  imports DList
begin

text \<open>
  Several doubly linked lists over one set of hooks, with an iterator that walks them as one
  sequence: \<open>cachelib/allocator/datastruct/MultiDList.h\<close>. The iterator starts at the tail of
  the last list and goes towards the head of the first. Its index is a \<open>size_t\<close> that wraps
  below 0 to the invalid index, as in the source.
\<close>

type_synonym 'c MultiDList = "'c DList list"

definition new_MultiDList :: "nat \<Rightarrow> 'c PtrCompressor \<Rightarrow> 'c MultiDList" where
  "new_MultiDList numLists compressor = replicate numLists (new_DList compressor)"

definition MultiDList_restore :: "(u64 \<Rightarrow> 'c) \<Rightarrow> DListObject list \<Rightarrow> 'c PtrCompressor \<Rightarrow> 'c MultiDList" where
  "MultiDList_restore deser object compressor = map (\<lambda>l. DList_restore deser l compressor) object"

definition MultiDList_saveState :: "('c \<Rightarrow> u64) \<Rightarrow> 'c MultiDList \<Rightarrow> DListObject list" where
  "MultiDList_saveState ser ls = map (DList_saveState ser) ls"

definition MultiDList_getList :: "'c MultiDList \<Rightarrow> nat \<Rightarrow> 'c DList" where
  "MultiDList_getList ls i = ls ! i"

definition MultiDList_size :: "'c MultiDList \<Rightarrow> size_t" where
  "MultiDList_size ls = fold (\<lambda>l sz. sz + dl_size l) ls 0"

definition MultiDList_insertEmptyListAt :: "nat \<Rightarrow> 'c PtrCompressor \<Rightarrow> 'c MultiDList \<Rightarrow> exn + 'c MultiDList" where
  "MultiDList_insertEmptyListAt pos compressor ls =
     (if pos > length ls then Inl invalid_argument
      else Inr (take pos ls @ new_DList compressor # drop pos ls))"

section \<open>The iterator\<close>

definition kInvalidIndex :: size_t where "kInvalidIndex = - 1"

record MultiDList_Iterator =
  mi_index :: size_t
  mi_currIter :: DList_Iterator

function initToValidRBeginFrom_index :: "'c MultiDList \<Rightarrow> size_t \<Rightarrow> size_t" where
  "initToValidRBeginFrom_index ls i =
     (if i \<noteq> kInvalidIndex \<and> dl_size (ls ! unat i) = 0
      then (if i = 0 then kInvalidIndex else initToValidRBeginFrom_index ls (i - 1))
      else i)"
  by pat_completeness auto
termination
  by (relation "measure (\<lambda>(ls, i). unat i)") (auto simp: unat_minus_one unat_gt_0)

declare initToValidRBeginFrom_index.simps [simp del]

definition initToValidRBeginFrom :: "'c MultiDList \<Rightarrow> size_t \<Rightarrow> MultiDList_Iterator" where
  "initToValidRBeginFrom ls listIdx =
     (let i = initToValidRBeginFrom_index ls listIdx
      in \<lparr>mi_index = i,
          mi_currIter = (if i = kInvalidIndex then DList_rend else DList_rbegin (ls ! unat i))\<rparr>)"

definition MultiDList_rbegin :: "'c MultiDList \<Rightarrow> MultiDList_Iterator" where
  "MultiDList_rbegin ls = initToValidRBeginFrom ls (of_nat (length ls) - 1)"

definition MultiDList_rbeginAt :: "nat \<Rightarrow> 'c MultiDList \<Rightarrow> exn + MultiDList_Iterator" where
  "MultiDList_rbeginAt listIdx ls =
     (if listIdx \<ge> length ls then Inl invalid_argument else Inr (initToValidRBeginFrom ls (of_nat listIdx)))"

definition MultiIterator_reset :: "MultiDList_Iterator \<Rightarrow> MultiDList_Iterator" where
  "MultiIterator_reset it = it\<lparr>mi_index := kInvalidIndex, mi_currIter := DList_rend\<rparr>"

definition MultiDList_rend :: "'c MultiDList \<Rightarrow> MultiDList_Iterator" where
  "MultiDList_rend ls = MultiIterator_reset (MultiDList_rbegin ls)"

definition MultiIterator_valid :: "'c MultiDList \<Rightarrow> MultiDList_Iterator \<Rightarrow> bool" where
  "MultiIterator_valid ls it \<longleftrightarrow> unat (mi_index it) < length ls"

text \<open>The loop of \<open>goForward\<close>: while at the end of a list, go to the tail of the one before.\<close>

function goForward_skip :: "'c MultiDList \<Rightarrow> size_t \<Rightarrow> DList_Iterator \<Rightarrow> MultiDList_Iterator" where
  "goForward_skip ls i it =
     (if i \<noteq> kInvalidIndex \<and> it = DList_rend
      then (if i = 0 then \<lparr>mi_index = kInvalidIndex, mi_currIter = it\<rparr>
            else goForward_skip ls (i - 1) (DList_rbegin (ls ! unat (i - 1))))
      else \<lparr>mi_index = i, mi_currIter = it\<rparr>)"
  by pat_completeness auto
termination
  by (relation "measure (\<lambda>(ls, i, it). unat i)") (auto simp: unat_minus_one unat_gt_0)

declare goForward_skip.simps [simp del]

definition MultiIterator_goForward :: "'c MultiDList \<Rightarrow> 'c hooks \<Rightarrow> MultiDList_Iterator \<Rightarrow> MultiDList_Iterator" where
  "MultiIterator_goForward ls h it =
     (if mi_index it = kInvalidIndex then it
      else goForward_skip ls (mi_index it) (Iterator_inc (ls ! unat (mi_index it)) h (mi_currIter it)))"

text \<open>The loop of \<open>goBackward\<close>: while at the tail of a list, go to the head of the next one.\<close>

function goBackward_skip :: "'c MultiDList \<Rightarrow> nat \<Rightarrow> DList_Iterator \<Rightarrow> nat \<times> DList_Iterator" where
  "goBackward_skip ls i it =
     (if i < length ls \<and> it = DList_rbegin (ls ! i)
      then goBackward_skip ls (Suc i)
             (if Suc i < length ls then \<lparr>it_curr = dl_head (ls ! Suc i), it_dir = FROM_TAIL\<rparr> else it)
      else (i, it))"
  by pat_completeness auto
termination
  by (relation "measure (\<lambda>(ls, i, it). length ls - i)") auto

declare goBackward_skip.simps [simp del]

text \<open>Going backward from \<open>rend()\<close> reads the list at the invalid index.\<close>

definition MultiIterator_goBackward ::
  "'c MultiDList \<Rightarrow> 'c hooks \<Rightarrow> MultiDList_Iterator \<Rightarrow> exn + MultiDList_Iterator" where
  "MultiIterator_goBackward ls h it =
     (let i = unat (mi_index it) in
      if i = length ls then Inr it
      else if i > length ls then Inl undefined_behaviour
      else if mi_currIter it \<noteq> DList_rbegin (ls ! i)
      then Inr (it\<lparr>mi_currIter := Iterator_dec (ls ! i) h (mi_currIter it)\<rparr>)
      else (case goBackward_skip ls i (mi_currIter it) of
              (j, c) \<Rightarrow> Inr \<lparr>mi_index = of_nat j, mi_currIter = c\<rparr>))"

section \<open>Walking forward\<close>

text \<open>The lists stand for the address lists \<open>xss\<close>; they share the store of hooks.\<close>

definition ml_rep :: "'c PtrCompressor \<Rightarrow> addr set \<Rightarrow> 'c MultiDList \<Rightarrow> 'c hooks \<Rightarrow> addr list list \<Rightarrow> bool" where
  "ml_rep pc valid ls h xss \<longleftrightarrow>
     length ls = length xss \<and> length ls < 2 ^ 63 \<and> distinct (concat xss) \<and> length (concat xss) < 2 ^ 63 \<and>
     (\<forall>i < length ls. dl_rep pc valid (ls ! i, h) (xss ! i))"

text \<open>The iterator is at the start of the part \<open>zs\<close> of the walk still to be done.\<close>

definition mi_at :: "addr list list \<Rightarrow> MultiDList_Iterator \<Rightarrow> addr list \<Rightarrow> bool" where
  "mi_at xss it zs \<longleftrightarrow>
     (if zs = [] then mi_index it = kInvalidIndex \<and> mi_currIter it = DList_rend
      else \<exists>as bs. unat (mi_index it) < length xss \<and> xss ! unat (mi_index it) = as @ hd zs # bs \<and>
             mi_currIter it = \<lparr>it_curr = Some (hd zs), it_dir = FROM_TAIL\<rparr> \<and>
             tl zs = rev as @ rev (concat (take (unat (mi_index it)) xss)))"

lemma index_unat: "i < 2 ^ 63 \<Longrightarrow> unat (of_nat i :: size_t) = i" "i < 2 ^ 63 \<Longrightarrow> (of_nat i :: size_t) \<noteq> kInvalidIndex"
proof -
  assume i: "i < 2 ^ 63"
  then show u: "unat (of_nat i :: size_t) = i" by (simp add: unsigned_of_nat take_bit_nat_eq_self)
  have "unat kInvalidIndex = 2 ^ 64 - 1"
    by (simp add: kInvalidIndex_def unsigned_minus_1_eq_mask mask_eq_exp_minus_1)
  then show "(of_nat i :: size_t) \<noteq> kInvalidIndex" using u i by auto
qed

lemma rep_rbegin:
  assumes "dl_rep pc valid (dl, h) xs"
  shows "DList_rbegin dl = \<lparr>it_curr = last_ptr None xs, it_dir = FROM_TAIL\<rparr>"
    and "DList_rbegin dl = DList_rend \<longleftrightarrow> xs = []"
    and "length xs < 2 ^ 63 \<Longrightarrow> dl_size dl = 0 \<longleftrightarrow> xs = []"
proof -
  show "DList_rbegin dl = \<lparr>it_curr = last_ptr None xs, it_dir = FROM_TAIL\<rparr>" "DList_rbegin dl = DList_rend \<longleftrightarrow> xs = []"
    using assms by (simp_all add: DList_rbegin_def DList_rend_def dl_rep_def)
  assume "length xs < 2 ^ 63"
  then have "unat (of_nat (length xs) :: size_t) = length xs" by (rule index_unat(1))
  then show "dl_size dl = 0 \<longleftrightarrow> xs = []"
    using assms by (auto simp: dl_rep_def)
qed

lemma ml_repD:
  assumes "ml_rep pc valid ls h xss" and "i < length ls"
  shows "dl_rep pc valid (ls ! i, h) (xss ! i)" and "i < length xss" and "i < 2 ^ 63"
    and "length (xss ! i) < 2 ^ 63" and "length xss = length ls"
proof -
  show r: "dl_rep pc valid (ls ! i, h) (xss ! i)" "i < length xss" "i < 2 ^ 63" "length xss = length ls"
    using assms by (auto simp: ml_rep_def)
  have "concat xss = concat (take i xss) @ xss ! i @ concat (drop (Suc i) xss)"
    using id_take_nth_drop [OF r(2)] by (metis concat.simps(2) concat_append)
  then have "length (xss ! i) \<le> length (concat xss)" by (metis length_append le_add1 le_add2 order_trans)
  then show "length (xss ! i) < 2 ^ 63" using assms(1) by (simp add: ml_rep_def)
qed

lemma mi_at_tail:
  assumes "i < length xss" and "i < 2 ^ 63" and "xss ! i \<noteq> []"
  shows "mi_at xss \<lparr>mi_index = of_nat i, mi_currIter = \<lparr>it_curr = last_ptr None (xss ! i), it_dir = FROM_TAIL\<rparr>\<rparr>
           (rev (concat (take (Suc i) xss)))"
proof -
  obtain as z where z: "xss ! i = as @ [z]" using assms(3) by (metis append_butlast_last_id)
  then have t: "rev (concat (take (Suc i) xss)) = z # rev as @ rev (concat (take i xss))"
    using assms(1) by (simp add: take_Suc_conv_app_nth)
  show ?thesis unfolding mi_at_def t using z assms by (simp add: index_unat)
qed

lemma pred_index: "Suc j < 2 ^ 63 \<Longrightarrow> (of_nat (Suc j) :: size_t) - 1 = of_nat j" "Suc j < 2 ^ 63 \<Longrightarrow> (of_nat (Suc j) :: size_t) \<noteq> 0"
proof -
  show "(of_nat (Suc j) :: size_t) - 1 = of_nat j" by simp
  assume "Suc j < 2 ^ 63"
  then show "(of_nat (Suc j) :: size_t) \<noteq> 0" using index_unat(1) [of "Suc j"] by (metis nat.distinct(1) unsigned_0)
qed

lemma goForward_skip_stop: "it \<noteq> DList_rend \<Longrightarrow> goForward_skip ls i it = \<lparr>mi_index = i, mi_currIter = it\<rparr>"
  by (subst goForward_skip.simps) simp

lemma skip_at:
  assumes "ml_rep pc valid ls h xss" and "i < length ls"
  shows "mi_at xss (goForward_skip ls (of_nat i) (DList_rbegin (ls ! i))) (rev (concat (take (Suc i) xss)))"
  using assms(2)
proof (induction i)
  case (0)
  note D = ml_repD [OF assms(1) 0]
  show ?case
  proof (cases "xss ! 0 = []")
    case True
    then have "rev (concat (take (Suc 0) xss)) = []" using D(2) by (cases xss) auto
    moreover have "DList_rbegin (ls ! 0) = DList_rend" using rep_rbegin(2) [OF D(1)] True by simp
    ultimately show ?thesis
      by (subst goForward_skip.simps) (simp add: mi_at_def kInvalidIndex_def)
  next
    case False
    then have "DList_rbegin (ls ! 0) \<noteq> DList_rend" using rep_rbegin(2) [OF D(1)] by simp
    then show ?thesis using mi_at_tail [OF D(2,3) False] rep_rbegin(1) [OF D(1)]
      by (simp only: goForward_skip_stop simp_thms)
  qed
next
  case (Suc j)
  note D = ml_repD [OF assms(1) Suc.prems]
  note P = pred_index [OF D(3)]
  show ?case
  proof (cases "xss ! Suc j = []")
    case True
    then have t: "rev (concat (take (Suc (Suc j)) xss)) = rev (concat (take (Suc j) xss))"
      using D(2) by (simp add: take_Suc_conv_app_nth)
    have e: "DList_rbegin (ls ! Suc j) = DList_rend" using rep_rbegin(2) [OF D(1)] True by simp
    define w where "w = (of_nat (Suc j) :: size_t)"
    have "w - 1 = of_nat j" "w \<noteq> 0" "w \<noteq> kInvalidIndex" "unat (of_nat j :: size_t) = j"
      unfolding w_def using P index_unat(2) [OF D(3)] D(3) by (auto intro: index_unat)
    then have "goForward_skip ls w (DList_rbegin (ls ! Suc j)) = goForward_skip ls (of_nat j) (DList_rbegin (ls ! j))"
      by (subst goForward_skip.simps) (simp add: e)
    then show ?thesis using Suc t by (simp only: w_def Suc_lessD)
  next
    case False
    then have "DList_rbegin (ls ! Suc j) \<noteq> DList_rend" using rep_rbegin(2) [OF D(1)] by simp
    then show ?thesis using mi_at_tail [OF D(2,3) False] rep_rbegin(1) [OF D(1)]
      by (simp only: goForward_skip_stop simp_thms)
  qed
qed

lemma init_at:
  assumes "ml_rep pc valid ls h xss" and "i < length ls"
  shows "mi_at xss (initToValidRBeginFrom ls (of_nat i)) (rev (concat (take (Suc i) xss)))"
  using assms(2)
proof (induction i)
  case 0
  note D = ml_repD [OF assms(1) 0]
  have i: "initToValidRBeginFrom_index ls 0 = (if xss ! 0 = [] then kInvalidIndex else 0)"
    using rep_rbegin(3) [OF D(1,4)] by (subst initToValidRBeginFrom_index.simps) (simp add: kInvalidIndex_def)
  have "concat (take (Suc 0) xss) = xss ! 0" using D(2) by (cases xss) auto
  then show ?case
    using i mi_at_tail [OF D(2,3)] rep_rbegin(1) [OF D(1)]
    by (auto simp: initToValidRBeginFrom_def Let_def mi_at_def kInvalidIndex_def)
next
  case (Suc j)
  note D = ml_repD [OF assms(1) Suc.prems]
  note P = pred_index [OF D(3)]
  define w where "w = (of_nat (Suc j) :: size_t)"
  have w: "w - 1 = of_nat j" "w \<noteq> 0" "w \<noteq> kInvalidIndex" "unat w = Suc j"
    unfolding w_def using P index_unat [OF D(3)] by auto
  show ?case
  proof (cases "xss ! Suc j = []")
    case True
    then have t: "rev (concat (take (Suc (Suc j)) xss)) = rev (concat (take (Suc j) xss))"
      using D(2) by (simp add: take_Suc_conv_app_nth)
    have "initToValidRBeginFrom_index ls w = initToValidRBeginFrom_index ls (of_nat j)"
      using rep_rbegin(3) [OF D(1,4)] True w by (subst initToValidRBeginFrom_index.simps) simp
    then have "initToValidRBeginFrom ls w = initToValidRBeginFrom ls (of_nat j)"
      by (simp add: initToValidRBeginFrom_def)
    then show ?thesis using Suc t by (simp only: w_def Suc_lessD)
  next
    case False
    have "initToValidRBeginFrom_index ls w = w"
      using rep_rbegin(3) [OF D(1,4)] False w by (subst initToValidRBeginFrom_index.simps) simp
    then have "initToValidRBeginFrom ls w = \<lparr>mi_index = w, mi_currIter = DList_rbegin (ls ! Suc j)\<rparr>"
      using w by (simp add: initToValidRBeginFrom_def Let_def)
    then show ?thesis using mi_at_tail [OF D(2,3) False] rep_rbegin(1) [OF D(1)] by (simp only: w_def)
  qed
qed

context ptr_compressor
begin

lemma forward_step:
  assumes "ml_rep pc valid ls h xss" and "mi_at xss it (z # zs)"
  shows "mi_at xss (MultiIterator_goForward ls h it) zs"
proof -
  define i where "i = unat (mi_index it)"
  obtain as bs where i: "i < length xss" and x: "xss ! i = as @ z # bs"
    and c: "mi_currIter it = \<lparr>it_curr = Some z, it_dir = FROM_TAIL\<rparr>"
    and zs: "zs = rev as @ rev (concat (take i xss))"
    using assms(2) by (auto simp: mi_at_def i_def)
  have il: "i < length ls" using i assms(1) by (simp add: ml_rep_def)
  note D = ml_repD [OF assms(1) il]
  have idx: "mi_index it = of_nat i" by (simp add: i_def)
  have ne: "mi_index it \<noteq> kInvalidIndex" unfolding idx by (rule index_unat(2) [OF D(3)])
  have "has_compressor pc (ls ! i)" "dl_prev pc h z = last_ptr None as"
    using D(1) by (auto simp: dl_rep_def x dlseg_append)
  then have inc: "Iterator_inc (ls ! i) h (mi_currIter it) = \<lparr>it_curr = last_ptr None as, it_dir = FROM_TAIL\<rparr>"
    by (simp add: c Iterator_inc_def Iterator_goForward_def)
  show ?thesis
  proof (cases as rule: rev_cases)
    case (snoc bs' a)
    then have "\<lparr>it_curr = last_ptr None as, it_dir = FROM_TAIL\<rparr> \<noteq> DList_rend" by (simp add: DList_rend_def)
    then have "MultiIterator_goForward ls h it = \<lparr>mi_index = of_nat i, mi_currIter = \<lparr>it_curr = Some a, it_dir = FROM_TAIL\<rparr>\<rparr>"
      using ne inc goForward_skip_stop snoc index_unat(1) [OF D(3)] by (simp add: MultiIterator_goForward_def idx)
    then show ?thesis using i x zs snoc index_unat(1) [OF D(3)] by (simp add: mi_at_def)
  next
    case Nil
    then have r: "\<lparr>it_curr = last_ptr None as, it_dir = FROM_TAIL\<rparr> = DList_rend" by (simp add: DList_rend_def)
    have g: "MultiIterator_goForward ls h it = goForward_skip ls (of_nat i) DList_rend"
      using ne inc r index_unat(1) [OF D(3)] by (simp add: MultiIterator_goForward_def idx)
    show ?thesis
    proof (cases i)
      case 0
      then show ?thesis using zs Nil
        by (simp add: g) (subst goForward_skip.simps, simp add: mi_at_def kInvalidIndex_def)
    next
      case (Suc j)
      have "j < length ls" "j < 2 ^ 63" using il D(3) Suc by simp_all
      define w where "w = (of_nat i :: size_t)"
      have "w - 1 = of_nat j" "w \<noteq> 0" "w \<noteq> kInvalidIndex" "unat (of_nat j :: size_t) = j"
        unfolding w_def using pred_index [of j] index_unat(2) [OF D(3)] index_unat(1) [OF \<open>j < 2 ^ 63\<close>] D(3) Suc by auto
      then have "goForward_skip ls w DList_rend = goForward_skip ls (of_nat j) (DList_rbegin (ls ! j))"
        by (subst goForward_skip.simps) simp
      then show ?thesis unfolding g w_def [symmetric]
        using skip_at [OF assms(1) \<open>j < length ls\<close>] zs Nil Suc by simp
    qed
  qed
qed

lemma forward_walk:
  assumes "ml_rep pc valid ls h xss" and "mi_at xss it zs" and "k \<le> length zs"
  shows "mi_at xss ((MultiIterator_goForward ls h ^^ k) it) (drop k zs)"
  using assms(3)
proof (induction k)
  case 0
  then show ?case using assms(2) by simp
next
  case (Suc k)
  then have "drop k zs = zs ! k # drop (Suc k) zs" by (simp add: Cons_nth_drop_Suc)
  with Suc show ?case using forward_step [OF assms(1)] by simp
qed

end

lemma MultiDList_size_fold: "fold (\<lambda>l sz. sz + dl_size l) ls n = n + sum_list (map dl_size ls)" for n :: size_t
  by (induction ls arbitrary: n) (simp_all add: algebra_simps)

lemma ml_rep_size: "ml_rep pc valid ls h xss \<Longrightarrow> MultiDList_size ls = of_nat (length (concat xss))"
proof -
  assume r: "ml_rep pc valid ls h xss"
  have "map dl_size ls = map (\<lambda>xs. of_nat (length xs)) xss"
    using r by (auto simp: ml_rep_def dl_rep_def intro!: nth_equalityI)
  moreover have "sum_list (map (\<lambda>xs. of_nat (length xs)) xss) = (of_nat (length (concat xss)) :: size_t)"
    by (induction xss) simp_all
  ultimately show ?thesis by (simp add: MultiDList_size_def MultiDList_size_fold)
qed

abbreviation multi_rep4 :: "SlabAllocator \<Rightarrow> CompressedPtr4B MultiDList \<Rightarrow> CompressedPtr4B hooks \<Rightarrow> addr list list \<Rightarrow> bool" where
  "multi_rep4 sa \<equiv> ml_rep (createPtrCompressor cptr4 sa False) (valid_allocs cptr4 sa)"


definition example_multi :: "CompressedPtr4B MultiDList \<times> CompressedPtr4B hooks" where
  "example_multi =
     (let (second, h) = DList_linkAtHead (2 * kSize + 300) (new_DList (createPtrCompressor cptr4 example_sa2 False), snd example_list)
      in ([fst example_list, second], h))"

lemma example_multi_rep: "multi_rep4 example_sa2 (fst example_multi) (snd example_multi) [[2 * kSize + 200], [2 * kSize + 300]]"
proof -
  let ?pc = "createPtrCompressor cptr4 example_sa2 False"
  obtain second h where l: "DList_linkAtHead (2 * kSize + 300) (new_DList ?pc, snd example_list) = (second, h)"
    by fastforce
  have new: "rep4 example_sa2 (new_DList ?pc, snd example_list) []" by (rule dl_rep_new)
  have r2: "rep4 example_sa2 (second, h) [2 * kSize + 300]"
    using compressor4.linkAtHead_rep [OF new, of "2 * kSize + 300"] example_valid_alloc [of 3] l by simp
  have "h (2 * kSize + 200) = snd example_list (2 * kSize + 200)"
    using compressor4.ops_frame(1) [OF new, of "2 * kSize + 200" "2 * kSize + 300"] l by simp
  then have r1: "rep4 example_sa2 (fst example_list, h) [2 * kSize + 200]"
    using example_list_rep
      dl_rep_hooks [of "[2 * kSize + 200]" "snd example_list" h _ _ "fst example_list"] by simp
  show ?thesis using r1 r2 by (auto simp: ml_rep_def example_multi_def l less_Suc_eq)
qed


section \<open>Walking backward\<close>

lemma goBackward_skip_bounds:
  "i \<le> length ls \<Longrightarrow> i \<le> fst (goBackward_skip ls i it) \<and> fst (goBackward_skip ls i it) \<le> length ls"
proof (induction ls i it rule: goBackward_skip.induct)
  case (1 ls i it)
  show ?case
  proof (cases "i < length ls \<and> it = DList_rbegin (ls ! i)")
    case True
    with "1.IH" [OF True] show ?thesis by (subst (1 2) goBackward_skip.simps) (simp del: split_paired_All)
  next
    case False
    then show ?thesis using "1.prems" by (subst (1 2) goBackward_skip.simps) auto
  qed
qed

text \<open>
  C38. \<open>operator--\<close> from the tail of a list goes to the head of the next one if that has at
  least two nodes, but never stops in a next list of exactly one node: its head is its tail,
  which the loop takes for a list to be skipped, so the node is left out of the walk.
\<close>

theorem multilist_backward_skips_singletons:
  assumes "multi_rep4 sa ls h xss" and "Suc i < length ls" and "xss ! i \<noteq> []"
    and "it = \<lparr>mi_index = of_nat i, mi_currIter = DList_rbegin (ls ! i)\<rparr>"
  shows "\<exists>it'. MultiIterator_goBackward ls h it = Inr it' \<and>
           (2 \<le> length (xss ! Suc i) \<longrightarrow> unat (mi_index it') = Suc i \<and> it_curr (mi_currIter it') = Some (hd (xss ! Suc i))) \<and>
           (length (xss ! Suc i) = 1 \<longrightarrow> Suc (Suc i) \<le> unat (mi_index it'))"
proof -
  have i: "i < length ls" "unat (of_nat i :: size_t) = i"
    using assms(2) ml_repD(3) [OF assms(1) Suc_lessD [OF assms(2)]] by (auto intro: index_unat)
  define c where "c = \<lparr>it_curr = dl_head (ls ! Suc i), it_dir = FROM_TAIL\<rparr>"
  note D = ml_repD [OF assms(1,2)]
  have step: "goBackward_skip ls i (DList_rbegin (ls ! i)) = goBackward_skip ls (Suc i) c"
    using i(1) assms(2) by (subst goBackward_skip.simps) (simp add: c_def)
  obtain j d where jd: "goBackward_skip ls (Suc i) c = (j, d)" by (cases "goBackward_skip ls (Suc i) c")
  have b: "MultiIterator_goBackward ls h it = Inr \<lparr>mi_index = of_nat j, mi_currIter = d\<rparr>"
    using i by (simp add: MultiIterator_goBackward_def assms(4) step jd)
  have c: "c = \<lparr>it_curr = first_ptr (xss ! Suc i) None, it_dir = FROM_TAIL\<rparr>"
    using D(1) by (simp add: c_def dl_rep_def)
  have "unat (of_nat j :: size_t) = j"
    using goBackward_skip_bounds [of "Suc i" ls c] assms(1,2) jd by (intro index_unat) (simp add: ml_rep_def)
  moreover have "j = Suc i \<and> d = c" if two: "2 \<le> length (xss ! Suc i)"
  proof -
    obtain x ys y where x: "xss ! Suc i = x # ys @ [y]"
      using two by (cases "xss ! Suc i"; cases "tl (xss ! Suc i)" rule: rev_cases) auto
    then have "x \<noteq> y" using D(1) by (simp add: dl_rep_def)
    then have "c \<noteq> DList_rbegin (ls ! Suc i)" unfolding c rep_rbegin(1) [OF D(1)] by (simp add: x)
    then show ?thesis using jd by (subst (asm) goBackward_skip.simps) simp
  qed
  moreover have "Suc (Suc i) \<le> j" if one: "length (xss ! Suc i) = 1"
  proof -
    obtain y where "xss ! Suc i = [y]" using one by (auto simp: length_Suc_conv)
    then have "c = DList_rbegin (ls ! Suc i)" unfolding c rep_rbegin(1) [OF D(1)] by simp
    then have "goBackward_skip ls (Suc i) c = goBackward_skip ls (Suc (Suc i))
        (if Suc (Suc i) < length ls then \<lparr>it_curr = dl_head (ls ! Suc (Suc i)), it_dir = FROM_TAIL\<rparr> else c)"
      using assms(2) by (subst goBackward_skip.simps) simp
    then show ?thesis using goBackward_skip_bounds [of "Suc (Suc i)" ls] assms(2) jd by (metis Suc_leI fst_conv)
  qed
  ultimately show ?thesis using b c by (auto simp: hd_conv_nth first_ptr_def split: list.splits)
qed

theorem multilist_backward_skips_singletons_witness:
  "\<exists>it'. MultiIterator_goBackward (fst example_multi) (snd example_multi)
            \<lparr>mi_index = of_nat 0, mi_currIter = DList_rbegin (fst example_multi ! 0)\<rparr> = Inr it' \<and>
         Suc (Suc 0) \<le> unat (mi_index it')"
proof -
  have "Suc 0 < length (fst example_multi)" using example_multi_rep by (simp add: ml_rep_def)
  from multilist_backward_skips_singletons [OF example_multi_rep this _ refl]
  obtain it' where "MultiIterator_goBackward (fst example_multi) (snd example_multi)
      \<lparr>mi_index = of_nat 0, mi_currIter = DList_rbegin (fst example_multi ! 0)\<rparr> = Inr it'" "Suc (Suc 0) \<le> unat (mi_index it')"
    by auto
  then show ?thesis by blast
qed

end
