(* ===== verification/SList.thy ===== *)
theory SList
  imports SlabAllocator
begin

text \<open>
  The intrusive singly linked list: \<open>cachelib/allocator/datastruct/SList.h\<close>, used for the
  free allocations of an allocation class. The hooks are a store indexed by address, as for
  the doubly linked list; \<open>sl_rep\<close> says which list of addresses a structure stands for. The
  loop that finds the tail of a list saved without one need not end on a corrupt list, so it
  is a partial function; it is proved to return on every proper list.
\<close>

record 'c SListHook =
  sh_next :: 'c

type_synonym 'c shooks = "addr \<Rightarrow> 'c SListHook"

record 'c SList =
  sl_compressor :: "'c PtrCompressor"
  sl_size :: size_t
  sl_head :: ptr
  sl_tail :: ptr

definition new_SList :: "'c PtrCompressor \<Rightarrow> 'c SList" where
  "new_SList compressor = \<lparr>sl_compressor = compressor, sl_size = 0, sl_head = None, sl_tail = None\<rparr>"

text \<open>Move assignment: this list takes over the nodes of \<open>rhs\<close>, which becomes empty.\<close>

definition SList_moveAssign :: "'c SList \<Rightarrow> 'c SList \<Rightarrow> 'c SList \<times> 'c SList" where
  "SList_moveAssign sl rhs =
     (sl\<lparr>sl_size := sl_size rhs, sl_head := sl_head rhs, sl_tail := sl_tail rhs\<rparr>,
      rhs\<lparr>sl_size := 0, sl_head := None, sl_tail := None\<rparr>)"

definition SListHook_getNext :: "'c PtrCompressor \<Rightarrow> 'c SListHook \<Rightarrow> ptr" where
  "SListHook_getNext compressor hk = pc_unCompress compressor (sh_next hk)"
definition SListHook_setNext :: "ptr \<Rightarrow> 'c PtrCompressor \<Rightarrow> 'c SListHook \<Rightarrow> 'c SListHook" where
  "SListHook_setNext node compressor hk = hk\<lparr>sh_next := pc_compress compressor node\<rparr>"
definition SList_getNext :: "'c SList \<Rightarrow> 'c shooks \<Rightarrow> addr \<Rightarrow> ptr" where
  "SList_getNext sl h node = SListHook_getNext (sl_compressor sl) (h node)"
definition SList_setNext :: "'c SList \<Rightarrow> addr \<Rightarrow> ptr \<Rightarrow> 'c shooks \<Rightarrow> 'c shooks" where
  "SList_setNext sl node n h = h(node := SListHook_setNext n (sl_compressor sl) (h node))"

definition SList_empty :: "'c SList \<Rightarrow> bool" where "SList_empty sl \<longleftrightarrow> sl_size sl = 0"
definition SList_getHead :: "'c SList \<Rightarrow> ptr" where
  "SList_getHead sl = (if SList_empty sl then None else sl_head sl)"

definition checkStateOrThrow :: "'c SList \<Rightarrow> exn + unit" where
  "checkStateOrThrow sl =
     (if sl_size sl = 0 \<and> sl_head sl \<noteq> None \<or> sl_head sl = None \<and> sl_size sl \<noteq> 0 then Inl invalid_argument
      else if (sl_head sl = None) \<noteq> (sl_tail sl = None) then Inl invalid_argument
      else Inr ())"

definition SList_insert :: "addr \<Rightarrow> 'c SList \<times> 'c shooks \<Rightarrow> 'c SList \<times> 'c shooks" where
  "SList_insert node = (\<lambda>(sl, h).
     let h1 = SList_setNext sl node (sl_head sl) h;
         sl1 = sl\<lparr>sl_head := Some node, sl_size := sl_size sl + 1\<rparr>;
         sl2 = (if sl_tail sl1 = None then sl1\<lparr>sl_tail := sl_head sl1\<rparr> else sl1)
     in (sl2, h1))"

definition SList_pop :: "'c SList \<times> 'c shooks \<Rightarrow> exn + 'c SList \<times> 'c shooks" where
  "SList_pop = (\<lambda>(sl, h).
     if SList_empty sl then Inl logic_error
     else case sl_head sl of
            None \<Rightarrow> Inl undefined_behaviour
          | Some node \<Rightarrow>
              let sl1 = sl\<lparr>sl_head := SList_getNext sl h node, sl_size := sl_size sl - 1\<rparr>;
                  sl2 = (if sl_head sl1 = None then sl1\<lparr>sl_tail := None\<rparr> else sl1)
              in ebind (checkStateOrThrow sl2) (\<lambda>_. Inr (sl2, SList_setNext sl2 node None h)))"

text \<open>\<open>splice(other)\<close> returns this list, the other list and the hooks.\<close>

definition SList_splice :: "'c SList \<Rightarrow> 'c SList \<Rightarrow> 'c shooks \<Rightarrow> 'c SList \<times> 'c SList \<times> 'c shooks" where
  "SList_splice sl other h =
     (if SList_empty other then (sl, other, h)
      else let h1 = (case sl_tail other of None \<Rightarrow> h | Some t \<Rightarrow> SList_setNext sl t (sl_head sl) h);
               sl1 = sl\<lparr>sl_head := sl_head other, sl_size := sl_size sl + sl_size other\<rparr>;
               sl2 = (if sl_tail sl1 = None then sl1\<lparr>sl_tail := sl_tail other\<rparr> else sl1)
           in (sl2, other\<lparr>sl_head := None, sl_size := 0, sl_tail := None\<rparr>, h1))"

text \<open>An iterator; \<open>si_belongs\<close> says whether it was made from the list it is used on.\<close>

record SList_Iterator =
  si_curr :: ptr
  si_prev :: ptr
  si_belongs :: bool

definition SList_begin :: "'c SList \<Rightarrow> SList_Iterator" where
  "SList_begin sl = \<lparr>si_curr = sl_head sl, si_prev = None, si_belongs = True\<rparr>"
definition SList_end :: SList_Iterator where
  "SList_end = \<lparr>si_curr = None, si_prev = None, si_belongs = True\<rparr>"

definition SIterator_eq :: "SList_Iterator \<Rightarrow> SList_Iterator \<Rightarrow> bool" where
  "SIterator_eq a b \<longleftrightarrow> si_belongs a = si_belongs b \<and> si_curr a = si_curr b"

definition SIterator_goForward :: "'c SList \<Rightarrow> 'c shooks \<Rightarrow> addr \<Rightarrow> SList_Iterator \<Rightarrow> SList_Iterator" where
  "SIterator_goForward sl h c it = it\<lparr>si_prev := Some c, si_curr := SList_getNext sl h c\<rparr>"
definition SIterator_inc :: "'c SList \<Rightarrow> 'c shooks \<Rightarrow> SList_Iterator \<Rightarrow> SList_Iterator" where
  "SIterator_inc sl h it = (case si_curr it of None \<Rightarrow> it | Some c \<Rightarrow> SIterator_goForward sl h c it)"

definition SList_remove ::
  "SList_Iterator \<Rightarrow> 'c SList \<times> 'c shooks \<Rightarrow> exn + SList_Iterator \<times> 'c SList \<times> 'c shooks" where
  "SList_remove it = (\<lambda>(sl, h).
     if \<not> si_belongs it then Inl logic_error
     else case si_curr it of
       None \<Rightarrow> Inl logic_error
     | Some cur \<Rightarrow>
         let nxt = SList_getNext sl h cur in
         ebind (case si_prev it of
                  None \<Rightarrow> SList_pop (sl, h)
                | Some prev \<Rightarrow>
                    let h1 = SList_setNext sl prev nxt h;
                        sl1 = sl\<lparr>sl_size := sl_size sl - 1\<rparr>;
                        sl2 = (if sl_tail sl1 = Some cur then sl1\<lparr>sl_tail := Some prev\<rparr> else sl1)
                    in ebind (checkStateOrThrow sl2) (\<lambda>_. Inr (sl2, SList_setNext sl2 cur None h1)))
               (\<lambda>s. Inr (\<lparr>si_curr = nxt, si_prev = si_prev it, si_belongs = True\<rparr>, s)))"

section \<open>Saving and restoring\<close>

record SListObject =
  slo_size :: u64
  slo_compressedHead :: u64
  slo_compressedTail :: u64

definition SList_saveState :: "('c \<Rightarrow> u64) \<Rightarrow> 'c SList \<Rightarrow> SListObject" where
  "SList_saveState ser sl =
     \<lparr>slo_size = sl_size sl, slo_compressedHead = ser (pc_compress (sl_compressor sl) (sl_head sl)),
      slo_compressedTail = ser (pc_compress (sl_compressor sl) (sl_tail sl))\<rparr>"

partial_function (option) SList_findTail :: "'c SList \<Rightarrow> 'c shooks \<Rightarrow> addr \<Rightarrow> addr option" where
  "SList_findTail sl h tail =
     (case SList_getNext sl h tail of None \<Rightarrow> Some tail | Some n \<Rightarrow> SList_findTail sl h n)"

text \<open>\<open>None\<close>: the search for the tail never ends. Objects of older versions have tail \<open>-1\<close>.\<close>

definition SList_restore ::
  "(u64 \<Rightarrow> 'c) \<Rightarrow> SListObject \<Rightarrow> 'c PtrCompressor \<Rightarrow> 'c shooks \<Rightarrow> (exn + 'c SList) option" where
  "SList_restore deser object compressor h =
     (let sl = \<lparr>sl_compressor = compressor, sl_size = slo_size object,
                sl_head = pc_unCompress compressor (deser (slo_compressedHead object)), sl_tail = None\<rparr>
      in map_option (\<lambda>t. let sl1 = sl\<lparr>sl_tail := t\<rparr> in ebind (checkStateOrThrow sl1) (\<lambda>_. Inr sl1))
           (if sint (slo_compressedTail object) \<ge> 0
            then Some (pc_unCompress compressor (deser (slo_compressedTail object)))
            else case sl_head sl of
                   None \<Rightarrow> Some None
                 | Some hn \<Rightarrow> map_option Some (SList_findTail sl h hn)))"

section \<open>What a list stands for\<close>

fun slseg :: "(addr \<Rightarrow> ptr) \<Rightarrow> addr list \<Rightarrow> ptr \<Rightarrow> bool" where
  "slseg nx [] n = True"
| "slseg nx (x # xs) n = (nx x = first_ptr xs n \<and> slseg nx xs n)"

lemma slseg_append: "slseg nx (xs @ ys) n \<longleftrightarrow> slseg nx xs (first_ptr ys n) \<and> slseg nx ys n"
  by (induction xs) auto

lemma slseg_frame [simp]: "a \<notin> set xs \<Longrightarrow> slseg (nx(a := v)) xs n = slseg nx xs n"
  by (induction xs) auto

definition sl_next :: "'c PtrCompressor \<Rightarrow> 'c shooks \<Rightarrow> addr \<Rightarrow> ptr" where
  "sl_next pc h a = SListHook_getNext pc (h a)"

definition sl_has_compressor :: "'c PtrCompressor \<Rightarrow> 'c SList \<Rightarrow> bool" where
  "sl_has_compressor pc sl \<longleftrightarrow> sl_compressor sl = pc"

definition sl_rep :: "'c PtrCompressor \<Rightarrow> addr set \<Rightarrow> 'c SList \<times> 'c shooks \<Rightarrow> addr list \<Rightarrow> bool" where
  "sl_rep pc valid s xs \<longleftrightarrow>
     sl_has_compressor pc (fst s) \<and> set xs \<subseteq> valid \<and> distinct xs \<and> length xs < 2 ^ 64 \<and>
     sl_head (fst s) = first_ptr xs None \<and> sl_tail (fst s) = last_ptr None xs \<and>
     sl_size (fst s) = of_nat (length xs) \<and> slseg (sl_next pc (snd s)) xs None"

lemma sl_has_compressor_frame [simp]:
  "sl_has_compressor pc (sl\<lparr>sl_head := a\<rparr>) = sl_has_compressor pc sl"
  "sl_has_compressor pc (sl\<lparr>sl_tail := a\<rparr>) = sl_has_compressor pc sl"
  "sl_has_compressor pc (sl\<lparr>sl_size := n\<rparr>) = sl_has_compressor pc sl"
  "sl_has_compressor pc (sl\<lparr>sl_head := a, sl_size := n\<rparr>) = sl_has_compressor pc sl"
  "sl_has_compressor pc (sl\<lparr>sl_size := n, sl_head := a\<rparr>) = sl_has_compressor pc sl"
  by (simp_all add: sl_has_compressor_def)

lemma size_zero: "length xs < 2 ^ 64 \<Longrightarrow> (of_nat (length xs) :: size_t) = 0 \<longleftrightarrow> xs = []"
proof -
  assume "length xs < 2 ^ 64"
  then have "unat (of_nat (length xs) :: size_t) = length xs"
    by (simp add: unsigned_of_nat take_bit_nat_eq_self)
  then show ?thesis by (cases xs) auto
qed

lemma sl_rep_new: "sl_rep pc valid (new_SList pc, h) []"
  by (simp add: sl_rep_def new_SList_def sl_has_compressor_def)

context ptr_compressor
begin

lemma sl_next_setNext [simp]:
  "sl_has_compressor pc sl \<Longrightarrow> set_option q \<subseteq> valid \<Longrightarrow> sl_next pc (SList_setNext sl a q h) = (sl_next pc h)(a := q)"
  by (auto simp: fun_eq_iff sl_next_def SList_setNext_def SListHook_setNext_def SListHook_getNext_def
      unCompress_ptr sl_has_compressor_def)

lemma sl_get [simp]: "sl_has_compressor pc sl \<Longrightarrow> SList_getNext sl h a = sl_next pc h a"
  by (simp add: SList_getNext_def sl_next_def sl_has_compressor_def)

lemma sl_empty: "sl_rep pc valid (sl, h) xs \<Longrightarrow> SList_empty sl \<longleftrightarrow> xs = []"
  by (auto simp: SList_empty_def sl_rep_def size_zero)

lemma insert_rep:
  assumes "sl_rep pc valid s xs" and "node \<in> valid" and "node \<notin> set xs" and "Suc (length xs) < 2 ^ 64"
  shows "sl_rep pc valid (SList_insert node s) (node # xs)"
  using assms by (cases s; cases xs) (simp_all add: sl_rep_def SList_insert_def Let_def)

lemma checkState_rep: "sl_rep pc valid (sl, h) xs \<Longrightarrow> checkStateOrThrow sl = Inr ()"
  using size_zero [of xs] by (auto simp: sl_rep_def checkStateOrThrow_def)

lemma pop_rep:
  assumes "sl_rep pc valid s (x # xs)"
  shows "\<exists>s'. SList_pop s = Inr s' \<and> sl_rep pc valid s' xs \<and> sl_next pc (snd s') x = None \<and>
           (\<forall>a. a \<noteq> x \<longrightarrow> snd s' a = snd s a)"
proof -
  obtain sl h where s: "s = (sl, h)" by (cases s)
  let ?sl1 = "sl\<lparr>sl_head := first_ptr xs None, sl_size := sl_size sl - 1\<rparr>"
  define sl2 where "sl2 = (if xs = [] then ?sl1\<lparr>sl_tail := None\<rparr> else ?sl1)"
  have ne: "\<not> SList_empty sl" using assms s sl_empty by blast
  have r: "sl_rep pc valid (sl2, h) xs"
    using assms unfolding s sl_rep_def sl2_def by (cases xs) simp_all
  then have chk: "checkStateOrThrow sl2 = Inr ()" by (rule checkState_rep)
  have hc: "sl_has_compressor pc sl2" using r by (simp add: sl_rep_def)
  have "SList_pop s = Inr (sl2, SList_setNext sl2 x None h)"
    using assms ne chk unfolding s
    by (cases xs) (simp_all add: SList_pop_def sl_rep_def Let_def sl2_def)
  moreover have "sl_rep pc valid (sl2, SList_setNext sl2 x None h) xs"
    using r assms by (simp add: sl_rep_def s)
  moreover have "sl_next pc (SList_setNext sl2 x None h) x = None" using hc by simp
  moreover have "SList_setNext sl2 x None h a = h a" if "a \<noteq> x" for a using that by (simp add: SList_setNext_def)
  ultimately show ?thesis by (auto simp: s)
qed

lemma pop_empty: "sl_rep pc valid (sl, h) [] \<Longrightarrow> SList_pop (sl, h) = Inl logic_error"
  using sl_empty [of sl h "[]"] by (simp add: SList_pop_def)

lemma splice_rep:
  assumes "sl_rep pc valid (sl, h) xs" and "sl_rep pc valid (other, h) ys"
    and "set xs \<inter> set ys = {}" and "length xs + length ys < 2 ^ 64"
    and "SList_splice sl other h = (sl', other', h')"
  shows "sl_rep pc valid (sl', h') (ys @ xs) \<and> sl_rep pc valid (other', h') [] \<and>
         (\<forall>a. a \<notin> set ys \<longrightarrow> h' a = h a)"
proof (cases ys rule: rev_cases)
  case Nil
  then show ?thesis using assms sl_empty [OF assms(2)] by (auto simp: SList_splice_def)
next
  case (snoc zs z)
  then have ne: "\<not> SList_empty other" using sl_empty [OF assms(2)] by simp
  have z: "z \<notin> set xs" "z \<notin> set zs" using assms(2,3) snoc by (auto simp: sl_rep_def)
  have seg: "slseg ((sl_next pc h)(z := first_ptr xs None)) (zs @ z # xs) None"
    using assms(1,2) z snoc by (simp add: sl_rep_def slseg_append)
  have v: "set_option (first_ptr xs None) \<subseteq> valid"
    using assms(1) by (auto simp: sl_rep_def dest: first_ptr_in_set)
  let ?sl1 = "sl\<lparr>sl_head := sl_head other, sl_size := sl_size sl + sl_size other\<rparr>"
  have r: "sl' = (if xs = [] then ?sl1\<lparr>sl_tail := sl_tail other\<rparr> else ?sl1)"
    "other' = other\<lparr>sl_head := None, sl_size := 0, sl_tail := None\<rparr>" "h' = SList_setNext sl z (first_ptr xs None) h"
    using assms(1,2,5) ne snoc by (cases xs; simp add: SList_splice_def Let_def sl_rep_def)+
  have n: "sl_next pc h' = (sl_next pc h)(z := first_ptr xs None)"
    using v assms(1) by (simp add: r(3) sl_rep_def)
  have "sl_rep pc valid (sl', h') (ys @ xs)"
  proof (cases "xs = []")
    case True
    then show ?thesis unfolding sl_rep_def fst_conv snd_conv n r(1)
      using assms(1,2) seg snoc by (simp add: sl_rep_def)
  next
    case False
    then obtain w ws where "xs = w # ws" by (cases xs) auto
    then show ?thesis unfolding sl_rep_def fst_conv snd_conv n r(1)
      using assms(1-4) seg snoc by (simp add: sl_rep_def disjoint_iff) blast
  qed
  moreover have "sl_rep pc valid (other', h') []"
    using assms(2) by (simp add: r(2) sl_rep_def sl_has_compressor_def)
  moreover have "h' a = h a" if "a \<notin> set ys" for a using that snoc by (simp add: r(3) SList_setNext_def)
  ultimately show ?thesis by blast
qed

text \<open>The iterator at the node \<open>x\<close> of \<open>as @ x # bs\<close>.\<close>

lemma remove_slist_rep:
  assumes "sl_rep pc valid s (as @ x # bs)"
  shows "\<exists>s'. SList_remove \<lparr>si_curr = Some x, si_prev = last_ptr None as, si_belongs = True\<rparr> s =
              Inr (\<lparr>si_curr = first_ptr bs None, si_prev = last_ptr None as, si_belongs = True\<rparr>, s') \<and>
            sl_rep pc valid s' (as @ bs) \<and> sl_next pc (snd s') x = None"
proof (cases as rule: rev_cases)
  case Nil
  then obtain s' where "SList_pop s = Inr s'" "sl_rep pc valid s' bs" "sl_next pc (snd s') x = None"
    using pop_rep [of s x bs] assms by auto
  then show ?thesis using assms Nil by (cases s) (auto simp: SList_remove_def sl_rep_def)
next
  case (snoc cs p)
  obtain sl h where s: "s = (sl, h)" by (cases s)
  let ?sl = "sl\<lparr>sl_size := sl_size sl - 1\<rparr>"
  define sl2 where "sl2 = (if sl_tail ?sl = Some x then ?sl\<lparr>sl_tail := Some p\<rparr> else ?sl)"
  define h1 where "h1 = SList_setNext sl p (first_ptr bs None) h"
  have v: "set_option (first_ptr bs None) \<subseteq> valid" "sl_has_compressor pc sl"
    using assms by (auto simp: s sl_rep_def dest: first_ptr_in_set)
  have n: "sl_next pc h1 = (sl_next pc h)(p := first_ptr bs None)" using v by (simp add: h1_def)
  have r: "sl_rep pc valid (sl2, h1) (as @ bs)"
    using assms snoc unfolding s sl_rep_def fst_conv snd_conv n
    by (cases bs) (auto simp: sl2_def slseg_append)
  then have chk: "checkStateOrThrow sl2 = Inr ()" by (rule checkState_rep)
  have hc: "sl_has_compressor pc sl2" using r by (simp add: sl_rep_def)
  have "sl_next pc h x = first_ptr bs None" using assms by (simp add: s sl_rep_def slseg_append)
  then have "SList_remove \<lparr>si_curr = Some x, si_prev = last_ptr None as, si_belongs = True\<rparr> s =
      Inr (\<lparr>si_curr = first_ptr bs None, si_prev = last_ptr None as, si_belongs = True\<rparr>, sl2, SList_setNext sl2 x None h1)"
    using snoc v chk by (simp add: s SList_remove_def Let_def h1_def sl2_def)
  moreover have "sl_rep pc valid (sl2, SList_setNext sl2 x None h1) (as @ bs)"
    using r hc assms by (simp add: sl_rep_def s)
  moreover have "sl_next pc (SList_setNext sl2 x None h1) x = None" using hc by simp
  ultimately show ?thesis by auto
qed

lemma iterate_slist:
  assumes "sl_rep pc valid (sl, h) xs" and "k \<le> length xs"
  shows "(SIterator_inc sl h ^^ k) (SList_begin sl) =
           \<lparr>si_curr = (if k < length xs then Some (xs ! k) else None), si_prev = last_ptr None (take k xs), si_belongs = True\<rparr>"
  using assms(2)
proof (induction k)
  case 0
  then show ?case using assms(1) by (auto simp: SList_begin_def sl_rep_def first_ptr_def nth_Cons' split: list.splits)
next
  case (Suc k)
  then have k: "k < length xs" by simp
  have "xs = take k xs @ xs ! k # drop (Suc k) xs" using k by (rule id_take_nth_drop)
  moreover have "slseg (sl_next pc h) xs None" using assms(1) by (simp add: sl_rep_def)
  ultimately have "sl_next pc h (xs ! k) = first_ptr (drop (Suc k) xs) None" by (metis slseg_append slseg.simps(2))
  moreover have "sl_has_compressor pc sl" using assms(1) by (simp add: sl_rep_def)
  moreover have "first_ptr (drop (Suc k) xs) None = (if Suc k < length xs then Some (xs ! Suc k) else None)"
    by (auto simp: first_ptr_def Cons_nth_drop_Suc [symmetric])
  ultimately show ?case
    using Suc k by (simp add: SIterator_inc_def SIterator_goForward_def take_Suc_conv_app_nth)
qed

lemma findTail_rep:
  "sl_has_compressor pc sl \<Longrightarrow> slseg (sl_next pc h) (x # xs) None \<Longrightarrow> SList_findTail sl h x = last_ptr (Some x) xs"
proof (induction xs arbitrary: x)
  case Nil
  then show ?case by (subst SList_findTail.simps) simp
next
  case (Cons y ys)
  then have "sl_next pc h x = Some y" "slseg (sl_next pc h) (y # ys) None" by simp_all
  then show ?case using Cons by (subst SList_findTail.simps) simp
qed

end

section \<open>The list over compressed slab pointers\<close>

abbreviation slist4 :: "SlabAllocator \<Rightarrow> CompressedPtr4B SList \<times> CompressedPtr4B shooks \<Rightarrow> addr list \<Rightarrow> bool" where
  "slist4 sa \<equiv> sl_rep (createPtrCompressor cptr4 sa False) (valid_allocs cptr4 sa)"


definition example_slist :: "CompressedPtr4B SList \<times> CompressedPtr4B shooks" where
  "example_slist = SList_insert (2 * kSize + 200)
     (new_SList (createPtrCompressor cptr4 example_sa2 False), \<lambda>_. \<lparr>sh_next = kNull4\<rparr>)"

lemma example_slist_rep: "slist4 example_sa2 example_slist [2 * kSize + 200]"
  unfolding example_slist_def
  using compressor4.insert_rep [OF sl_rep_new] example_valid_alloc [of 2] by simp




end
