(* ===== verification/MMLru.thy ===== *)
theory MMLru
  imports Refcount DList
begin

text \<open>
  The LRU eviction container: \<open>cachelib/allocator/MMLru.h\<close>. A container is a doubly linked
  list of items ordered from most to least recently used, with an insertion point inside the
  list: with a non-zero \<open>lruInsertionPointSpec\<close> new items enter not at the head but where the
  last \<open>1/2^spec\<close> of the list begins. The items of that tail carry a flag in their reference
  count word. The state is the container and the memory of the items (hooks and reference
  count words, both indexed by address); the sections that run under the container's lock
  are atomic. Dereferencing a null pointer is the error \<open>undefined_behaviour\<close>.

  The lemmas describe a container by two lists: the items before the insertion point and
  the marked tail behind it, and prove that every operation keeps that description and acts
  on the two lists as documented.
\<close>

section \<open>Configuration\<close>

text \<open>A \<open>double\<close> is its 64-bit pattern; the arithmetic on it is an argument of its users.\<close>

type_synonym double = u64

record MMLru_Config =
  cf_defaultLruRefreshTime :: u32
  cf_lruRefreshTime :: u32
  cf_lruRefreshRatio :: double
  cf_updateOnWrite :: bool
  cf_updateOnRead :: bool
  cf_tryLockUpdate :: bool
  cf_lruInsertionPointSpec :: u8
  cf_mmReconfigureIntervalSecs :: u64
  cf_useCombinedLockForIterators :: bool

definition MMLru_Config_default :: MMLru_Config where
  "MMLru_Config_default =
     \<lparr>cf_defaultLruRefreshTime = 60, cf_lruRefreshTime = 60, cf_lruRefreshRatio = 0,
      cf_updateOnWrite = False, cf_updateOnRead = True, cf_tryLockUpdate = False,
      cf_lruInsertionPointSpec = 0, cf_mmReconfigureIntervalSecs = 0,
      cf_useCombinedLockForIterators = False\<rparr>"

definition MMLru_Config8 ::
  "u32 \<Rightarrow> double \<Rightarrow> bool \<Rightarrow> bool \<Rightarrow> bool \<Rightarrow> u8 \<Rightarrow> u32 \<Rightarrow> bool \<Rightarrow> MMLru_Config" where
  "MMLru_Config8 time ratio updateOnW updateOnR tryLockU ipSpec mmReconfigureInterval useCombinedLock =
     \<lparr>cf_defaultLruRefreshTime = time, cf_lruRefreshTime = time, cf_lruRefreshRatio = ratio,
      cf_updateOnWrite = updateOnW, cf_updateOnRead = updateOnR, cf_tryLockUpdate = tryLockU,
      cf_lruInsertionPointSpec = ipSpec, cf_mmReconfigureIntervalSecs = ucast mmReconfigureInterval,
      cf_useCombinedLockForIterators = useCombinedLock\<rparr>"

definition MMLru_Config7 ::
  "u32 \<Rightarrow> double \<Rightarrow> bool \<Rightarrow> bool \<Rightarrow> bool \<Rightarrow> u8 \<Rightarrow> u32 \<Rightarrow> MMLru_Config" where
  "MMLru_Config7 time ratio updateOnW updateOnR tryLockU ipSpec mmReconfigureInterval =
     MMLru_Config8 time ratio updateOnW updateOnR tryLockU ipSpec mmReconfigureInterval False"

definition MMLru_Config6 :: "u32 \<Rightarrow> double \<Rightarrow> bool \<Rightarrow> bool \<Rightarrow> bool \<Rightarrow> u8 \<Rightarrow> MMLru_Config" where
  "MMLru_Config6 time ratio updateOnW updateOnR tryLockU ipSpec =
     MMLru_Config7 time ratio updateOnW updateOnR tryLockU ipSpec 0"

definition MMLru_Config5 :: "u32 \<Rightarrow> bool \<Rightarrow> bool \<Rightarrow> bool \<Rightarrow> u8 \<Rightarrow> MMLru_Config" where
  "MMLru_Config5 time updateOnW updateOnR tryLockU ipSpec =
     MMLru_Config6 time 0 updateOnW updateOnR tryLockU ipSpec"

definition MMLru_Config4 :: "u32 \<Rightarrow> bool \<Rightarrow> bool \<Rightarrow> u8 \<Rightarrow> MMLru_Config" where
  "MMLru_Config4 time updateOnW updateOnR ipSpec = MMLru_Config5 time updateOnW updateOnR False ipSpec"

definition MMLru_Config3 :: "u32 \<Rightarrow> bool \<Rightarrow> bool \<Rightarrow> MMLru_Config" where
  "MMLru_Config3 time updateOnW updateOnR = MMLru_Config5 time updateOnW updateOnR False 0"

text \<open>The serialized configuration and container.\<close>

record MMLruConfigObject =
  co_lruRefreshTime :: u32
  co_updateOnWrite :: bool
  co_lruInsertionPointSpec :: u32
  co_updateOnRead :: bool
  co_tryLockUpdate :: bool
  co_lruRefreshRatio :: double

record MMLruObject =
  mo_config :: MMLruConfigObject
  mo_tailSize :: u64
  mo_lru :: DListObject
  mo_compressedInsertionPoint :: u64

definition MMLru_Config_restore :: "MMLruConfigObject \<Rightarrow> MMLru_Config" where
  "MMLru_Config_restore configState =
     MMLru_Config6 (co_lruRefreshTime configState) (co_lruRefreshRatio configState)
       (co_updateOnWrite configState) (co_updateOnRead configState) (co_tryLockUpdate configState)
       (ucast (co_lruInsertionPointSpec configState))"

section \<open>The container\<close>

record 'c MMLru_Container =
  lc_compressor :: "'c PtrCompressor"
  lc_lru :: "'c DList"
  lc_insertionPoint :: ptr
  lc_tailSize :: size_t
  lc_nextReconfigureTime :: u32
  lc_lruRefreshTime :: u32
  lc_config :: MMLru_Config

text \<open>The memory of the items: their hooks and their reference count words.\<close>

record 'c items =
  im_hooks :: "'c hooks"
  im_ref :: "addr \<Rightarrow> Value"

type_synonym 'c lru = "'c MMLru_Container \<times> 'c items"

definition kLruRefreshTimeCap :: u32 where "kLruRefreshTimeCap = 900"

definition reconfigureTime :: "u32 \<Rightarrow> MMLru_Config \<Rightarrow> u32" where
  "reconfigureTime now cfg =
     (if cf_mmReconfigureIntervalSecs cfg = 0 then - 1
      else ucast (ucast now + cf_mmReconfigureIntervalSecs cfg))"

definition MMLru_new :: "u32 \<Rightarrow> MMLru_Config \<Rightarrow> 'c PtrCompressor \<Rightarrow> 'c MMLru_Container" where
  "MMLru_new now c compressor =
     \<lparr>lc_compressor = compressor, lc_lru = new_DList compressor, lc_insertionPoint = None,
      lc_tailSize = 0, lc_nextReconfigureTime = reconfigureTime now c,
      lc_lruRefreshTime = cf_lruRefreshTime c, lc_config = c\<rparr>"

definition MMLru_restore :: "(u64 \<Rightarrow> 'c) \<Rightarrow> u32 \<Rightarrow> MMLruObject \<Rightarrow> 'c PtrCompressor \<Rightarrow> 'c MMLru_Container" where
  "MMLru_restore deser now object compressor =
     (let cfg = MMLru_Config_restore (mo_config object)
      in \<lparr>lc_compressor = compressor, lc_lru = DList_restore deser (mo_lru object) compressor,
          lc_insertionPoint = pc_unCompress compressor (deser (mo_compressedInsertionPoint object)),
          lc_tailSize = mo_tailSize object, lc_nextReconfigureTime = reconfigureTime now cfg,
          lc_lruRefreshTime = cf_lruRefreshTime cfg, lc_config = cfg\<rparr>)"

definition MMLru_saveState :: "('c \<Rightarrow> u64) \<Rightarrow> 'c MMLru_Container \<Rightarrow> MMLruObject" where
  "MMLru_saveState ser c =
     \<lparr>mo_config = \<lparr>co_lruRefreshTime = lc_lruRefreshTime c,
                   co_updateOnWrite = cf_updateOnWrite (lc_config c),
                   co_lruInsertionPointSpec = ucast (cf_lruInsertionPointSpec (lc_config c)),
                   co_updateOnRead = cf_updateOnRead (lc_config c),
                   co_tryLockUpdate = cf_tryLockUpdate (lc_config c),
                   co_lruRefreshRatio = cf_lruRefreshRatio (lc_config c)\<rparr>,
      mo_tailSize = lc_tailSize c, mo_lru = DList_saveState ser (lc_lru c),
      mo_compressedInsertionPoint = ser (pc_compress (lc_compressor c) (lc_insertionPoint c))\<rparr>"

text \<open>Flags of an item: bit 0 marks the tail, bit 1 an access since the item was written.\<close>

definition markTail :: "addr \<Rightarrow> 'c items \<Rightarrow> 'c items" where
  "markTail node m = m\<lparr>im_ref := (im_ref m)(node := setFlag kMMFlag0 (im_ref m node))\<rparr>"
definition unmarkTail :: "addr \<Rightarrow> 'c items \<Rightarrow> 'c items" where
  "unmarkTail node m = m\<lparr>im_ref := (im_ref m)(node := unSetFlag kMMFlag0 (im_ref m node))\<rparr>"
definition isTail :: "'c items \<Rightarrow> addr \<Rightarrow> bool" where
  "isTail m node = isFlagSet kMMFlag0 (im_ref m node)"
definition markAccessed :: "addr \<Rightarrow> 'c items \<Rightarrow> 'c items" where
  "markAccessed node m = m\<lparr>im_ref := (im_ref m)(node := setFlag kMMFlag1 (im_ref m node))\<rparr>"
definition unmarkAccessed :: "addr \<Rightarrow> 'c items \<Rightarrow> 'c items" where
  "unmarkAccessed node m = m\<lparr>im_ref := (im_ref m)(node := unSetFlag kMMFlag1 (im_ref m node))\<rparr>"
definition isAccessed :: "'c items \<Rightarrow> addr \<Rightarrow> bool" where
  "isAccessed m node = isFlagSet kMMFlag1 (im_ref m node)"

definition item_markInMM :: "addr \<Rightarrow> 'c items \<Rightarrow> 'c items" where
  "item_markInMM node m = m\<lparr>im_ref := (im_ref m)(node := markInMMContainer (im_ref m node))\<rparr>"
definition item_unmarkInMM :: "addr \<Rightarrow> 'c items \<Rightarrow> 'c items" where
  "item_unmarkInMM node m = m\<lparr>im_ref := (im_ref m)(node := unmarkInMMContainer (im_ref m node))\<rparr>"
definition item_isInMM :: "'c items \<Rightarrow> addr \<Rightarrow> bool" where
  "item_isInMM m node = isInMMContainer (im_ref m node)"

definition node_getUpdateTime :: "'c items \<Rightarrow> addr \<Rightarrow> u32" where
  "node_getUpdateTime m node = getUpdateTime (im_hooks m node)"
definition node_setUpdateTime :: "addr \<Rightarrow> u32 \<Rightarrow> 'c items \<Rightarrow> 'c items" where
  "node_setUpdateTime node time m =
     m\<lparr>im_hooks := (im_hooks m)(node := setUpdateTime time (im_hooks m node))\<rparr>"

text \<open>An operation of the list, applied to the list of the container.\<close>

definition on_lru :: "('c DList \<times> 'c hooks \<Rightarrow> 'c DList \<times> 'c hooks) \<Rightarrow> 'c lru \<Rightarrow> 'c lru" where
  "on_lru f = (\<lambda>(c, m). let (dl, h) = f (lc_lru c, im_hooks m) in (c\<lparr>lc_lru := dl\<rparr>, m\<lparr>im_hooks := h\<rparr>))"

text \<open>
  \<open>updateLruInsertionPoint\<close>: the two loops move the insertion point towards the head or the
  tail; each is bounded by its counter, whatever the links are.
\<close>

function growTail :: "'c DList \<Rightarrow> size_t \<Rightarrow> ptr \<Rightarrow> size_t \<Rightarrow> 'c items \<Rightarrow> exn + ptr \<times> size_t \<times> 'c items" where
  "growTail dl expectedSize cur tailSize m =
     (if tailSize < expectedSize \<and> cur \<noteq> dl_head dl then
        (case cur of None \<Rightarrow> Inl undefined_behaviour
         | Some x \<Rightarrow>
             (case DList_getPrev dl (im_hooks m) x of None \<Rightarrow> Inl undefined_behaviour
              | Some p \<Rightarrow> growTail dl expectedSize (Some p) (tailSize + 1) (markTail p m)))
      else Inr (cur, tailSize, m))"
  by pat_completeness auto
termination
  by (relation "measure (\<lambda>(dl, e, cur, t, m). unat e - unat t)") (auto intro: unat_step_measure)

function shrinkTail :: "'c DList \<Rightarrow> size_t \<Rightarrow> ptr \<Rightarrow> size_t \<Rightarrow> 'c items \<Rightarrow> exn + ptr \<times> size_t \<times> 'c items" where
  "shrinkTail dl expectedSize cur tailSize m =
     (if expectedSize < tailSize \<and> cur \<noteq> dl_tail dl then
        (case cur of None \<Rightarrow> Inl undefined_behaviour
         | Some x \<Rightarrow>
             shrinkTail dl expectedSize (DList_getNext dl (im_hooks m) x) (tailSize - 1) (unmarkTail x m))
      else Inr (cur, tailSize, m))"
  by pat_completeness auto
termination
  by (relation "measure (\<lambda>(dl, e, cur, t, m). unat t)") (auto intro: unat_step_measure)

declare growTail.simps [simp del] shrinkTail.simps [simp del]

definition updateLruInsertionPoint :: "'c lru \<Rightarrow> exn + 'c lru" where
  "updateLruInsertionPoint = (\<lambda>(c, m).
     if cf_lruInsertionPointSpec (lc_config c) = 0 then Inr (c, m)
     else
       (let (c1, m1) =
          (if lc_insertionPoint c = None then
             (let c0 = c\<lparr>lc_insertionPoint := dl_tail (lc_lru c), lc_tailSize := 0\<rparr>
              in (case lc_insertionPoint c0 of None \<Rightarrow> (c0, m)
                  | Some ip \<Rightarrow> (c0\<lparr>lc_tailSize := lc_tailSize c0 + 1\<rparr>, markTail ip m)))
           else (c, m))
        in if dl_size (lc_lru c1) \<le> 1 then Inr (c1, m1)
           else
             (let expectedSize = drop_bit (unat (cf_lruInsertionPointSpec (lc_config c1))) (dl_size (lc_lru c1))
              in ebind (growTail (lc_lru c1) expectedSize (lc_insertionPoint c1) (lc_tailSize c1) m1)
                  (\<lambda>(cur, ts, m2). ebind (shrinkTail (lc_lru c1) expectedSize cur ts m2)
                  (\<lambda>(cur, ts, m3). Inr (c1\<lparr>lc_insertionPoint := cur, lc_tailSize := ts\<rparr>, m3))))))"

definition ensureNotInsertionPoint :: "addr \<Rightarrow> 'c lru \<Rightarrow> 'c lru" where
  "ensureNotInsertionPoint node = (\<lambda>(c, m).
     if Some node = lc_insertionPoint c then
       (let c1 = c\<lparr>lc_insertionPoint := DList_getPrev (lc_lru c) (im_hooks m) node\<rparr>
        in (case lc_insertionPoint c1 of None \<Rightarrow> (c1, m)
            | Some ip \<Rightarrow> (c1\<lparr>lc_tailSize := lc_tailSize c1 + 1\<rparr>, markTail ip m)))
     else (c, m))"

definition unTail :: "addr \<Rightarrow> 'c lru \<Rightarrow> 'c lru" where
  "unTail node = (\<lambda>(c, m).
     if isTail m node then (c\<lparr>lc_tailSize := lc_tailSize c - 1\<rparr>, unmarkTail node m) else (c, m))"

text \<open>Statistics: ages of the oldest element and of the one \<open>projectedLength\<close> before it.\<close>

record EvictionStatPerType =
  es_oldestElementAge :: u64
  es_size :: u64
  es_projectedAge :: u64

record EvictionAgeStat =
  ea_warmQueueStat :: EvictionStatPerType
  ea_hotQueueStat :: EvictionStatPerType
  ea_coldQueueStat :: EvictionStatPerType

definition EvictionStat0 :: EvictionStatPerType where
  "EvictionStat0 = \<lparr>es_oldestElementAge = 0, es_size = 0, es_projectedAge = 0\<rparr>"

fun skipFromTail :: "'c DList \<Rightarrow> 'c hooks \<Rightarrow> nat \<Rightarrow> ptr \<Rightarrow> ptr" where
  "skipFromTail dl h (Suc n) (Some x) = skipFromTail dl h n (DList_getPrev dl h x)"
| "skipFromTail dl h n node = node"

definition getEvictionAgeStatLocked :: "u32 \<Rightarrow> u64 \<Rightarrow> 'c lru \<Rightarrow> EvictionAgeStat" where
  "getEvictionAgeStatLocked currTime projectedLength = (\<lambda>(c, m).
     let age = (\<lambda>x. ucast (currTime - node_getUpdateTime m x));
         node = dl_tail (lc_lru c);
         oldest = (case node of None \<Rightarrow> 0 | Some x \<Rightarrow> age x);
         node' = skipFromTail (lc_lru c) (im_hooks m) (unat projectedLength) node
     in \<lparr>ea_warmQueueStat = \<lparr>es_oldestElementAge = oldest, es_size = 0,
                              es_projectedAge = (case node' of None \<Rightarrow> oldest | Some x \<Rightarrow> age x)\<rparr>,
         ea_hotQueueStat = EvictionStat0, ea_coldQueueStat = EvictionStat0\<rparr>)"

text \<open>
  \<open>mulRatio age ratio\<close> is the product of an age and a \<open>double\<close>, cast to \<open>uint32_t\<close>; \<open>now\<close> is
  the clock when the statistics are taken.
\<close>

definition reconfigureLocked :: "(u64 \<Rightarrow> double \<Rightarrow> u32) \<Rightarrow> u32 \<Rightarrow> u32 \<Rightarrow> 'c lru \<Rightarrow> 'c lru" where
  "reconfigureLocked mulRatio now currTime = (\<lambda>(c, m).
     if currTime < lc_nextReconfigureTime c then (c, m)
     else
       (let c1 = c\<lparr>lc_nextReconfigureTime :=
                     ucast (ucast currTime + cf_mmReconfigureIntervalSecs (lc_config c))\<rparr>;
            stat = getEvictionAgeStatLocked now 0 (c1, m);
            refresh = min (max (cf_defaultLruRefreshTime (lc_config c1))
                               (mulRatio (es_oldestElementAge (ea_warmQueueStat stat))
                                         (cf_lruRefreshRatio (lc_config c1))))
                          kLruRefreshTimeCap
        in (c1\<lparr>lc_lruRefreshTime := refresh\<rparr>, m)))"

section \<open>Operations\<close>

datatype AccessMode = kRead | kWrite

text \<open>
  \<open>recordAccess\<close> decides and marks the access without the lock (\<open>recordAccess_check\<close>,
  \<open>recordAccess_mark\<close>), then runs its critical section (\<open>recordAccess_func\<close>) under it; other
  operations may come in between. \<open>locked\<close> is the outcome of the attempt to take the lock.
\<close>

definition recordAccess_check :: "u32 \<Rightarrow> addr \<Rightarrow> AccessMode \<Rightarrow> 'c lru \<Rightarrow> bool" where
  "recordAccess_check cur node mode = (\<lambda>(c, m).
     \<not> (mode = kWrite \<and> \<not> cf_updateOnWrite (lc_config c) \<or> mode = kRead \<and> \<not> cf_updateOnRead (lc_config c)) \<and>
     item_isInMM m node \<and>
     (node_getUpdateTime m node + lc_lruRefreshTime c \<le> cur \<or> \<not> isAccessed m node))"

definition recordAccess_mark :: "addr \<Rightarrow> 'c lru \<Rightarrow> 'c lru" where
  "recordAccess_mark node = (\<lambda>(c, m). if \<not> isAccessed m node then (c, markAccessed node m) else (c, m))"

definition recordAccess_func ::
  "(u64 \<Rightarrow> double \<Rightarrow> u32) \<Rightarrow> u32 \<Rightarrow> addr \<Rightarrow> u32 \<Rightarrow> 'c lru \<Rightarrow> exn + 'c lru" where
  "recordAccess_func mulRatio now node cur s =
     (let s1 = reconfigureLocked mulRatio now cur s;
          s2 = ensureNotInsertionPoint node s1;
          s3 = (if item_isInMM (snd s2) node
                then (let (c, m) = on_lru (DList_moveToHead node) s2 in (c, node_setUpdateTime node cur m))
                else s2)
      in if isTail (snd s3) node then updateLruInsertionPoint (unTail node s3) else Inr s3)"

definition recordAccess ::
  "(u64 \<Rightarrow> double \<Rightarrow> u32) \<Rightarrow> u32 \<Rightarrow> bool \<Rightarrow> u32 \<Rightarrow> addr \<Rightarrow> AccessMode \<Rightarrow> 'c lru \<Rightarrow> exn + bool \<times> 'c lru" where
  "recordAccess mulRatio now locked cur node mode s =
     (if recordAccess_check cur node mode s then
        (let s1 = recordAccess_mark node s
         in if cf_tryLockUpdate (lc_config (fst s1)) \<and> \<not> locked then Inr (False, s1)
            else ebind (recordAccess_func mulRatio now node cur s1) (\<lambda>s2. Inr (True, s2)))
      else Inr (False, s))"

definition MMLru_add :: "u32 \<Rightarrow> addr \<Rightarrow> 'c lru \<Rightarrow> exn + bool \<times> 'c lru" where
  "MMLru_add currTime node s =
     (if item_isInMM (snd s) node then Inr (False, s)
      else
        (let (c, m) =
           (case lc_insertionPoint (fst s) of
              None \<Rightarrow> on_lru (DList_linkAtHead node) s
            | Some ip \<Rightarrow>
                if cf_lruInsertionPointSpec (lc_config (fst s)) = 0 then on_lru (DList_linkAtHead node) s
                else on_lru (DList_insertBefore ip node) s);
             m1 = unmarkAccessed node (node_setUpdateTime node currTime (item_markInMM node m))
         in ebind (updateLruInsertionPoint (c, m1)) (\<lambda>s2. Inr (True, s2))))"

definition MMLru_removeLocked :: "addr \<Rightarrow> 'c lru \<Rightarrow> exn + 'c lru" where
  "MMLru_removeLocked node s =
     (let (c, m) = on_lru (DList_remove node) (ensureNotInsertionPoint node s);
          (c2, m2) = unTail node (c, unmarkAccessed node m)
      in updateLruInsertionPoint (c2, item_unmarkInMM node m2))"

definition MMLru_remove :: "addr \<Rightarrow> 'c lru \<Rightarrow> exn + bool \<times> 'c lru" where
  "MMLru_remove node s =
     (if \<not> item_isInMM (snd s) node then Inr (False, s)
      else ebind (MMLru_removeLocked node s) (\<lambda>s2. Inr (True, s2)))"

text \<open>Removal at an iterator advances it first.\<close>

definition MMLru_removeIterator :: "DList_Iterator \<Rightarrow> 'c lru \<Rightarrow> exn + DList_Iterator \<times> 'c lru" where
  "MMLru_removeIterator it s =
     (case it_curr it of None \<Rightarrow> Inl undefined_behaviour
      | Some node \<Rightarrow>
          (let it' = Iterator_inc (lc_lru (fst s)) (im_hooks (snd s)) it
           in ebind (MMLru_removeLocked node s) (\<lambda>s2. Inr (it', s2))))"

definition MMLru_replace :: "addr \<Rightarrow> addr \<Rightarrow> 'c lru \<Rightarrow> bool \<times> 'c lru" where
  "MMLru_replace oldNode newNode s =
     (if \<not> item_isInMM (snd s) oldNode \<or> item_isInMM (snd s) newNode then (False, s)
      else
        (let updateTime = node_getUpdateTime (snd s) oldNode;
             (c, m) = on_lru (DList_replace oldNode newNode) s;
             m1 = node_setUpdateTime newNode updateTime (item_markInMM newNode (item_unmarkInMM oldNode m));
             m2 = (if isAccessed m1 oldNode then markAccessed newNode m1 else unmarkAccessed newNode m1);
             m3 = (if isTail m2 oldNode then unmarkTail oldNode (markTail newNode m2) else unmarkTail newNode m2);
             c1 = (if lc_insertionPoint c = Some oldNode then c\<lparr>lc_insertionPoint := Some newNode\<rparr> else c)
         in (True, (c1, m3))))"

text \<open>Setting a configuration without insertion point unmarks the whole tail.\<close>

function clearTail :: "'c DList \<Rightarrow> ptr \<Rightarrow> size_t \<Rightarrow> 'c items \<Rightarrow> exn + 'c items" where
  "clearTail dl cur tailSize m =
     (if tailSize \<noteq> 0 then
        (case cur of None \<Rightarrow> Inl undefined_behaviour
         | Some x \<Rightarrow> clearTail dl (DList_getNext dl (im_hooks m) x) (tailSize - 1) (unmarkTail x m))
      else Inr m)"
  by pat_completeness auto
termination
  by (relation "measure (\<lambda>(dl, cur, t, m). unat t)") (auto intro: unat_step_measure simp: word_neq_0_conv)

declare clearTail.simps [simp del]

definition MMLru_setConfig :: "u32 \<Rightarrow> MMLru_Config \<Rightarrow> 'c lru \<Rightarrow> exn + 'c lru" where
  "MMLru_setConfig now newConfig = (\<lambda>(c, m).
     let c1 = c\<lparr>lc_config := newConfig\<rparr>;
         fin = (\<lambda>c m. Inr (c\<lparr>lc_lruRefreshTime := cf_lruRefreshTime newConfig,
                            lc_nextReconfigureTime := reconfigureTime now newConfig\<rparr>, m))
     in if cf_lruInsertionPointSpec newConfig = 0 \<and> lc_insertionPoint c1 \<noteq> None then
          ebind (clearTail (lc_lru c1) (lc_insertionPoint c1) (lc_tailSize c1) m)
            (\<lambda>m1. fin (c1\<lparr>lc_tailSize := 0, lc_insertionPoint := None\<rparr>) m1)
        else fin c1 m)"

definition MMLru_getConfig :: "'c lru \<Rightarrow> MMLru_Config" where
  "MMLru_getConfig s = lc_config (fst s)"

definition MMLru_size :: "'c lru \<Rightarrow> size_t" where
  "MMLru_size s = dl_size (lc_lru (fst s))"

definition MMLru_isEmpty :: "'c lru \<Rightarrow> bool" where
  "MMLru_isEmpty s \<longleftrightarrow> MMLru_size s = 0"

definition getEvictionIterator :: "'c lru \<Rightarrow> DList_Iterator" where
  "getEvictionIterator s = DList_rbegin (lc_lru (fst s))"

definition withEvictionIterator :: "(DList_Iterator \<Rightarrow> 'c lru \<Rightarrow> 'r) \<Rightarrow> 'c lru \<Rightarrow> 'r" where
  "withEvictionIterator f s = f (DList_rbegin (lc_lru (fst s))) s"

record MMContainerStat =
  ms_size :: u64
  ms_oldestTimeSec :: u64
  ms_lruRefreshTime :: u64
  ms_numHotAccesses :: u64
  ms_numColdAccesses :: u64
  ms_numWarmAccesses :: u64
  ms_numTailAccesses :: u64

definition MMLru_getStats :: "'c lru \<Rightarrow> MMContainerStat" where
  "MMLru_getStats = (\<lambda>(c, m).
     \<lparr>ms_size = dl_size (lc_lru c),
      ms_oldestTimeSec = (case dl_tail (lc_lru c) of None \<Rightarrow> 0 | Some x \<Rightarrow> ucast (node_getUpdateTime m x)),
      ms_lruRefreshTime = ucast (lc_lruRefreshTime c),
      ms_numHotAccesses = 0, ms_numColdAccesses = 0, ms_numWarmAccesses = 0, ms_numTailAccesses = 0\<rparr>)"

section \<open>Flags of items\<close>

lemma item_flags [simp]:
  "isFlagSet f (setFlag g v) \<longleftrightarrow> f = g \<or> isFlagSet f v"
  "isFlagSet f (unSetFlag g v) \<longleftrightarrow> f \<noteq> g \<and> isFlagSet f v"
  "isFlagSet f (markInMMContainer v) = isFlagSet f v"
  "isFlagSet f (unmarkInMMContainer v) = isFlagSet f v"
  "isInMMContainer (setFlag g v) = isInMMContainer v"
  "isInMMContainer (unSetFlag g v) = isInMMContainer v"
  "isInMMContainer (markInMMContainer v)"
  "\<not> isInMMContainer (unmarkInMMContainer v)"
  by (auto simp: reads absref_setFlag absref_unSetFlag abs_set_flag_def abs_set_admin_def)

lemmas item_ops = markTail_def unmarkTail_def isTail_def markAccessed_def unmarkAccessed_def isAccessed_def
  item_markInMM_def item_unmarkInMM_def item_isInMM_def node_getUpdateTime_def node_setUpdateTime_def
  setUpdateTime_def getUpdateTime_def

lemma item_reads [simp]:
  "im_hooks (markTail n m) = im_hooks m"
  "isTail (markTail n m) a \<longleftrightarrow> a = n \<or> isTail m a"
  "isAccessed (markTail n m) a \<longleftrightarrow> isAccessed m a"
  "item_isInMM (markTail n m) a \<longleftrightarrow> item_isInMM m a"
  "node_getUpdateTime (markTail n m) a = node_getUpdateTime m a"
  "im_hooks (unmarkTail n m) = im_hooks m"
  "isTail (unmarkTail n m) a \<longleftrightarrow> a \<noteq> n \<and> isTail m a"
  "isAccessed (unmarkTail n m) a \<longleftrightarrow> isAccessed m a"
  "item_isInMM (unmarkTail n m) a \<longleftrightarrow> item_isInMM m a"
  "node_getUpdateTime (unmarkTail n m) a = node_getUpdateTime m a"
  "im_hooks (markAccessed n m) = im_hooks m"
  "isTail (markAccessed n m) a \<longleftrightarrow> isTail m a"
  "isAccessed (markAccessed n m) a \<longleftrightarrow> a = n \<or> isAccessed m a"
  "item_isInMM (markAccessed n m) a \<longleftrightarrow> item_isInMM m a"
  "node_getUpdateTime (markAccessed n m) a = node_getUpdateTime m a"
  "im_hooks (unmarkAccessed n m) = im_hooks m"
  "isTail (unmarkAccessed n m) a \<longleftrightarrow> isTail m a"
  "isAccessed (unmarkAccessed n m) a \<longleftrightarrow> a \<noteq> n \<and> isAccessed m a"
  "item_isInMM (unmarkAccessed n m) a \<longleftrightarrow> item_isInMM m a"
  "node_getUpdateTime (unmarkAccessed n m) a = node_getUpdateTime m a"
  "im_hooks (item_markInMM n m) = im_hooks m"
  "isTail (item_markInMM n m) a \<longleftrightarrow> isTail m a"
  "isAccessed (item_markInMM n m) a \<longleftrightarrow> isAccessed m a"
  "item_isInMM (item_markInMM n m) a \<longleftrightarrow> a = n \<or> item_isInMM m a"
  "node_getUpdateTime (item_markInMM n m) a = node_getUpdateTime m a"
  "im_hooks (item_unmarkInMM n m) = im_hooks m"
  "isTail (item_unmarkInMM n m) a \<longleftrightarrow> isTail m a"
  "isAccessed (item_unmarkInMM n m) a \<longleftrightarrow> isAccessed m a"
  "item_isInMM (item_unmarkInMM n m) a \<longleftrightarrow> a \<noteq> n \<and> item_isInMM m a"
  "node_getUpdateTime (item_unmarkInMM n m) a = node_getUpdateTime m a"
  "isTail (node_setUpdateTime n t m) a \<longleftrightarrow> isTail m a"
  "isAccessed (node_setUpdateTime n t m) a \<longleftrightarrow> isAccessed m a"
  "item_isInMM (node_setUpdateTime n t m) a \<longleftrightarrow> item_isInMM m a"
  "node_getUpdateTime (node_setUpdateTime n t m) a = (if a = n then t else node_getUpdateTime m a)"
  "isTail (m\<lparr>im_hooks := h\<rparr>) a = isTail m a"
  "isAccessed (m\<lparr>im_hooks := h\<rparr>) a = isAccessed m a"
  "item_isInMM (m\<lparr>im_hooks := h\<rparr>) a = item_isInMM m a"
  by (auto simp: item_ops)

text \<open>Two memories that differ at most in which items are marked as tail.\<close>

definition tail_marks_only :: "'c items \<Rightarrow> 'c items \<Rightarrow> bool" where
  "tail_marks_only m m' \<longleftrightarrow> im_hooks m' = im_hooks m \<and>
     (\<forall>a. unSetFlag kMMFlag0 (im_ref m' a) = unSetFlag kMMFlag0 (im_ref m a))"

lemma unSetFlag_absorb [simp]:
  "unSetFlag f (setFlag f v) = unSetFlag f v" "unSetFlag f (unSetFlag f v) = unSetFlag f v"
  using Flags_bit_less [of f]
  by (auto simp: bit_eq_iff setFlag_def unSetFlag_def minus_one_minus bit_and_not_one bit_or_one)

lemma tail_marks_only_ops [simp]:
  "tail_marks_only m m"
  "tail_marks_only m (markTail a m') = tail_marks_only m m'"
  "tail_marks_only m (unmarkTail a m') = tail_marks_only m m'"
  "tail_marks_only (markTail a m) m' = tail_marks_only m m'"
  "tail_marks_only (unmarkTail a m) m' = tail_marks_only m m'"
  by (auto simp: tail_marks_only_def item_ops)

lemma tail_marks_only_trans:
  "tail_marks_only m m' \<Longrightarrow> tail_marks_only m' m'' \<Longrightarrow> tail_marks_only m m''"
  by (simp add: tail_marks_only_def)

lemma tail_marks_onlyD:
  assumes "tail_marks_only m m'"
  shows "im_hooks m' = im_hooks m" and "item_isInMM m' a = item_isInMM m a"
    and "isAccessed m' a = isAccessed m a" and "node_getUpdateTime m' a = node_getUpdateTime m a"
proof -
  have u: "unSetFlag kMMFlag0 (im_ref m' a) = unSetFlag kMMFlag0 (im_ref m a)" and h: "im_hooks m' = im_hooks m"
    using assms by (auto simp: tail_marks_only_def)
  show "im_hooks m' = im_hooks m" by (rule h)
  show "item_isInMM m' a = item_isInMM m a" using u unfolding item_isInMM_def by (metis item_flags(6))
  show "isAccessed m' a = isAccessed m a" using u unfolding isAccessed_def
    by (metis item_flags(2) Flags.distinct(1))
  show "node_getUpdateTime m' a = node_getUpdateTime m a" by (simp add: node_getUpdateTime_def h)
qed

section \<open>What a container stands for\<close>

text \<open>
  \<open>lru_marks\<close>: the container holds the list \<open>xs\<close> and the tail marks and the tail size describe
  \<open>ts\<close>. \<open>lru_core\<close>: in addition the tail is the end of the list and the insertion point is its
  first item. \<open>D\<close> is the set of items that may be in the container: the allocations of its
  pool and allocation class.
\<close>

definition lru_marks :: "'c PtrCompressor \<Rightarrow> addr set \<Rightarrow> 'c lru \<Rightarrow> addr list \<Rightarrow> addr list \<Rightarrow> bool" where
  "lru_marks pc D s xs ts \<longleftrightarrow>
     dl_rep pc D (lc_lru (fst s), im_hooks (snd s)) xs \<and> distinct ts \<and> set ts \<subseteq> set xs \<and>
     lc_tailSize (fst s) = of_nat (length ts) \<and>
     (\<forall>a\<in>D. isTail (snd s) a \<longleftrightarrow> a \<in> set ts) \<and> (\<forall>a\<in>D. item_isInMM (snd s) a \<longleftrightarrow> a \<in> set xs)"

definition lru_core :: "'c PtrCompressor \<Rightarrow> addr set \<Rightarrow> 'c lru \<Rightarrow> addr list \<Rightarrow> addr list \<Rightarrow> bool" where
  "lru_core pc D s ws ts \<longleftrightarrow> lru_marks pc D s (ws @ ts) ts \<and> lc_insertionPoint (fst s) = first_ptr ts None"

definition lru_spec :: "'c lru \<Rightarrow> nat" where
  "lru_spec s = unat (cf_lruInsertionPointSpec (lc_config (fst s)))"

definition lru_inv :: "'c PtrCompressor \<Rightarrow> addr set \<Rightarrow> 'c lru \<Rightarrow> addr list \<Rightarrow> addr list \<Rightarrow> bool" where
  "lru_inv pc D s ws ts \<longleftrightarrow> lru_core pc D s ws ts \<and> lc_compressor (fst s) = pc \<and>
     (lru_spec s = 0 \<longrightarrow> ts = []) \<and> (ws = [] \<longrightarrow> length ts \<le> 1)"

text \<open>The size the tail is brought to after a change of the list.\<close>

definition tail_target :: "nat \<Rightarrow> nat \<Rightarrow> nat" where
  "tail_target n spec = (if spec = 0 \<or> n = 0 then 0 else max 1 (n div 2 ^ spec))"

lemma tail_target_less: "tail_target n spec < n \<or> n \<le> 1"
  by (auto simp: tail_target_def max_def not_le intro!: div_less_dividend one_less_power)

lemma tail_target_le: "tail_target n spec \<le> n"
  by (auto simp: tail_target_def)

lemma tail_target_small: "n \<le> 1 \<Longrightarrow> 0 < spec \<Longrightarrow> tail_target n spec = n"
  by (auto simp: tail_target_def le_Suc_eq intro!: max.absorb1 div_le_dividend)

locale lru_items = ptr_compressor +
  assumes valid_finite: "finite valid" and valid_few: "card valid < 2 ^ 64"
begin

lemma rep_length: "dl_rep pc valid s xs \<Longrightarrow> length xs < 2 ^ 64"
  using card_mono [OF valid_finite, of "set xs"] valid_few by (auto simp: dl_rep_def distinct_card)

lemma rep_size: "dl_rep pc valid s xs \<Longrightarrow> unat (dl_size (fst s)) = length xs"
  using rep_length [of s xs] by (auto simp: dl_rep_def unsigned_of_nat take_bit_nat_eq_self)

lemma marks_length: "lru_marks pc valid s xs ts \<Longrightarrow> length ts \<le> length xs"
  unfolding lru_marks_def dl_rep_def by (metis card_mono distinct_card List.finite_set)

lemma marks_tailSize: "lru_marks pc valid s xs ts \<Longrightarrow> unat (lc_tailSize (fst s)) = length ts"
  using marks_length [of s xs ts] rep_length [of "(lc_lru (fst s), im_hooks (snd s))" xs]
  by (auto simp: lru_marks_def unsigned_of_nat take_bit_nat_eq_self)

lemma growTail_ok:
  assumes "dl_rep pc valid (dl, im_hooks m) (ws @ ts)" and "ts \<noteq> []"
    and "\<forall>a\<in>valid. isTail m a \<longleftrightarrow> a \<in> set ts"
  shows "\<exists>ws' ts' m'. growTail dl e (first_ptr ts None) (of_nat (length ts)) m = Inr (first_ptr ts' None, of_nat (length ts'), m') \<and>
     ws' @ ts' = ws @ ts \<and> length ts' = max (length ts) (min (unat e) (length (ws @ ts))) \<and>
     tail_marks_only m m' \<and> (\<forall>a\<in>valid. isTail m' a \<longleftrightarrow> a \<in> set ts')"
  using assms
proof (induction ws arbitrary: ts m rule: rev_induct)
  case Nil
  then have "first_ptr ts None = dl_head dl" by (simp add: dl_rep_def)
  then have "growTail dl e (first_ptr ts None) (of_nat (length ts)) m = Inr (first_ptr ts None, of_nat (length ts), m)"
    by (subst growTail.simps) simp
  then show ?case using Nil.prems by (intro exI [of _ "[]"] exI [of _ ts] exI [of _ m]) simp
next
  case (snoc p ws)
  obtain x ts0 where ts: "ts = x # ts0" using snoc.prems(2) by (cases ts) auto
  have hc: "has_compressor pc dl" and d: "distinct (ws @ p # ts)" and p: "p \<in> valid"
    and hd: "dl_head dl = first_ptr ws (Some p)" and pv: "dl_prev pc (im_hooks m) x = Some p"
    using snoc.prems(1) by (auto simp: dl_rep_def ts dlseg_append)
  have len: "length ts < 2 ^ 64" using rep_length [OF snoc.prems(1)] by simp
  have ne: "first_ptr ts None \<noteq> dl_head dl" using d by (simp add: hd ts eq_sym_conv)
  show ?case
  proof (cases "of_nat (length ts) < e")
    case False
    then have "unat e \<le> length ts" using len
      by (simp add: word_less_nat_alt unsigned_of_nat take_bit_nat_eq_self)
    moreover have "growTail dl e (first_ptr ts None) (of_nat (length ts)) m = Inr (first_ptr ts None, of_nat (length ts), m)"
      using False by (subst growTail.simps) simp
    ultimately show ?thesis using snoc.prems by (intro exI [of _ "ws @ [p]"] exI [of _ ts] exI [of _ m]) simp
  next
    case True
    have lt: "length ts < unat e" using True len
      by (simp add: word_less_nat_alt unsigned_of_nat take_bit_nat_eq_self)
    have eq: "growTail dl e (first_ptr ts None) (of_nat (length ts)) m =
        growTail dl e (first_ptr (p # ts) None) (of_nat (length (p # ts))) (markTail p m)"
      using True ne hc pv by (subst growTail.simps) (simp add: ts add.commute)
    have "dl_rep pc valid (dl, im_hooks (markTail p m)) (ws @ p # ts)"
      "\<forall>a\<in>valid. isTail (markTail p m) a \<longleftrightarrow> a \<in> set (p # ts)"
      using snoc.prems by auto
    from snoc.IH [OF this(1) _ this(2)] obtain ws' ts' m' where
      "growTail dl e (first_ptr (p # ts) None) (of_nat (length (p # ts))) (markTail p m) = Inr (first_ptr ts' None, of_nat (length ts'), m')"
      "ws' @ ts' = ws @ p # ts" "length ts' = max (length (p # ts)) (min (unat e) (length (ws @ p # ts)))"
      "tail_marks_only m m'" "\<forall>a\<in>valid. isTail m' a \<longleftrightarrow> a \<in> set ts'"
      by auto
    moreover from this(3) have "length ts' = max (length ts) (min (unat e) (length ((ws @ [p]) @ ts)))"
      using lt by (simp only: max_def min_def length_append list.size) (auto split: if_splits)
    ultimately show ?thesis unfolding eq by (intro exI [of _ ws'] exI [of _ ts'] exI [of _ m']) simp
  qed
qed

lemma shrinkTail_ok:
  assumes "dl_rep pc valid (dl, im_hooks m) (ws @ ts)" and "ts \<noteq> []"
    and "\<forall>a\<in>valid. isTail m a \<longleftrightarrow> a \<in> set ts"
  shows "\<exists>ws' ts' m'. shrinkTail dl e (first_ptr ts None) (of_nat (length ts)) m = Inr (first_ptr ts' None, of_nat (length ts'), m') \<and>
     ws' @ ts' = ws @ ts \<and> length ts' = min (length ts) (max 1 (unat e)) \<and>
     tail_marks_only m m' \<and> (\<forall>a\<in>valid. isTail m' a \<longleftrightarrow> a \<in> set ts')"
  using assms
proof (induction ts arbitrary: ws m)
  case Nil
  then show ?case by simp
next
  case (Cons x ts)
  have hc: "has_compressor pc dl" and d: "distinct (ws @ x # ts)"
    and tl: "dl_tail dl = last_ptr (Some x) ts" and nx: "dl_next pc (im_hooks m) x = first_ptr ts None"
    using Cons.prems(1) by (auto simp: dl_rep_def dlseg_append)
  have len: "Suc (length ts) < 2 ^ 64" using rep_length [OF Cons.prems(1)] by simp
  have u: "unat (of_nat (length (x # ts)) :: size_t) = Suc (length ts)" using len
    by (simp add: unsigned_of_nat take_bit_nat_eq_self del: of_nat_Suc)
  show ?case
  proof (cases "e < of_nat (length (x # ts)) \<and> ts \<noteq> []")
    case False
    then have "min (length (x # ts)) (max 1 (unat e)) = length (x # ts)"
      using u by (auto simp: word_less_nat_alt not_less simp del: of_nat_Suc)
    moreover have "shrinkTail dl e (first_ptr (x # ts) None) (of_nat (length (x # ts))) m =
        Inr (first_ptr (x # ts) None, of_nat (length (x # ts)), m)"
      using False by (subst shrinkTail.simps) (auto simp: tl)
    ultimately show ?thesis using Cons.prems by (intro exI [of _ ws] exI [of _ "x # ts"] exI [of _ m]) simp
  next
    case True
    have lt: "unat e \<le> length ts" "ts \<noteq> []" using True u by (simp_all add: word_less_nat_alt del: of_nat_Suc)
    have ne: "Some x \<noteq> dl_tail dl" using d True by (auto simp: tl last_ptr_def)
    have eq: "shrinkTail dl e (first_ptr (x # ts) None) (of_nat (length (x # ts))) m =
        shrinkTail dl e (first_ptr ts None) (of_nat (length ts)) (unmarkTail x m)"
      using True ne hc nx by (subst shrinkTail.simps) simp
    have "dl_rep pc valid (dl, im_hooks (unmarkTail x m)) ((ws @ [x]) @ ts)"
      "\<forall>a\<in>valid. isTail (unmarkTail x m) a \<longleftrightarrow> a \<in> set ts"
      using Cons.prems d by auto
    from Cons.IH [OF this(1) lt(2) this(2)] obtain ws' ts' m' where
      "shrinkTail dl e (first_ptr ts None) (of_nat (length ts)) (unmarkTail x m) = Inr (first_ptr ts' None, of_nat (length ts'), m')"
      "ws' @ ts' = ws @ x # ts" "length ts' = min (length ts) (max 1 (unat e))"
      "tail_marks_only m m'" "\<forall>a\<in>valid. isTail m' a \<longleftrightarrow> a \<in> set ts'"
      by auto
    moreover have "min (length ts) (max 1 (unat e)) = min (length (x # ts)) (max 1 (unat e))"
      using lt by (cases ts) (auto simp: min_def max_def)
    ultimately show ?thesis unfolding eq by (intro exI [of _ ws'] exI [of _ ts'] exI [of _ m']) simp
  qed
qed

end

section \<open>The insertion point is brought back into place\<close>

context lru_items
begin

text \<open>A missing insertion point is first set to the tail of the list.\<close>

lemma init_insertion_point:
  assumes "lru_core pc valid (c, m) ws ts" and "cf_lruInsertionPointSpec (lc_config c) \<noteq> 0"
  obtains ws1 ts1 m1 where
    "(if lc_insertionPoint c = None then
        (let c0 = c\<lparr>lc_insertionPoint := dl_tail (lc_lru c), lc_tailSize := 0\<rparr>
         in (case lc_insertionPoint c0 of None \<Rightarrow> (c0, m)
             | Some ip \<Rightarrow> (c0\<lparr>lc_tailSize := lc_tailSize c0 + 1\<rparr>, markTail ip m)))
      else (c, m)) = (c\<lparr>lc_insertionPoint := first_ptr ts1 None, lc_tailSize := of_nat (length ts1)\<rparr>, m1)"
    "ws1 @ ts1 = ws @ ts" "ts1 = [] \<longleftrightarrow> ws @ ts = []" "tail_marks_only m m1"
    "\<forall>a\<in>valid. isTail m1 a \<longleftrightarrow> a \<in> set ts1"
proof (cases "ts = [] \<and> ws \<noteq> []")
  case True
  then obtain ws0 x where ws: "ws = ws0 @ [x]" by (cases ws rule: rev_cases) auto
  show thesis
    by (rule that [of "[x]" "markTail x m" ws0])
       (use assms True in \<open>auto simp: lru_core_def lru_marks_def dl_rep_def ws\<close>)
next
  case False
  have c: "c = c\<lparr>lc_insertionPoint := first_ptr ts None, lc_tailSize := of_nat (length ts)\<rparr>"
    using assms(1) by (cases c) (simp add: lru_core_def lru_marks_def)
  show thesis
    by (rule that [of ts m ws])
       (use assms False c in \<open>auto simp: lru_core_def lru_marks_def dl_rep_def\<close>)
qed

lemma update_ok:
  assumes core: "lru_core pc valid (c, m) ws ts" and "lru_spec (c, m) = 0 \<longrightarrow> ts = []"
  shows "\<exists>ws' ts' m'. updateLruInsertionPoint (c, m) =
       Inr (c\<lparr>lc_insertionPoint := first_ptr ts' None, lc_tailSize := of_nat (length ts')\<rparr>, m') \<and>
     ws' @ ts' = ws @ ts \<and> length ts' = tail_target (length (ws @ ts)) (lru_spec (c, m)) \<and>
     tail_marks_only m m' \<and> (\<forall>a\<in>valid. isTail m' a \<longleftrightarrow> a \<in> set ts')"
proof (cases "cf_lruInsertionPointSpec (lc_config c) = 0")
  case True
  then have ts: "ts = []" using assms(2) by (simp add: lru_spec_def)
  have c: "c = c\<lparr>lc_insertionPoint := None, lc_tailSize := 0\<rparr>"
    using core ts by (cases c) (simp add: lru_core_def lru_marks_def)
  show ?thesis using True core c
    by (intro exI [of _ ws] exI [of _ "[]"] exI [of _ m])
       (auto simp: ts updateLruInsertionPoint_def tail_target_def lru_spec_def lru_core_def lru_marks_def)
next
  case False
  define n where "n = length (ws @ ts)"
  define e :: size_t where "e = drop_bit (lru_spec (c, m)) (dl_size (lc_lru c))"
  have spec: "0 < lru_spec (c, m)" using False by (simp add: lru_spec_def unat_gt_0)
  have rep: "dl_rep pc valid (lc_lru c, im_hooks m) (ws @ ts)" using core by (simp add: lru_core_def lru_marks_def)
  have size: "unat (dl_size (lc_lru c)) = n" using rep_size [OF rep] by (simp add: n_def)
  have e: "unat e = n div 2 ^ lru_spec (c, m)" unfolding e_def by (subst unat_drop_bit_eq) (simp add: drop_bit_eq_div size)
  obtain ws1 ts1 m1 where init: "(if lc_insertionPoint c = None then
        (let c0 = c\<lparr>lc_insertionPoint := dl_tail (lc_lru c), lc_tailSize := 0\<rparr>
         in (case lc_insertionPoint c0 of None \<Rightarrow> (c0, m)
             | Some ip \<Rightarrow> (c0\<lparr>lc_tailSize := lc_tailSize c0 + 1\<rparr>, markTail ip m)))
      else (c, m)) = (c\<lparr>lc_insertionPoint := first_ptr ts1 None, lc_tailSize := of_nat (length ts1)\<rparr>, m1)"
    and xs1: "ws1 @ ts1 = ws @ ts" and ne: "ts1 = [] \<longleftrightarrow> ws @ ts = []" and t1: "tail_marks_only m m1"
    and marks1: "\<forall>a\<in>valid. isTail m1 a \<longleftrightarrow> a \<in> set ts1"
    by (rule init_insertion_point [OF core False])
  show ?thesis
  proof (cases "n \<le> 1")
    case True
    then have "dl_size (lc_lru c) \<le> 1" by (simp add: word_le_nat_alt size)
    then have "updateLruInsertionPoint (c, m) =
        Inr (c\<lparr>lc_insertionPoint := first_ptr ts1 None, lc_tailSize := of_nat (length ts1)\<rparr>, m1)"
      using False init by (simp add: updateLruInsertionPoint_def)
    moreover have "length ts1 = tail_target n (lru_spec (c, m))"
    proof -
      have "length ts1 \<le> n" "ts1 = [] \<longleftrightarrow> n = 0" using arg_cong [OF xs1, of length] ne by (auto simp: n_def)
      then have "length ts1 = n" using True by (cases ts1) auto
      then show ?thesis using True spec by (simp add: tail_target_small)
    qed
    ultimately show ?thesis using xs1 t1 marks1
      by (intro exI [of _ ws1] exI [of _ ts1] exI [of _ m1]) (simp add: n_def)
  next
    case big: False
    then have ts1: "ts1 \<noteq> []" using ne by (auto simp: n_def)
    have nle: "\<not> dl_size (lc_lru c) \<le> 1" using big by (simp add: word_le_nat_alt size)
    have r1: "dl_rep pc valid (lc_lru c, im_hooks m1) (ws1 @ ts1)" using rep xs1 tail_marks_onlyD(1) [OF t1] by simp
    from growTail_ok [OF r1 ts1 marks1, of e] obtain ws2 ts2 m2 where
      g: "growTail (lc_lru c) e (first_ptr ts1 None) (of_nat (length ts1)) m1 = Inr (first_ptr ts2 None, of_nat (length ts2), m2)"
      and xs2: "ws2 @ ts2 = ws1 @ ts1" and l2: "length ts2 = max (length ts1) (min (unat e) (length (ws1 @ ts1)))"
      and t2: "tail_marks_only m1 m2" and marks2: "\<forall>a\<in>valid. isTail m2 a \<longleftrightarrow> a \<in> set ts2"
      by blast
    have r2: "dl_rep pc valid (lc_lru c, im_hooks m2) (ws2 @ ts2)" using r1 xs2 tail_marks_onlyD(1) [OF t2] by simp
    have "length ts1 \<le> length ts2" using l2 by simp
    then have ts2: "ts2 \<noteq> []" using ts1 by auto
    from shrinkTail_ok [OF r2 ts2 marks2, of e] obtain ws3 ts3 m3 where
      s: "shrinkTail (lc_lru c) e (first_ptr ts2 None) (of_nat (length ts2)) m2 = Inr (first_ptr ts3 None, of_nat (length ts3), m3)"
      and xs3: "ws3 @ ts3 = ws2 @ ts2" and l3: "length ts3 = min (length ts2) (max 1 (unat e))"
      and t3: "tail_marks_only m2 m3" and marks3: "\<forall>a\<in>valid. isTail m3 a \<longleftrightarrow> a \<in> set ts3"
      by blast
    have upd: "updateLruInsertionPoint (c, m) =
        Inr (c\<lparr>lc_insertionPoint := first_ptr ts3 None, lc_tailSize := of_nat (length ts3)\<rparr>, m3)"
      using False init nle g s by (simp add: updateLruInsertionPoint_def e_def lru_spec_def)
    have "unat e \<le> n" by (simp add: e)
    then have "length ts3 = max 1 (unat e)"
      using l2 l3 ts1 xs1 by (simp add: n_def) (auto simp: max_def min_def Suc_le_eq split: if_splits)
    then have len: "length ts3 = tail_target n (lru_spec (c, m))"
      using big spec by (simp add: tail_target_def e)
    show ?thesis
      using upd len xs1 xs2 xs3 tail_marks_only_trans [OF t1 tail_marks_only_trans [OF t2 t3]] marks3
      by (intro exI [of _ ws3] exI [of _ ts3] exI [of _ m3]) (simp add: n_def)
  qed
qed

end

section \<open>The operations on the two lists\<close>

lemma on_lru_fst: "on_lru f (c, m) = (c\<lparr>lc_lru := fst (f (lc_lru c, im_hooks m))\<rparr>, m\<lparr>im_hooks := snd (f (lc_lru c, im_hooks m))\<rparr>)"
  by (simp add: on_lru_def split: prod.splits)

text \<open>Setting a time changes no link.\<close>

lemma rep_setUpdateTime [simp]:
  "dl_rep pc D (dl, im_hooks (node_setUpdateTime n t m)) xs = dl_rep pc D (dl, im_hooks m) xs"
  by (rule dl_rep_hooks) (simp add: node_setUpdateTime_def setUpdateTime_def)

lemma remove1_appendD: "distinct (ws @ ts) \<Longrightarrow> remove1 x (ws @ ts) = remove1 x ws @ remove1 x ts"
  by (auto simp: remove1_append intro!: remove1_idem [symmetric])

text \<open>A result of \<open>updateLruInsertionPoint\<close>, with the lists it settles on.\<close>

definition lru_settled :: "'c PtrCompressor \<Rightarrow> addr set \<Rightarrow> 'c lru \<Rightarrow> addr list \<Rightarrow> 'c lru \<Rightarrow> bool" where
  "lru_settled pc D s xs s' \<longleftrightarrow> (\<exists>ws ts. lru_inv pc D s' ws ts \<and> ws @ ts = xs \<and>
     length ts = tail_target (length xs) (lru_spec s') \<and> lc_config (fst s') = lc_config (fst s) \<and>
     tail_marks_only (snd s) (snd s'))"

context lru_items
begin

lemma core_retail:
  assumes "lru_core pc valid (c, m) ws ts" and "ws' @ ts' = ws @ ts" and "tail_marks_only m m'"
    and "\<forall>a\<in>valid. isTail m' a \<longleftrightarrow> a \<in> set ts'"
  shows "lru_core pc valid (c\<lparr>lc_insertionPoint := first_ptr ts' None, lc_tailSize := of_nat (length ts')\<rparr>, m') ws' ts'"
proof -
  have "distinct (ws' @ ts')" unfolding assms(2) using assms(1) by (simp add: lru_core_def lru_marks_def dl_rep_def)
  then have "distinct ts'" "set ts' \<subseteq> set (ws @ ts)" using arg_cong [OF assms(2), of set] by auto
  then show ?thesis using assms tail_marks_onlyD [OF assms(3)] by (auto simp: lru_core_def lru_marks_def)
qed

lemma update_settled:
  assumes "lru_core pc valid s ws ts" and "lru_spec s = 0 \<longrightarrow> ts = []" and "lc_compressor (fst s) = pc"
  shows "\<exists>s'. updateLruInsertionPoint s = Inr s' \<and> lru_settled pc valid s (ws @ ts) s'"
proof -
  obtain c m where s: "s = (c, m)" by (cases s)
  from update_ok [OF assms(1,2) [unfolded s]] obtain ws' ts' m' where
    upd: "updateLruInsertionPoint (c, m) =
       Inr (c\<lparr>lc_insertionPoint := first_ptr ts' None, lc_tailSize := of_nat (length ts')\<rparr>, m')"
    and xs: "ws' @ ts' = ws @ ts" and len: "length ts' = tail_target (length (ws @ ts)) (lru_spec (c, m))"
    and t: "tail_marks_only m m'" and marks: "\<forall>a\<in>valid. isTail m' a \<longleftrightarrow> a \<in> set ts'"
    by blast
  note core = core_retail [OF assms(1) [unfolded s] xs t marks]
  have "lru_spec (c, m) = 0 \<longrightarrow> ts' = []" using len by (auto simp: tail_target_def)
  moreover have "ws' = [] \<longrightarrow> length ts' \<le> 1"
    using len tail_target_less [of "length (ws @ ts)" "lru_spec (c, m)"] arg_cong [OF xs, of length] by auto
  ultimately have "lru_settled pc valid s (ws @ ts)
      (c\<lparr>lc_insertionPoint := first_ptr ts' None, lc_tailSize := of_nat (length ts')\<rparr>, m')"
    using core xs len t assms(3) unfolding lru_settled_def s
    by (intro exI [of _ ws'] exI [of _ ts']) (simp add: lru_inv_def lru_spec_def)
  then show ?thesis using upd by (simp add: s)
qed

lemma add_ok:
  assumes inv: "lru_inv pc valid s ws ts" and node: "node \<in> valid" "\<not> item_isInMM (snd s) node"
  shows "\<exists>s'. MMLru_add now node s = Inr (True, s') \<and>
    (\<exists>s0. lru_settled pc valid s0 (if ts = [] then node # ws else ws @ node # ts) s' \<and> lc_config (fst s0) = lc_config (fst s) \<and>
       (\<forall>a. node_getUpdateTime (snd s0) a = (if a = node then now else node_getUpdateTime (snd s) a)))"
proof -
  obtain c m where s: "s = (c, m)" by (cases s)
  define f :: "'a DList \<times> 'a hooks \<Rightarrow> 'a DList \<times> 'a hooks"
    where "f = (if ts = [] then DList_linkAtHead node else DList_insertBefore (the (lc_insertionPoint c)) node)"
  define s0 where "s0 = (c\<lparr>lc_lru := fst (f (lc_lru c, im_hooks m))\<rparr>,
     unmarkAccessed node (node_setUpdateTime node now (item_markInMM node (m\<lparr>im_hooks := snd (f (lc_lru c, im_hooks m))\<rparr>))))"
  let ?ws = "if ts = [] then node # ws else ws @ [node]"
  have core: "lru_core pc valid (c, m) ws ts" and z: "lru_spec (c, m) = 0 \<longrightarrow> ts = []"
    using inv by (auto simp: lru_inv_def s)
  have rep: "dl_rep pc valid (lc_lru c, im_hooks m) (ws @ ts)" and nin: "node \<notin> set (ws @ ts)"
    and ip: "lc_insertionPoint c = first_ptr ts None"
    using core node by (auto simp: lru_core_def lru_marks_def s)
  have eq: "MMLru_add now node s = ebind (updateLruInsertionPoint s0) (\<lambda>s2. Inr (True, s2))"
    using node z ip by (cases ts) (auto simp: MMLru_add_def s s0_def f_def on_lru_fst lru_spec_def unat_eq_0 Let_def)
  have "dl_rep pc valid (f (lc_lru c, im_hooks m)) (?ws @ ts)"
  proof (cases ts)
    case Nil
    then show ?thesis using linkAtHead_rep [OF rep node(1) nin] by (simp add: f_def)
  next
    case (Cons x xs)
    then show ?thesis using insertBefore_rep [of _ ws x xs node] rep node(1) nin ip by (simp add: f_def)
  qed
  then have core0: "lru_core pc valid s0 ?ws ts"
    using core node nin by (auto simp: lru_core_def lru_marks_def s0_def ip)
  have time: "node_getUpdateTime (snd s0) a = (if a = node then now else node_getUpdateTime (snd s) a)" for a
    by (simp add: s0_def s f_def) (simp add: node_getUpdateTime_def getUpdateTime_def)
  have "lru_spec s0 = 0 \<longrightarrow> ts = []" "lc_compressor (fst s0) = pc" "lc_config (fst s0) = lc_config (fst s)"
    using z inv by (auto simp: s0_def lru_spec_def lru_inv_def s)
  with update_settled [OF core0] eq time show ?thesis by (cases ts) fastforce+
qed

end

text \<open>
  Before an item leaves its place the insertion point is moved off it: afterwards the
  insertion point is the first item of the tail without that item.
\<close>

context lru_items
begin

lemma ensure_ok:
  assumes inv: "lru_inv pc valid (c, m) ws ts" and node: "node \<in> set (ws @ ts)"
  shows "\<exists>ws' ts' c' m'. ensureNotInsertionPoint node (c, m) = (c', m') \<and> ws' @ ts' = ws @ ts \<and>
     lru_marks pc valid (c', m') (ws @ ts) ts' \<and> lc_insertionPoint c' = first_ptr (remove1 node ts') None \<and>
     lc_config c' = lc_config c \<and> lc_compressor c' = lc_compressor c \<and> lc_lru c' = lc_lru c \<and>
     tail_marks_only m m' \<and> (lru_spec (c, m) = 0 \<longrightarrow> ts' = [])"
proof -
  have core: "lru_core pc valid (c, m) ws ts" and z: "lru_spec (c, m) = 0 \<longrightarrow> ts = []"
    and w: "ws = [] \<longrightarrow> length ts \<le> 1" using inv by (auto simp: lru_inv_def)
  have marks: "lru_marks pc valid (c, m) (ws @ ts) ts" and ip: "lc_insertionPoint c = first_ptr ts None"
    using core by (auto simp: lru_core_def)
  consider (off) "first_ptr ts None \<noteq> Some node" | (only) "ws = []" "ts = [node]"
    | (grow) ws0 p ts0 where "ws = ws0 @ [p]" "ts = node # ts0"
    using w by (cases ts; cases ws rule: rev_cases) auto
  then show ?thesis
  proof cases
    case off
    then have "first_ptr (remove1 node ts) None = first_ptr ts None" by (cases ts) auto
    moreover have "ensureNotInsertionPoint node (c, m) = (c, m)"
      using off ip by (auto simp: ensureNotInsertionPoint_def)
    ultimately show ?thesis using marks ip z by (intro exI [of _ ws] exI [of _ ts] exI [of _ c] exI [of _ m]) simp
  next
    case only
    have "dl_rep pc valid (lc_lru c, im_hooks m) [node]" using marks by (simp add: lru_marks_def only)
    then have "DList_getPrev (lc_lru c) (im_hooks m) node = None" by (simp add: dl_rep_def)
    then have "ensureNotInsertionPoint node (c, m) = (c\<lparr>lc_insertionPoint := None\<rparr>, m)"
      using ip by (simp add: ensureNotInsertionPoint_def only)
    then show ?thesis using marks z only
      by (intro exI [of _ ws] exI [of _ ts] exI [of _ "c\<lparr>lc_insertionPoint := None\<rparr>"] exI [of _ m]) (simp add: lru_marks_def)
  next
    case grow
    have rep: "dl_rep pc valid (lc_lru c, im_hooks m) (ws0 @ p # node # ts0)" using marks by (simp add: lru_marks_def grow)
    then have prev: "DList_getPrev (lc_lru c) (im_hooks m) node = Some p" and d: "p \<notin> set ts" "p \<in> valid"
      by (auto simp: dl_rep_def dlseg_append grow)
    have "ensureNotInsertionPoint node (c, m) =
        (c\<lparr>lc_insertionPoint := Some p, lc_tailSize := lc_tailSize c + 1\<rparr>, markTail p m)"
      using ip prev by (simp add: ensureNotInsertionPoint_def grow)
    moreover have "lru_marks pc valid (c\<lparr>lc_insertionPoint := Some p, lc_tailSize := lc_tailSize c + 1\<rparr>, markTail p m)
        (ws @ ts) (p # ts)"
      using marks d by (auto simp: lru_marks_def grow)
    moreover have "first_ptr (remove1 node (p # ts)) None = Some p" using d by (auto simp: grow)
    ultimately show ?thesis using z
      by (intro exI [of _ ws0] exI [of _ "p # ts"]
            exI [of _ "c\<lparr>lc_insertionPoint := Some p, lc_tailSize := lc_tailSize c + 1\<rparr>"] exI [of _ "markTail p m"])
         (simp add: grow)
  qed
qed

text \<open>Taking the tail mark off an item takes it out of the tail.\<close>

lemma unTail_marks:
  assumes "lru_marks pc valid (c, m) xs ts" and "node \<in> valid"
  shows "unTail node (c, m) = (c\<lparr>lc_tailSize := of_nat (length (remove1 node ts))\<rparr>, snd (unTail node (c, m)))"
    and "lru_marks pc valid (unTail node (c, m)) xs (remove1 node ts)"
    and "tail_marks_only m (snd (unTail node (c, m)))"
proof -
  have t: "isTail m node \<longleftrightarrow> node \<in> set ts" "distinct ts" "set ts \<subseteq> set xs" "lc_tailSize c = of_nat (length ts)"
    using assms by (auto simp: lru_marks_def)
  have len: "of_nat (length (remove1 node ts)) = (if isTail m node then lc_tailSize c - 1 else lc_tailSize c)"
    using t by (cases ts) (auto simp: length_remove1 simp del: remove1.simps)
  have c: "c\<lparr>lc_tailSize := lc_tailSize c\<rparr> = c" by simp
  show u: "unTail node (c, m) = (c\<lparr>lc_tailSize := of_nat (length (remove1 node ts))\<rparr>, snd (unTail node (c, m)))"
    unfolding len by (simp add: unTail_def)
  show "tail_marks_only m (snd (unTail node (c, m)))" by (simp add: unTail_def)
  have "set (remove1 node ts) = set ts - {node}" using t by simp
  then show "lru_marks pc valid (unTail node (c, m)) xs (remove1 node ts)"
    using assms t len by (auto simp: lru_marks_def unTail_def split: if_splits)
qed

end

context lru_items
begin

text \<open>A tail that loses one item: the shape both removal and promotion leave behind.\<close>

lemma untail_core:
  assumes marks: "lru_marks pc valid (c, m) (ws @ ts) ts" and ip: "lc_insertionPoint c = first_ptr (remove1 node ts) None"
    and node: "node \<in> set (ws @ ts)"
    and rep: "dl_rep pc valid (dl, h) (ws' @ remove1 node ts)" and ws': "set ws' - {node} = set ws - {node}"
    and unlinked: "node \<notin> set ws' \<longrightarrow> \<not> item_isInMM m2 node"
      "\<And>a. a \<noteq> node \<or> node \<in> set ws' \<Longrightarrow> item_isInMM m2 a = item_isInMM m a"
    and m2: "\<And>a. isTail m2 a \<longleftrightarrow> isTail m a \<and> a \<noteq> node" "im_hooks m2 = h"
  shows "lru_core pc valid (c\<lparr>lc_lru := dl, lc_tailSize := of_nat (length (remove1 node ts))\<rparr>, m2) ws' (remove1 node ts)"
proof -
  have d: "distinct (ws @ ts)" "distinct ts" and t: "\<forall>a\<in>valid. isTail m a \<longleftrightarrow> a \<in> set ts"
    and l: "\<forall>a\<in>valid. item_isInMM m a \<longleftrightarrow> a \<in> set (ws @ ts)"
    using marks by (auto simp: lru_marks_def dl_rep_def)
  have r: "set (remove1 node ts) = set ts - {node}" "distinct (remove1 node ts)" using d by simp_all
  have "item_isInMM m2 a \<longleftrightarrow> a \<in> set (ws' @ remove1 node ts)" if "a \<in> valid" for a
    using that unlinked l ws' node r(1) by (cases "a = node") auto
  moreover have "isTail m2 a \<longleftrightarrow> a \<in> set (remove1 node ts)" if "a \<in> valid" for a
    using that t m2(1) r(1) by auto
  ultimately show ?thesis using rep ip r m2(2) by (simp add: lru_core_def lru_marks_def)
qed

lemma remove_ok:
  assumes inv: "lru_inv pc valid s ws ts" and node: "node \<in> set (ws @ ts)"
  shows "\<exists>s' s0. MMLru_removeLocked node s = Inr s' \<and> lru_settled pc valid s0 (remove1 node (ws @ ts)) s' \<and>
    lc_config (fst s0) = lc_config (fst s) \<and> (\<forall>a. node_getUpdateTime (snd s0) a = node_getUpdateTime (snd s) a)"
proof -
  obtain c m where s: "s = (c, m)" by (cases s)
  from ensure_ok [OF inv [unfolded s] node] obtain ws1 ts1 c1 m1 where
    ens: "ensureNotInsertionPoint node (c, m) = (c1, m1)" and xs: "ws1 @ ts1 = ws @ ts"
    and marks: "lru_marks pc valid (c1, m1) (ws @ ts) ts1" and ip: "lc_insertionPoint c1 = first_ptr (remove1 node ts1) None"
    and cfg: "lc_config c1 = lc_config c" and comp: "lc_compressor c1 = lc_compressor c"
    and t: "tail_marks_only m m1" and z: "lru_spec (c, m) = 0 \<longrightarrow> ts1 = []"
    by (elim exE conjE) (rule that; assumption)
  define r where "r = DList_remove node (lc_lru c1, im_hooks m1)"
  define u where "u = unTail node (c1\<lparr>lc_lru := fst r\<rparr>, unmarkAccessed node (m1\<lparr>im_hooks := snd r\<rparr>))"
  define s0 where "s0 = (fst u, item_unmarkInMM node (snd u))"
  have d: "distinct (ws1 @ ts1)" and n: "node \<in> valid" and tn: "isTail m1 node \<longleftrightarrow> node \<in> set ts1"
    and ts: "lc_tailSize c1 = of_nat (length ts1)"
    using marks node xs by (auto simp: lru_marks_def dl_rep_def)
  have ws1: "set (remove1 node ws1) - {node} = set ws1 - {node}" "node \<notin> set (remove1 node ws1)" using d by auto
  obtain as bs where ab: "ws @ ts = as @ node # bs" using node by (metis in_set_conv_decomp)
  then have "dl_rep pc valid (lc_lru c1, im_hooks m1) (as @ node # bs)" using marks by (simp add: lru_marks_def)
  note rep1 = remove_rep(1) [OF this, folded r_def]
  have "node \<notin> set as" using d unfolding xs ab by auto
  then have "remove1 node (ws @ ts) = as @ bs" unfolding ab by (simp add: remove1_append)
  then have rep: "dl_rep pc valid r (remove1 node ws1 @ remove1 node ts1)"
    using rep1 remove1_appendD [OF d, of node] xs by simp
  have u: "u = (c1\<lparr>lc_lru := fst r, lc_tailSize := of_nat (length (remove1 node ts1))\<rparr>, snd u)"
    using tn ts by (cases ts1) (auto simp: u_def unTail_def length_remove1 simp del: remove1.simps)
  have "lru_core pc valid (c1\<lparr>lc_lru := fst r, lc_tailSize := of_nat (length (remove1 node ts1))\<rparr>, snd s0)
      (remove1 node ws1) (remove1 node ts1)"
    by (rule untail_core [OF marks [folded xs] ip _ _ ws1(1)])
       (use rep node xs ws1(2) in \<open>auto simp: s0_def u_def unTail_def split: if_splits\<close>)
  then have core: "lru_core pc valid s0 (remove1 node ws1) (remove1 node ts1)"
    unfolding s0_def by (subst (asm) snd_conv, subst u) simp
  have c0: "lc_config (fst s0) = lc_config c" "lc_compressor (fst s0) = pc" "lru_spec s0 = 0 \<longrightarrow> remove1 node ts1 = []"
    using cfg comp inv z u by (auto simp: s0_def lru_spec_def lru_inv_def s u_def unTail_def)
  have "MMLru_removeLocked node s = updateLruInsertionPoint s0"
    by (simp add: MMLru_removeLocked_def s ens on_lru_fst s0_def u_def r_def split: prod.splits)
  moreover have "node_getUpdateTime (snd s0) a = node_getUpdateTime (snd s) a" for a
    using tail_marks_onlyD(1) [OF t]
    by (simp add: s0_def u_def unTail_def s) (simp add: node_getUpdateTime_def getUpdateTime_def r_def)
  moreover obtain s' where "updateLruInsertionPoint s0 = Inr s'"
    "lru_settled pc valid s0 (remove1 node (ws @ ts)) s'"
    using update_settled [OF core c0(3,2)] remove1_appendD [OF d, of node] xs by auto
  ultimately show ?thesis using c0(1) by (intro exI [of _ s'] exI [of _ s0]) (simp add: s)
qed

end

lemma reconfigureLocked_frame:
  obtains nt rt where
    "reconfigureLocked mulRatio now cur (c, m) = (c\<lparr>lc_nextReconfigureTime := nt, lc_lruRefreshTime := rt\<rparr>, m)"
proof (cases "cur < lc_nextReconfigureTime c")
  case True
  show thesis
    by (rule that [of "lc_lruRefreshTime c" "lc_nextReconfigureTime c"]) (simp add: reconfigureLocked_def True)
next
  case False
  then show thesis using that by (fastforce simp: reconfigureLocked_def Let_def)
qed

lemma lru_inv_times [simp]:
  "lru_inv pc D (c\<lparr>lc_nextReconfigureTime := nt, lc_lruRefreshTime := rt\<rparr>, m) ws ts = lru_inv pc D (c, m) ws ts"
  by (simp add: lru_inv_def lru_core_def lru_marks_def lru_spec_def)

context lru_items
begin

lemma recordAccess_func_ok:
  assumes inv: "lru_inv pc valid s ws ts" and node: "node \<in> set (ws @ ts)"
  shows "\<exists>s' ws' ts'. recordAccess_func mulRatio now node cur s = Inr s' \<and> lru_inv pc valid s' ws' ts' \<and>
    ws' @ ts' = node # remove1 node (ws @ ts) \<and> lc_config (fst s') = lc_config (fst s) \<and>
    (\<forall>a. node_getUpdateTime (snd s') a = (if a = node then cur else node_getUpdateTime (snd s) a))"
proof -
  obtain c0 m where s: "s = (c0, m)" by (cases s)
  obtain nt rt where "reconfigureLocked mulRatio now cur (c0, m) =
      (c0\<lparr>lc_nextReconfigureTime := nt, lc_lruRefreshTime := rt\<rparr>, m)"
    by (rule reconfigureLocked_frame)
  moreover define c where "c = c0\<lparr>lc_nextReconfigureTime := nt, lc_lruRefreshTime := rt\<rparr>"
  ultimately have rec: "reconfigureLocked mulRatio now cur (c0, m) = (c, m)" by simp
  have inv1: "lru_inv pc valid (c, m) ws ts" and cfg0: "lc_config c = lc_config c0" using inv by (simp_all add: s c_def)
  from ensure_ok [OF inv1 node] obtain ws1 ts1 c1 m1 where
    ens: "ensureNotInsertionPoint node (c, m) = (c1, m1)" and xs: "ws1 @ ts1 = ws @ ts"
    and marks: "lru_marks pc valid (c1, m1) (ws @ ts) ts1" and ip: "lc_insertionPoint c1 = first_ptr (remove1 node ts1) None"
    and cfg: "lc_config c1 = lc_config c" and comp: "lc_compressor c1 = lc_compressor c"
    and t: "tail_marks_only m m1" and z: "lru_spec (c, m) = 0 \<longrightarrow> ts1 = []"
    by (elim exE conjE) (rule that; assumption)
  define r where "r = DList_moveToHead node (lc_lru c1, im_hooks m1)"
  define m2 where "m2 = node_setUpdateTime node cur (m1\<lparr>im_hooks := snd r\<rparr>)"
  define m3 where "m3 = (if isTail m1 node then unmarkTail node m2 else m2)"
  define c3 where "c3 = c1\<lparr>lc_lru := fst r, lc_tailSize := of_nat (length (remove1 node ts1))\<rparr>"
  let ?ws = "node # remove1 node ws1"
  have d: "distinct (ws1 @ ts1)" and n: "node \<in> valid" and tn: "isTail m1 node \<longleftrightarrow> node \<in> set ts1"
    and ts: "lc_tailSize c1 = of_nat (length ts1)" and mm: "item_isInMM m1 node"
    using marks node xs by (auto simp: lru_marks_def dl_rep_def)
  have ws1: "set ?ws - {node} = set ws1 - {node}" using d by auto
  obtain as bs where ab: "ws @ ts = as @ node # bs" using node by (metis in_set_conv_decomp)
  then have "dl_rep pc valid (lc_lru c1, im_hooks m1) (as @ node # bs)" using marks by (simp add: lru_marks_def)
  note rep1 = moveToHead_rep [OF this, folded r_def]
  have "node \<notin> set as" using d unfolding xs ab by auto
  then have ab': "remove1 node (ws @ ts) = as @ bs" unfolding ab by (simp add: remove1_append)
  then have rep: "dl_rep pc valid (fst r, im_hooks m3) (?ws @ remove1 node ts1)"
    using rep1 remove1_appendD [OF d, of node] xs by (simp add: m3_def m2_def)
  have core: "lru_core pc valid (c3, m3) ?ws (remove1 node ts1)"
    unfolding c3_def
    by (rule untail_core [OF marks [folded xs] ip _ rep ws1]) (use node xs in \<open>auto simp: m3_def m2_def\<close>)
  have z3: "lru_spec (c3, m3) = 0 \<longrightarrow> remove1 node ts1 = []" "lc_compressor c3 = pc"
    using z cfg comp inv1 by (auto simp: lru_spec_def c3_def lru_inv_def)
  have times: "node_getUpdateTime m3 a = (if a = node then cur else node_getUpdateTime m a)" for a
    using tail_marks_onlyD(1) [OF t]
    by (simp add: m3_def m2_def) (simp add: node_getUpdateTime_def getUpdateTime_def r_def)
  have c3: "c3 = (if isTail m1 node then c1\<lparr>lc_lru := fst r, lc_tailSize := lc_tailSize c1 - 1\<rparr> else c1\<lparr>lc_lru := fst r\<rparr>)"
    using tn ts by (cases ts1) (auto simp: c3_def length_remove1 simp del: remove1.simps)
  have run: "recordAccess_func mulRatio now node cur s =
      (if isTail m1 node then updateLruInsertionPoint (c3, m3) else Inr (c3, m3))"
    using mm by (simp add: recordAccess_func_def s rec ens on_lru_fst Let_def unTail_def c3 m3_def m2_def r_def)
  have xs': "?ws @ remove1 node ts1 = node # remove1 node (ws @ ts)" using remove1_appendD [OF d, of node] xs by simp
  show ?thesis
  proof (cases "isTail m1 node")
    case False
    then show ?thesis using run core z3 xs' times cfg cfg0
      by (intro exI [of _ "(c3, m3)"] exI [of _ ?ws] exI [of _ "remove1 node ts1"]) (simp add: lru_inv_def s c3_def)
  next
    case True
    from update_settled [OF core z3(1)] obtain s' ws' ts' where u: "updateLruInsertionPoint (c3, m3) = Inr s'"
      "lru_inv pc valid s' ws' ts'" "ws' @ ts' = ?ws @ remove1 node ts1"
      "lc_config (fst s') = lc_config c3" "tail_marks_only m3 (snd s')"
      using z3(2) by (auto simp: lru_settled_def)
    then show ?thesis using True run xs' times cfg cfg0 tail_marks_onlyD(4) [OF u(5)]
      by (intro exI [of _ s'] exI [of _ ws'] exI [of _ ts']) (simp add: s c3_def)
  qed
qed

text \<open>The critical section does nothing to the list when the item left the container meanwhile.\<close>

lemma recordAccess_func_absent:
  assumes inv: "lru_inv pc valid s ws ts" and node: "node \<in> valid" "node \<notin> set (ws @ ts)"
  shows "\<exists>s'. recordAccess_func mulRatio now node cur s = Inr s' \<and> lru_inv pc valid s' ws ts \<and>
    snd s' = snd s \<and> lc_config (fst s') = lc_config (fst s)"
proof -
  obtain c m where s: "s = (c, m)" by (cases s)
  obtain nt rt where rec: "reconfigureLocked mulRatio now cur (c, m) =
      (c\<lparr>lc_nextReconfigureTime := nt, lc_lruRefreshTime := rt\<rparr>, m)"
    by (rule reconfigureLocked_frame)
  have "lc_insertionPoint c = first_ptr ts None" "\<not> item_isInMM m node" "\<not> isTail m node"
    using inv node by (auto simp: s lru_inv_def lru_core_def lru_marks_def)
  moreover have "first_ptr ts None \<noteq> Some node" using node by (auto dest: first_ptr_in_set)
  ultimately have "recordAccess_func mulRatio now node cur s = Inr (c\<lparr>lc_nextReconfigureTime := nt, lc_lruRefreshTime := rt\<rparr>, m)"
    by (simp add: recordAccess_func_def s rec ensureNotInsertionPoint_def eq_sym_conv)
  then show ?thesis using inv by (simp add: s)
qed

end

text \<open>Replacing an item keeps its place, its time and its marks.\<close>

definition renamed :: "addr \<Rightarrow> addr \<Rightarrow> addr list \<Rightarrow> addr list" where
  "renamed old new = map (\<lambda>x. if x = old then new else x)"

lemma renamed_simps [simp]:
  "renamed a b [] = []" "renamed a b (x # xs) = (if x = a then b else x) # renamed a b xs"
  "renamed a b (xs @ ys) = renamed a b xs @ renamed a b ys" "length (renamed a b xs) = length xs"
  "renamed a b xs = [] \<longleftrightarrow> xs = []"
  by (simp_all add: renamed_def)

lemma renamed_idle: "a \<notin> set xs \<Longrightarrow> renamed a b xs = xs"
  by (induction xs) auto

lemma set_renamed: "set (renamed a b xs) = (if a \<in> set xs then insert b (set xs - {a}) else set xs)"
  by (induction xs) auto

lemma distinct_renamed: "distinct xs \<Longrightarrow> b \<notin> set xs \<Longrightarrow> distinct (renamed a b xs)"
  by (induction xs) (auto simp: set_renamed)

lemma first_ptr_renamed:
  "first_ptr (renamed a b xs) None = (if first_ptr xs None = Some a then Some b else first_ptr xs None)"
  by (cases xs) auto

context lru_items
begin

lemma replace_ok:
  assumes inv: "lru_inv pc valid s ws ts" and old: "old \<in> set (ws @ ts)" and new: "new \<in> valid" "new \<notin> set (ws @ ts)"
  shows "\<exists>s'. MMLru_replace old new s = (True, s') \<and> lru_inv pc valid s' (renamed old new ws) (renamed old new ts) \<and>
    node_getUpdateTime (snd s') new = node_getUpdateTime (snd s) old \<and>
    (\<forall>a. a \<noteq> new \<longrightarrow> node_getUpdateTime (snd s') a = node_getUpdateTime (snd s) a) \<and>
    isAccessed (snd s') new = isAccessed (snd s) old \<and> lc_config (fst s') = lc_config (fst s)"
proof -
  obtain c m where s: "s = (c, m)" by (cases s)
  have marks: "lru_marks pc valid (c, m) (ws @ ts) ts" and ip: "lc_insertionPoint c = first_ptr ts None"
    and z: "lru_spec (c, m) = 0 \<longrightarrow> ts = []" and w: "ws = [] \<longrightarrow> length ts \<le> 1" and comp: "lc_compressor c = pc"
    using inv by (auto simp: s lru_inv_def lru_core_def)
  have d: "distinct (ws @ ts)" and ov: "old \<in> valid" and mm: "item_isInMM m old" "\<not> item_isInMM m new" "\<not> isTail m new"
    and neq: "old \<noteq> new" and t: "\<forall>a\<in>valid. isTail m a \<longleftrightarrow> a \<in> set ts" and l: "\<forall>a\<in>valid. item_isInMM m a \<longleftrightarrow> a \<in> set (ws @ ts)"
    using marks old new by (auto simp: lru_marks_def dl_rep_def)
  define r where "r = DList_replace old new (lc_lru c, im_hooks m)"
  define c1 where "c1 = (c\<lparr>lc_lru := fst r\<rparr>)\<lparr>lc_insertionPoint := first_ptr (renamed old new ts) None\<rparr>"
  define m1 where "m1 = node_setUpdateTime new (node_getUpdateTime m old) (item_markInMM new (item_unmarkInMM old (m\<lparr>im_hooks := snd r\<rparr>)))"
  define m2 where "m2 = (if isAccessed m old then markAccessed new m1 else unmarkAccessed new m1)"
  define m3 where "m3 = (if isTail m old then unmarkTail old (markTail new m2) else unmarkTail new m2)"
  obtain as bs where ab: "ws @ ts = as @ old # bs" using old by (metis in_set_conv_decomp)
  then have rep0: "dl_rep pc valid (lc_lru c, im_hooks m) (as @ old # bs)" using marks by (simp add: lru_marks_def)
  have "old \<notin> set as" "old \<notin> set bs" using d unfolding ab by auto
  then have "renamed old new (ws @ ts) = as @ new # bs" unfolding ab by (simp add: renamed_idle)
  then have rep: "dl_rep pc valid (fst r, im_hooks m3) (renamed old new ws @ renamed old new ts)"
    using replace_rep(1) [OF rep0 new(1) new(2) [unfolded ab], folded r_def] by (simp add: m3_def m2_def m1_def)
  have run: "MMLru_replace old new s = (True, (c1, m3))"
  proof -
    have "(c\<lparr>lc_lru := fst r\<rparr>)\<lparr>lc_insertionPoint := lc_insertionPoint c\<rparr> = c\<lparr>lc_lru := fst r\<rparr>" by simp
    then have "c1 = (if lc_insertionPoint c = Some old then c\<lparr>lc_lru := fst r, lc_insertionPoint := Some new\<rparr> else c\<lparr>lc_lru := fst r\<rparr>)"
      by (simp add: c1_def first_ptr_renamed ip)
    then show ?thesis using mm neq
      by (simp add: MMLru_replace_def s on_lru_fst Let_def m3_def m2_def m1_def r_def)
  qed
  have "lru_core pc valid (c1, m3) (renamed old new ws) (renamed old new ts)"
    using rep marks t l mm neq new d ov
    by (auto simp: lru_core_def lru_marks_def c1_def m3_def m2_def m1_def set_renamed distinct_renamed)
  moreover have "node_getUpdateTime m3 new = node_getUpdateTime m old" "isAccessed m3 new = isAccessed m old"
    by (simp_all add: m3_def m2_def m1_def)
  moreover have "node_getUpdateTime m3 a = node_getUpdateTime m a" if "a \<noteq> new" for a
    using that by (simp add: m3_def m2_def m1_def) (simp add: node_getUpdateTime_def getUpdateTime_def r_def)
  ultimately show ?thesis using run z w comp by (simp add: s lru_inv_def lru_spec_def c1_def)
qed

lemma clearTail_ok:
  assumes "dl_rep pc valid (dl, im_hooks m) (ws @ ts)" and "\<forall>a\<in>valid. isTail m a \<longleftrightarrow> a \<in> set ts"
  shows "\<exists>m'. clearTail dl (first_ptr ts None) (of_nat (length ts)) m = Inr m' \<and> tail_marks_only m m' \<and>
    (\<forall>a\<in>valid. \<not> isTail m' a)"
  using assms
proof (induction ts arbitrary: ws m)
  case Nil
  then show ?case by (subst clearTail.simps) simp
next
  case (Cons x ts)
  have hc: "has_compressor pc dl" and d: "x \<notin> set ts" and nx: "dl_next pc (im_hooks m) x = first_ptr ts None"
    using Cons.prems(1) by (auto simp: dl_rep_def dlseg_append)
  have "Suc (length ts) < 2 ^ 64" using rep_length [OF Cons.prems(1)] by simp
  then have "unat (of_nat (length (x # ts)) :: size_t) \<noteq> 0"
    by (simp add: unsigned_of_nat take_bit_nat_eq_self del: of_nat_Suc)
  then have "(of_nat (length (x # ts)) :: size_t) \<noteq> 0" by (metis unsigned_0)
  then have eq: "clearTail dl (first_ptr (x # ts) None) (of_nat (length (x # ts))) m =
      clearTail dl (first_ptr ts None) (of_nat (length ts)) (unmarkTail x m)"
    using hc nx by (subst clearTail.simps) simp
  have "dl_rep pc valid (dl, im_hooks (unmarkTail x m)) ((ws @ [x]) @ ts)"
    "\<forall>a\<in>valid. isTail (unmarkTail x m) a \<longleftrightarrow> a \<in> set ts"
    using Cons.prems d by auto
  from Cons.IH [OF this] show ?case unfolding eq by simp
qed

lemma setConfig_ok:
  assumes inv: "lru_inv pc valid s ws ts"
  shows "\<exists>s' ws' ts'. MMLru_setConfig now cfg s = Inr s' \<and> lru_inv pc valid s' ws' ts' \<and> ws' @ ts' = ws @ ts \<and>
    lc_config (fst s') = cfg \<and> tail_marks_only (snd s) (snd s')"
proof -
  obtain c m where s: "s = (c, m)" by (cases s)
  have marks: "lru_marks pc valid (c, m) (ws @ ts) ts" and ip: "lc_insertionPoint c = first_ptr ts None"
    and w: "ws = [] \<longrightarrow> length ts \<le> 1" and comp: "lc_compressor c = pc"
    using inv by (auto simp: s lru_inv_def lru_core_def)
  show ?thesis
  proof (cases "cf_lruInsertionPointSpec cfg = 0 \<and> ts \<noteq> []")
    case False
    then have "MMLru_setConfig now cfg s = Inr (c\<lparr>lc_config := cfg, lc_lruRefreshTime := cf_lruRefreshTime cfg,
        lc_nextReconfigureTime := reconfigureTime now cfg\<rparr>, m)"
      using ip by (auto simp: MMLru_setConfig_def s Let_def)
    then show ?thesis using False marks ip w comp
      by (intro exI exI [of _ ws] exI [of _ ts])
         (auto simp: s lru_inv_def lru_core_def lru_marks_def lru_spec_def unat_eq_0)
  next
    case True
    obtain m' where m': "clearTail (lc_lru c) (lc_insertionPoint c) (lc_tailSize c) m = Inr m'"
      and t: "tail_marks_only m m'" and no: "\<forall>a\<in>valid. \<not> isTail m' a"
      using clearTail_ok [of "lc_lru c" m ws ts] marks ip by (auto simp: lru_marks_def)
    then have "MMLru_setConfig now cfg s = Inr (c\<lparr>lc_config := cfg, lc_tailSize := 0, lc_insertionPoint := None,
        lc_lruRefreshTime := cf_lruRefreshTime cfg, lc_nextReconfigureTime := reconfigureTime now cfg\<rparr>, m')"
      using True ip by (simp add: MMLru_setConfig_def s Let_def)
    then show ?thesis using marks comp no t tail_marks_onlyD [OF t]
      by (intro exI exI [of _ "ws @ ts"] exI [of _ "[]"])
         (auto simp: s lru_inv_def lru_core_def lru_marks_def)
  qed
qed

end

section \<open>Histories of a container\<close>

text \<open>
  The steps of a container: its locked operations, the mark \<open>recordAccess\<close> sets without the
  lock, and whatever other parts of the cache do to the reference count words (handles,
  accessibility, exclusive marks) without touching the two bits the container owns.
\<close>

inductive lru_step :: "addr set \<Rightarrow> 'c lru \<Rightarrow> 'c lru \<Rightarrow> bool" for D where
  add: "node \<in> D \<Longrightarrow> MMLru_add now node s = Inr (b, t) \<Longrightarrow> lru_step D s t"
| remove: "node \<in> D \<Longrightarrow> MMLru_remove node s = Inr (b, t) \<Longrightarrow> lru_step D s t"
| removeIterator: "it_curr it = Some node \<Longrightarrow> node \<in> D \<Longrightarrow> item_isInMM (snd s) node \<Longrightarrow>
    MMLru_removeIterator it s = Inr (it', t) \<Longrightarrow> lru_step D s t"
| replace: "old \<in> D \<Longrightarrow> new \<in> D \<Longrightarrow> MMLru_replace old new s = (b, t) \<Longrightarrow> lru_step D s t"
| recordAccess_mark: "node \<in> D \<Longrightarrow> lru_step D s (recordAccess_mark node s)"
| recordAccess_func: "node \<in> D \<Longrightarrow> recordAccess_func mulRatio now node cur s = Inr t \<Longrightarrow> lru_step D s t"
| setConfig: "MMLru_setConfig now cfg s = Inr t \<Longrightarrow> lru_step D s t"
| other: "im_hooks (snd t) = im_hooks (snd s) \<Longrightarrow> fst t = fst s \<Longrightarrow>
    \<forall>a\<in>D. isTail (snd t) a = isTail (snd s) a \<and> item_isInMM (snd t) a = item_isInMM (snd s) a \<Longrightarrow> lru_step D s t"

inductive lru_reachable :: "'c PtrCompressor \<Rightarrow> addr set \<Rightarrow> 'c lru \<Rightarrow> bool" for pc D where
  init: "\<forall>a\<in>D. \<not> isTail m a \<and> \<not> item_isInMM m a \<Longrightarrow> lru_reachable pc D (MMLru_new now cfg pc, m)"
| step: "lru_reachable pc D s \<Longrightarrow> lru_step D s t \<Longrightarrow> lru_reachable pc D t"

text \<open>
  A history of a container without insertion point, with the time: \<open>tick\<close> lets the clock
  advance, and it never goes back.
\<close>

inductive lru_timed :: "'c PtrCompressor \<Rightarrow> addr set \<Rightarrow> 'c lru \<Rightarrow> u32 \<Rightarrow> bool" for pc D where
  init: "\<forall>a\<in>D. \<not> isTail m a \<and> \<not> item_isInMM m a \<Longrightarrow> cf_lruInsertionPointSpec cfg = 0 \<Longrightarrow>
    lru_timed pc D (MMLru_new now cfg pc, m) now"
| tick: "lru_timed pc D s now \<Longrightarrow> now \<le> now' \<Longrightarrow> lru_timed pc D s now'"
| add: "lru_timed pc D s now \<Longrightarrow> node \<in> D \<Longrightarrow> MMLru_add now node s = Inr (b, t) \<Longrightarrow> lru_timed pc D t now"
| remove: "lru_timed pc D s now \<Longrightarrow> node \<in> D \<Longrightarrow> MMLru_remove node s = Inr (b, t) \<Longrightarrow> lru_timed pc D t now"
| replace: "lru_timed pc D s now \<Longrightarrow> old \<in> D \<Longrightarrow> new \<in> D \<Longrightarrow> MMLru_replace old new s = (b, t) \<Longrightarrow>
    lru_timed pc D t now"
| recordAccess: "lru_timed pc D s now \<Longrightarrow> node \<in> D \<Longrightarrow>
    recordAccess mulRatio now' locked now node mode s = Inr (b, t) \<Longrightarrow> lru_timed pc D t now"

lemma lru_new_inv: "\<forall>a\<in>D. \<not> isTail m a \<and> \<not> item_isInMM m a \<Longrightarrow> lru_inv pc D (MMLru_new now cfg pc, m) [] []"
  using dl_rep_new [of pc D "im_hooks m"]
  by (simp add: MMLru_new_def lru_inv_def lru_core_def lru_marks_def)

lemma lru_inv_other:
  assumes "lru_inv pc D s ws ts" and "im_hooks (snd t) = im_hooks (snd s)" and "fst t = fst s"
    and "\<forall>a\<in>D. isTail (snd t) a = isTail (snd s) a \<and> item_isInMM (snd t) a = item_isInMM (snd s) a"
  shows "lru_inv pc D t ws ts"
  using assms by (simp add: lru_inv_def lru_core_def lru_marks_def lru_spec_def)

lemma recordAccess_mark_inv: "lru_inv pc D s ws ts \<Longrightarrow> lru_inv pc D (recordAccess_mark node s) ws ts"
  by (erule lru_inv_other) (auto simp: recordAccess_mark_def split: prod.splits)

lemma recordAccess_mark_frame [simp]:
  "fst (recordAccess_mark node s) = fst s" "im_hooks (snd (recordAccess_mark node s)) = im_hooks (snd s)"
  "node_getUpdateTime (snd (recordAccess_mark node s)) a = node_getUpdateTime (snd s) a"
  by (auto simp: recordAccess_mark_def split: prod.splits)

lemma settled_inv: "lru_settled pc D s0 xs s \<Longrightarrow> \<exists>ws ts. lru_inv pc D s ws ts"
  by (auto simp: lru_settled_def)

lemma inv_inMM: "lru_inv pc D s ws ts \<Longrightarrow> a \<in> D \<Longrightarrow> item_isInMM (snd s) a \<longleftrightarrow> a \<in> set (ws @ ts)"
  by (simp add: lru_inv_def lru_core_def lru_marks_def)

lemma inv_distinct: "lru_inv pc D s ws ts \<Longrightarrow> distinct (ws @ ts)"
  and inv_subset: "lru_inv pc D s ws ts \<Longrightarrow> set (ws @ ts) \<subseteq> D"
  by (simp_all add: lru_inv_def lru_core_def lru_marks_def dl_rep_def)

context lru_items
begin

lemma lru_step_inv:
  assumes "lru_step valid s t" and "lru_inv pc valid s ws ts"
  shows "\<exists>ws' ts'. lru_inv pc valid t ws' ts'"
  using assms
proof cases
  case (add node now b)
  show ?thesis
  proof (cases "item_isInMM (snd s) node")
    case True
    then show ?thesis using add assms(2) by (auto simp: MMLru_add_def)
  next
    case False
    show ?thesis using add_ok [OF assms(2) add(1) False, of now] add(2) by (auto simp: lru_settled_def)
  qed
next
  case (remove node b)
  show ?thesis
  proof (cases "node \<in> set (ws @ ts)")
    case True
    from remove_ok [OF assms(2) True] obtain s' s0 where "MMLru_removeLocked node s = Inr s'"
      "lru_settled pc valid s0 (remove1 node (ws @ ts)) s'" by blast
    then show ?thesis using True remove inv_inMM [OF assms(2) remove(1)]
      by (auto simp: MMLru_remove_def dest: settled_inv)
  next
    case False
    then show ?thesis using remove assms(2) inv_inMM [OF assms(2) remove(1)] by (auto simp: MMLru_remove_def)
  qed
next
  case (removeIterator it node it')
  then have "node \<in> set (ws @ ts)" using inv_inMM [OF assms(2)] by simp
  from remove_ok [OF assms(2) this] show ?thesis
    using removeIterator by (auto simp: MMLru_removeIterator_def Let_def dest: settled_inv)
next
  case (replace old new b)
  show ?thesis
  proof (cases "old \<in> set (ws @ ts) \<and> new \<notin> set (ws @ ts)")
    case True
    then show ?thesis using replace_ok [OF assms(2)] replace by fastforce
  next
    case False
    then have "t = s" using replace inv_inMM [OF assms(2)] by (auto simp: MMLru_replace_def)
    then show ?thesis using assms(2) by blast
  qed
next
  case (recordAccess_mark node)
  then show ?thesis using recordAccess_mark_inv [OF assms(2)] by blast
next
  case (recordAccess_func node mulRatio now cur)
  then show ?thesis
    using recordAccess_func_ok [OF assms(2), of node mulRatio now cur]
      recordAccess_func_absent [OF assms(2), of node mulRatio now cur] by (cases "node \<in> set (ws @ ts)") auto
next
  case (setConfig now cfg)
  then show ?thesis using setConfig_ok [OF assms(2), of now cfg] by auto
next
  case other
  then show ?thesis using lru_inv_other [OF assms(2)] by blast
qed

lemma lru_reachable_inv: "lru_reachable pc valid s \<Longrightarrow> \<exists>ws ts. lru_inv pc valid s ws ts"
proof (induction rule: lru_reachable.induct)
  case (init m now cfg)
  then show ?case using lru_new_inv by blast
next
  case (step s t)
  then show ?case using lru_step_inv by blast
qed

text \<open>No operation dereferences a null pointer.\<close>

lemma ops_defined:
  assumes inv: "lru_inv pc valid s ws ts" and node: "node \<in> valid"
  shows "\<exists>r. MMLru_add now node s = Inr r" and "\<exists>r. MMLru_remove node s = Inr r"
    and "\<exists>r. recordAccess mulRatio now locked cur node mode s = Inr r" and "\<exists>r. MMLru_setConfig now cfg s = Inr r"
proof -
  show "\<exists>r. MMLru_add now node s = Inr r"
    using add_ok [OF inv node, of now] by (cases "item_isInMM (snd s) node") (auto simp: MMLru_add_def)
  show "\<exists>r. MMLru_remove node s = Inr r"
    using remove_ok [OF inv, of node] inv_inMM [OF inv node] by (fastforce simp: MMLru_remove_def)
  show "\<exists>r. MMLru_setConfig now cfg s = Inr r" using setConfig_ok [OF inv] by blast
  note inv' = recordAccess_mark_inv [OF inv, of node]
  show "\<exists>r. recordAccess mulRatio now locked cur node mode s = Inr r"
    using recordAccess_func_ok [OF inv', of node mulRatio now cur]
      recordAccess_func_absent [OF inv' node, of mulRatio now cur]
    by (cases "node \<in> set (ws @ ts)") (auto simp: recordAccess_def Let_def)
qed

end

section \<open>Least recently used order\<close>

definition lru_ordered :: "'c lru \<Rightarrow> u32 \<Rightarrow> addr list \<Rightarrow> bool" where
  "lru_ordered s now xs \<longleftrightarrow>
     sorted_wrt (\<lambda>a b. node_getUpdateTime (snd s) b \<le> node_getUpdateTime (snd s) a) xs \<and>
     (\<forall>a\<in>set xs. node_getUpdateTime (snd s) a \<le> now)"

lemma sorted_wrt_remove1: "sorted_wrt P xs \<Longrightarrow> sorted_wrt P (remove1 x xs)"
  by (induction xs) (auto dest: notin_set_remove1 [rotated])

lemma ordered_cong:
  "(\<And>a. a \<in> set xs \<Longrightarrow> node_getUpdateTime (snd s) a = node_getUpdateTime (snd t) a) \<Longrightarrow>
    lru_ordered s now xs = lru_ordered t now xs"
  unfolding lru_ordered_def by (induction xs) auto

lemma ordered_remove1: "lru_ordered s now xs \<Longrightarrow> lru_ordered s now (remove1 x xs)"
  by (auto simp: lru_ordered_def sorted_wrt_remove1 dest: notin_set_remove1 [rotated])

lemma ordered_later: "lru_ordered s now xs \<Longrightarrow> now \<le> now' \<Longrightarrow> lru_ordered s now' xs"
  by (auto simp: lru_ordered_def)

lemma ordered_front:
  assumes "lru_ordered s now xs" and "x \<notin> set xs"
    and "\<And>a. node_getUpdateTime (snd t) a = (if a = x then now else node_getUpdateTime (snd s) a)"
  shows "lru_ordered t now (x # xs)"
proof -
  have "node_getUpdateTime (snd s) a = node_getUpdateTime (snd t) a" if "a \<in> set xs" for a
    using that assms(2,3) by auto
  then have "lru_ordered t now xs" using assms(1) ordered_cong [of xs s t now] by blast
  then show ?thesis using assms(1,3) by (auto simp: lru_ordered_def)
qed

lemma ordered_renamed:
  assumes "lru_ordered s now xs" and "distinct xs" and "new \<notin> set xs"
    and "node_getUpdateTime (snd t) new = node_getUpdateTime (snd s) old"
    and "\<And>a. a \<noteq> new \<Longrightarrow> node_getUpdateTime (snd t) a = node_getUpdateTime (snd s) a"
  shows "lru_ordered t now (renamed old new xs)"
proof -
  define f where "f = (\<lambda>a. if a = old then new else a)"
  have eq: "node_getUpdateTime (snd t) (f a) = node_getUpdateTime (snd s) a" if "a \<in> set xs" for a
    using that assms(3,4) assms(5) [of a] by (cases "a = new") (auto simp: f_def)
  have "renamed old new xs = map f xs" by (simp add: renamed_def f_def)
  moreover have "sorted_wrt (\<lambda>a b. node_getUpdateTime (snd t) (f b) \<le> node_getUpdateTime (snd t) (f a)) xs"
    by (rule sorted_wrt_mono_rel [rotated]) (use assms(1) eq in \<open>auto simp: lru_ordered_def\<close>)
  ultimately show ?thesis using assms(1) eq by (auto simp: lru_ordered_def sorted_wrt_map)
qed

context lru_items
begin

lemma settled_ordered:
  assumes "lru_settled pc valid s0 xs s'" and "lru_spec s0 = 0" and "lru_ordered s0 now xs"
  shows "\<exists>ws. lru_inv pc valid s' ws [] \<and> lru_spec s' = 0 \<and> lru_ordered s' now ws"
proof -
  from assms(1) obtain ws ts where inv: "lru_inv pc valid s' ws ts" and xs: "ws @ ts = xs"
    and len: "length ts = tail_target (length xs) (lru_spec s')" and cfg: "lc_config (fst s') = lc_config (fst s0)"
    and t: "tail_marks_only (snd s0) (snd s')" by (auto simp: lru_settled_def)
  have spec: "lru_spec s' = 0" using cfg assms(2) by (simp add: lru_spec_def)
  then have "ts = []" using len by (simp add: tail_target_def)
  then show ?thesis
    using inv xs spec assms(3) ordered_cong [of xs s' s0 now] tail_marks_onlyD(4) [OF t] by auto
qed

lemma recordAccess_cases:
  assumes inv: "lru_inv pc valid s ws ts" and node: "node \<in> valid"
    and run: "recordAccess mulRatio now' locked cur node mode s = Inr (b, t)"
  obtains (same) "lru_inv pc valid t ws ts" "lc_config (fst t) = lc_config (fst s)"
      "\<forall>a. node_getUpdateTime (snd t) a = node_getUpdateTime (snd s) a" "\<not> b"
    | (moved) ws' ts' where "lru_inv pc valid t ws' ts'" "ws' @ ts' = node # remove1 node (ws @ ts)" "b"
      "lc_config (fst t) = lc_config (fst s)" "node \<in> set (ws @ ts)"
      "\<forall>a. node_getUpdateTime (snd t) a = (if a = node then cur else node_getUpdateTime (snd s) a)"
proof -
  let ?s = "recordAccess_mark node s"
  note inv' = recordAccess_mark_inv [OF inv, of node]
  consider "\<not> recordAccess_check cur node mode s" "t = s" "\<not> b"
    | "recordAccess_check cur node mode s" "t = ?s" "\<not> b"
    | "recordAccess_check cur node mode s" "recordAccess_func mulRatio now' node cur ?s = Inr t" "b"
    using run by (auto simp: recordAccess_def Let_def ebind_Inr_iff split: if_splits)
  then show thesis
  proof cases
    case 1
    show thesis by (rule same) (use inv 1 in auto)
  next
    case 2
    show thesis by (rule same) (use inv' 2 in auto)
  next
    case 3
    then have n: "node \<in> set (ws @ ts)" using inv_inMM [OF inv node] by (auto simp: recordAccess_check_def split: prod.splits)
    from recordAccess_func_ok [OF inv' n, of mulRatio now' cur] 3 show thesis using moved n by auto
  qed
qed

lemma timed_ordered:
  "lru_timed pc valid s now \<Longrightarrow> \<exists>ws. lru_inv pc valid s ws [] \<and> lru_spec s = 0 \<and> lru_ordered s now ws"
proof (induction rule: lru_timed.induct)
  case (init m cfg now)
  then show ?case using lru_new_inv [of valid m pc now cfg]
    by (auto simp: lru_ordered_def lru_spec_def MMLru_new_def)
next
  case (tick s now now')
  then show ?case using ordered_later by blast
next
  case (add s now node b t)
  then obtain ws where inv: "lru_inv pc valid s ws []" "lru_spec s = 0" "lru_ordered s now ws" by blast
  show ?case
  proof (cases "item_isInMM (snd s) node")
    case True
    then show ?thesis using add inv by (auto simp: MMLru_add_def)
  next
    case False
    from add_ok [OF inv(1) add(2) False, of now] add(3) obtain s0 where
      s0: "lru_settled pc valid s0 (node # ws) t" "lc_config (fst s0) = lc_config (fst s)"
      "\<forall>a. node_getUpdateTime (snd s0) a = (if a = node then now else node_getUpdateTime (snd s) a)" by auto
    have "node \<notin> set ws" using False inv_inMM [OF inv(1) add(2)] by simp
    then have "lru_ordered s0 now (node # ws)" using ordered_front [OF inv(3)] s0(3) by blast
    then show ?thesis using settled_ordered [OF s0(1)] s0(2) inv(2) by (simp add: lru_spec_def)
  qed
next
  case (remove s now node b t)
  then obtain ws where inv: "lru_inv pc valid s ws []" "lru_spec s = 0" "lru_ordered s now ws" by blast
  show ?case
  proof (cases "node \<in> set ws")
    case False
    then show ?thesis using remove inv inv_inMM [OF inv(1) remove(2)] by (auto simp: MMLru_remove_def)
  next
    case True
    then obtain s0 where s0: "lru_settled pc valid s0 (remove1 node ws) t" "lc_config (fst s0) = lc_config (fst s)"
      "\<forall>a. node_getUpdateTime (snd s0) a = node_getUpdateTime (snd s) a"
      using remove_ok [OF inv(1), of node] remove(3) inv_inMM [OF inv(1) remove(2)] by (auto simp: MMLru_remove_def)
    then have "lru_ordered s0 now (remove1 node ws)"
      using ordered_remove1 [OF inv(3)] ordered_cong [of "remove1 node ws" s0 s now] by simp
    then show ?thesis using settled_ordered [OF s0(1)] s0(2) inv(2) by (simp add: lru_spec_def)
  qed
next
  case (replace s now old new b t)
  then obtain ws where inv: "lru_inv pc valid s ws []" "lru_spec s = 0" "lru_ordered s now ws" by blast
  show ?case
  proof (cases "old \<in> set ws \<and> new \<notin> set ws")
    case False
    then have "t = s" using replace inv_inMM [OF inv(1)] by (auto simp: MMLru_replace_def)
    then show ?thesis using inv by blast
  next
    case True
    then have "lru_inv pc valid t (renamed old new ws) []" "lc_config (fst t) = lc_config (fst s)"
      "node_getUpdateTime (snd t) new = node_getUpdateTime (snd s) old"
      "\<And>a. a \<noteq> new \<Longrightarrow> node_getUpdateTime (snd t) a = node_getUpdateTime (snd s) a"
      using replace_ok [OF inv(1), of old new] replace by auto
    then show ?thesis using ordered_renamed [OF inv(3), of new t old] inv_distinct [OF inv(1)] True inv(2)
      by (auto simp: lru_spec_def)
  qed
next
  case (recordAccess s now node mulRatio now' locked mode b t)
  then obtain ws where inv: "lru_inv pc valid s ws []" "lru_spec s = 0" "lru_ordered s now ws" by blast
  from inv(1) recordAccess(2,3) show ?case
  proof (cases rule: recordAccess_cases)
    case same
    then show ?thesis using inv(2,3) ordered_cong [of ws t s now] by (auto simp: lru_spec_def)
  next
    case (moved ws' ts')
    have "node \<notin> set (remove1 node ws)" using inv_distinct [OF inv(1)] by simp
    then have "lru_ordered t now (node # remove1 node ws)"
      using ordered_front [OF ordered_remove1 [OF inv(3)]] moved(6) by blast
    moreover have "lru_spec t = 0" using moved(4) inv(2) by (simp add: lru_spec_def)
    moreover have "ts' = []" using moved(1) calculation(2) by (simp add: lru_inv_def)
    ultimately show ?thesis using moved by auto
  qed
qed

end

section \<open>Containers over compressed slab pointers\<close>

abbreviation pc4 :: "SlabAllocator \<Rightarrow> CompressedPtr4B PtrCompressor" where
  "pc4 sa \<equiv> createPtrCompressor cptr4 sa False"

lemma valid_allocs4_few: "finite (valid_allocs cptr4 sa)" "card (valid_allocs cptr4 sa) < 2 ^ 64"
  using compressor4.valid_card [of sa] by (auto simp: card_word)

interpretation lru4: lru_items "pc4 sa" "valid_allocs cptr4 sa \<inter> D" for sa D
proof unfold_locales
  show "finite (valid_allocs cptr4 sa \<inter> D)" using valid_allocs4_few(1) by simp
  then show "card (valid_allocs cptr4 sa \<inter> D) < 2 ^ 64"
    using card_mono [OF valid_allocs4_few(1), of "valid_allocs cptr4 sa \<inter> D"] valid_allocs4_few(2) [of sa]
    by (meson inf_le1 le_less_trans)
qed (auto intro: compressor4.unCompress_null compressor4.unCompress_compress)

text \<open>
  C5. In every reachable state of an LRU container, under any interleaving of its locked
  operations, unlocked access marks and the activity of other components, the linked list
  is well formed; the items marked as tail are exactly the last \<open>tailSize\<close> items; the
  insertion point is the first of them (null when there is none, as always without an
  insertion point spec); the items that believe to be in the container are exactly those on
  its list; and no operation dereferences a null pointer.
\<close>

theorem lru_container_invariant:
  assumes D: "D \<subseteq> valid_allocs cptr4 sa" and "lru_reachable (pc4 sa) D s"
  shows "(\<exists>ws ts. dl_rep (pc4 sa) D (lc_lru (fst s), im_hooks (snd s)) (ws @ ts) \<and>
            unat (MMLru_size s) = length (ws @ ts) \<and> unat (lc_tailSize (fst s)) = length ts \<and>
            lc_insertionPoint (fst s) = first_ptr ts None \<and>
            (cf_lruInsertionPointSpec (lc_config (fst s)) = 0 \<longrightarrow> ts = []) \<and>
            (\<forall>a\<in>D. isTail (snd s) a \<longleftrightarrow> a \<in> set ts) \<and>
            (\<forall>a\<in>D. item_isInMM (snd s) a \<longleftrightarrow> a \<in> set (ws @ ts))) \<and>
         (\<forall>node\<in>D. \<forall>now cur locked mode mulRatio cfg.
            (\<exists>r. MMLru_add now node s = Inr r) \<and> (\<exists>r. MMLru_remove node s = Inr r) \<and>
            (\<exists>r. recordAccess mulRatio now locked cur node mode s = Inr r) \<and>
            (\<exists>r. MMLru_setConfig now cfg s = Inr r))"
proof -
  have V: "valid_allocs cptr4 sa \<inter> D = D" using D by auto
  note L = lru4.lru_reachable_inv [of sa D, unfolded V] lru4.ops_defined [of sa D, unfolded V]
    lru4.rep_size [of sa D, unfolded V] lru4.marks_tailSize [of sa D, unfolded V]
  from L(1) [OF assms(2)] obtain ws ts where inv: "lru_inv (pc4 sa) D s ws ts" by blast
  then have marks: "lru_marks (pc4 sa) D s (ws @ ts) ts" by (simp add: lru_inv_def lru_core_def)
  then have rep: "dl_rep (pc4 sa) D (lc_lru (fst s), im_hooks (snd s)) (ws @ ts)" by (simp add: lru_marks_def)
  have "\<exists>ws ts. dl_rep (pc4 sa) D (lc_lru (fst s), im_hooks (snd s)) (ws @ ts) \<and>
            unat (MMLru_size s) = length (ws @ ts) \<and> unat (lc_tailSize (fst s)) = length ts \<and>
            lc_insertionPoint (fst s) = first_ptr ts None \<and>
            (cf_lruInsertionPointSpec (lc_config (fst s)) = 0 \<longrightarrow> ts = []) \<and>
            (\<forall>a\<in>D. isTail (snd s) a \<longleftrightarrow> a \<in> set ts) \<and>
            (\<forall>a\<in>D. item_isInMM (snd s) a \<longleftrightarrow> a \<in> set (ws @ ts))"
    using rep L(6) [OF rep] L(7) [OF marks] marks inv
    by (intro exI [of _ ws] exI [of _ ts]) (simp add: MMLru_size_def lru_inv_def lru_core_def lru_marks_def lru_spec_def)
  then show ?thesis using L(2-5) [OF inv] by blast
qed

definition example_items :: "CompressedPtr4B items" where
  "example_items = \<lparr>im_hooks = (\<lambda>_. \<lparr>dh_next = kNull4, dh_prev = kNull4, dh_updateTime = 0\<rparr>), im_ref = (\<lambda>_. 0)\<rparr>"

definition example_D :: "addr set" where "example_D = {2 * kSize + 200, 2 * kSize + 300}"

definition example_lru :: "CompressedPtr4B lru" where
  "example_lru = (MMLru_new 100 (MMLru_Config4 60 False True 1) (pc4 example_sa2), example_items)"

definition example_lru1 :: "CompressedPtr4B lru" where
  "example_lru1 = snd (projr (MMLru_add 120 (2 * kSize + 200) example_lru))"

lemma example_D_valid: "example_D \<subseteq> valid_allocs cptr4 example_sa2"
  using example_valid_alloc [of 2] example_valid_alloc [of 3] by (simp add: example_D_def)

lemma example_items_fresh [simp]: "\<not> isTail example_items a" "\<not> item_isInMM example_items a"
  by (simp_all add: example_items_def isTail_def item_isInMM_def reads absref_def)

lemma example_lru_inv: "lru_inv (pc4 example_sa2) example_D example_lru [] []"
  unfolding example_lru_def by (rule lru_new_inv) simp

lemma example_lru1_inv:
  "MMLru_add 120 (2 * kSize + 200) example_lru = Inr (True, example_lru1)"
  "lru_inv (pc4 example_sa2) example_D example_lru1 [] [2 * kSize + 200]"
proof -
  have V: "valid_allocs cptr4 example_sa2 \<inter> example_D = example_D" using example_D_valid by auto
  from lru4.add_ok [of example_sa2 example_D example_lru "[]" "[]" "2 * kSize + 200" 120, unfolded V, OF example_lru_inv]
  obtain s' s0 where s': "MMLru_add 120 (2 * kSize + 200) example_lru = Inr (True, s')"
    and st: "lru_settled (pc4 example_sa2) example_D s0 [2 * kSize + 200] s'" and cfg: "lc_config (fst s0) = lc_config (fst example_lru)"
    by (auto simp: example_D_def example_lru_def)
  show "MMLru_add 120 (2 * kSize + 200) example_lru = Inr (True, example_lru1)" by (simp add: s' example_lru1_def)
  have eq: "example_lru1 = s'" by (simp add: s' example_lru1_def)
  from st obtain ws ts where inv: "lru_inv (pc4 example_sa2) example_D s' ws ts" and xs: "ws @ ts = [2 * kSize + 200]"
    and len: "length ts = tail_target 1 (lru_spec s')" and c: "lc_config (fst s') = lc_config (fst s0)"
    by (auto simp: lru_settled_def)
  have "lru_spec s' = 1"
    by (simp add: lru_spec_def c cfg example_lru_def MMLru_new_def MMLru_Config4_def MMLru_Config5_def MMLru_Config6_def
        MMLru_Config7_def MMLru_Config8_def)
  then have "length ts = 1" using len by (simp add: tail_target_def)
  then have "ws = []" "ts = [2 * kSize + 200]" using xs by (auto simp: length_Suc_conv append_eq_Cons_conv)
  then show "lru_inv (pc4 example_sa2) example_D example_lru1 [] [2 * kSize + 200]" using inv eq by simp
qed

lemma example_lru1_reachable: "lru_reachable (pc4 example_sa2) example_D example_lru1"
  by (rule lru_reachable.step [OF lru_reachable.init lru_step.add [OF _ example_lru1_inv(1), unfolded example_lru_def]])
     (simp_all add: example_D_def)

theorem lru_container_invariant_witness:
  "\<exists>ws ts. dl_rep (pc4 example_sa2) example_D (lc_lru (fst example_lru1), im_hooks (snd example_lru1)) (ws @ ts) \<and>
     unat (MMLru_size example_lru1) = length (ws @ ts) \<and> unat (lc_tailSize (fst example_lru1)) = length ts"
  using lru_container_invariant [OF example_D_valid example_lru1_reachable] by blast

lemma settled_lists:
  assumes "lru_settled pc D s0 xs s'" and "lc_config (fst s0) = lc_config (fst s)"
  shows "\<exists>ws ts. lru_inv pc D s' ws ts \<and> ws @ ts = xs \<and> length ts = tail_target (length xs) (lru_spec s)"
proof -
  from assms(1) obtain ws ts where "lru_inv pc D s' ws ts" "ws @ ts = xs"
    "length ts = tail_target (length xs) (lru_spec s')" "lc_config (fst s') = lc_config (fst s0)"
    by (auto simp: lru_settled_def)
  then show ?thesis using assms(2) by (intro exI [of _ ws] exI [of _ ts]) (simp add: lru_spec_def)
qed

lemma lru4_add:
  assumes D: "D \<subseteq> valid_allocs cptr4 sa" and inv: "lru_inv (pc4 sa) D s ws ts" and node: "node \<in> D" "node \<notin> set (ws @ ts)"
  shows "\<exists>s' ws' ts'. MMLru_add now node s = Inr (True, s') \<and> lru_inv (pc4 sa) D s' ws' ts' \<and>
     ws' @ ts' = (if ts = [] then node # ws else ws @ node # ts) \<and>
     length ts' = tail_target (Suc (length (ws @ ts))) (lru_spec s)"
proof -
  have V: "valid_allocs cptr4 sa \<inter> D = D" using D by auto
  define xs where "xs = (if ts = [] then node # ws else ws @ node # ts)"
  have len: "length xs = Suc (length (ws @ ts))" by (simp add: xs_def)
  obtain s' s0 where s': "MMLru_add now node s = Inr (True, s')" "lc_config (fst s0) = lc_config (fst s)"
    "lru_settled (pc4 sa) D s0 xs s'"
    using lru4.add_ok [of sa D, unfolded V, OF inv node(1), of now] inv_inMM [OF inv node(1)] node(2) by (auto simp: xs_def)
  then show ?thesis using settled_lists [OF s'(3,2), unfolded len] unfolding xs_def [symmetric] by blast
qed

lemma lru4_remove:
  assumes D: "D \<subseteq> valid_allocs cptr4 sa" and inv: "lru_inv (pc4 sa) D s ws ts" and node: "node \<in> D" "node \<in> set (ws @ ts)"
  shows "\<exists>s' ws' ts'. MMLru_remove node s = Inr (True, s') \<and> lru_inv (pc4 sa) D s' ws' ts' \<and>
     ws' @ ts' = remove1 node (ws @ ts) \<and> length ts' = tail_target (length (ws @ ts) - 1) (lru_spec s)"
proof -
  have V: "valid_allocs cptr4 sa \<inter> D = D" using D by auto
  have len: "length (remove1 node (ws @ ts)) = length (ws @ ts) - 1" using node(2) by (simp only: length_remove1 if_True)
  obtain s' s0 where s': "MMLru_remove node s = Inr (True, s')" "lc_config (fst s0) = lc_config (fst s)"
    "lru_settled (pc4 sa) D s0 (remove1 node (ws @ ts)) s'"
    using lru4.remove_ok [of sa D, unfolded V, OF inv node(2)] inv_inMM [OF inv node(1)] node(2)
    by (auto simp: MMLru_remove_def)
  then show ?thesis using settled_lists [OF s'(3,2)] unfolding len by blast
qed




definition example_lru0 :: "CompressedPtr4B lru" where
  "example_lru0 = (MMLru_new 100 MMLru_Config_default (pc4 example_sa2), example_items)"


text \<open>
  C28. A container restored from its saved state manages the same items in the same order,
  with the same insertion point, tail and refresh time. The configuration comes back with
  the reconfiguration interval switched off and with the saved refresh time as the new
  default.
\<close>

theorem lru_restore:
  assumes D: "D \<subseteq> valid_allocs cptr4 sa" and inv: "lru_inv (pc4 sa) D s ws ts"
  shows "lru_inv (pc4 sa) D (MMLru_restore restore4 now (MMLru_saveState saveState4 (fst s)) (pc4 sa), snd s) ws ts \<and>
    lc_lru (MMLru_restore restore4 now (MMLru_saveState saveState4 (fst s)) (pc4 sa)) = lc_lru (fst s) \<and>
    lc_lruRefreshTime (MMLru_restore restore4 now (MMLru_saveState saveState4 (fst s)) (pc4 sa)) = lc_lruRefreshTime (fst s) \<and>
    lc_config (MMLru_restore restore4 now (MMLru_saveState saveState4 (fst s)) (pc4 sa)) =
      (lc_config (fst s))\<lparr>cf_defaultLruRefreshTime := lc_lruRefreshTime (fst s), cf_lruRefreshTime := lc_lruRefreshTime (fst s),
         cf_mmReconfigureIntervalSecs := 0, cf_useCombinedLockForIterators := False\<rparr>"
proof -
  have V: "valid_allocs cptr4 sa \<inter> D = D" using D by auto
  have rep: "dl_rep (pc4 sa) D (lc_lru (fst s), im_hooks (snd s)) (ws @ ts)" and ip: "lc_insertionPoint (fst s) = first_ptr ts None"
    and comp: "lc_compressor (fst s) = pc4 sa"
    using inv by (auto simp: lru_inv_def lru_core_def lru_marks_def)
  have lru: "DList_restore restore4 (DList_saveState saveState4 (lc_lru (fst s))) (pc4 sa) = lc_lru (fst s)"
    by (rule lru4.save_restore [of sa D, unfolded V, OF rep restore4_saveState4])
  have "set_option (first_ptr ts None) \<subseteq> D" using rep by (auto simp: dl_rep_def dest: first_ptr_in_set)
  then have ip': "pc_unCompress (pc4 sa) (restore4 (saveState4 (pc_compress (pc4 sa) (lc_insertionPoint (fst s))))) = first_ptr ts None"
    using lru4.unCompress_ptr [of "first_ptr ts None" sa D, unfolded V] by (simp add: restore4_saveState4 ip)
  have spec: "(ucast (ucast x :: u32) :: u8) = x" for x :: u8 by (rule bit_word_eqI) (auto simp: bit_simps)
  note R = MMLru_restore_def MMLru_saveState_def MMLru_Config_restore_def MMLru_Config6_def MMLru_Config7_def
    MMLru_Config8_def Let_def
  have cfg: "lc_config (MMLru_restore restore4 now (MMLru_saveState saveState4 (fst s)) (pc4 sa)) =
      (lc_config (fst s))\<lparr>cf_defaultLruRefreshTime := lc_lruRefreshTime (fst s), cf_lruRefreshTime := lc_lruRefreshTime (fst s),
         cf_mmReconfigureIntervalSecs := 0, cf_useCombinedLockForIterators := False\<rparr>"
    by (simp add: R spec)
  have spc: "lru_spec (MMLru_restore restore4 now (MMLru_saveState saveState4 (fst s)) (pc4 sa), m) = lru_spec s" for m :: "CompressedPtr4B items"
    by (simp add: lru_spec_def cfg)
  have "lru_inv (pc4 sa) D (MMLru_restore restore4 now (MMLru_saveState saveState4 (fst s)) (pc4 sa), snd s) ws ts"
    using inv ip' lru comp unfolding lru_inv_def lru_core_def lru_marks_def spc by (simp add: R)
  then show ?thesis using lru cfg by (simp add: R)
qed

theorem lru_restore_witness:
  "lru_inv (pc4 example_sa2) example_D
     (MMLru_restore restore4 7 (MMLru_saveState saveState4 (fst example_lru1)) (pc4 example_sa2), snd example_lru1)
     [] [2 * kSize + 200]"
  using lru_restore [OF example_D_valid example_lru1_inv(2)] by blast

end
