(* ===== verification/AllocationClass.thy ===== *)
theory AllocationClass
  imports SlabAllocator SList "HOL-Library.Multiset"
begin

text \<open>
  Allocation classes: \<open>cachelib/allocator/memory/AllocationClass.{h,cpp}\<close>. A class hands out
  allocations of one size: from its list of freed allocations, from the slab it is carving,
  or from a free slab it makes current. A slab leaves the class through a release: it is
  marked, the freed allocations are searched for its own in batches, and the release ends
  when every allocation of the slab is free.

  The state is the class and the slab allocator, whose headers the class writes. The list
  of freed allocations threads through the freed memory as a singly linked list; the theory
  \<open>SList\<close> shows that this list implements a list of addresses under insertion, popping and
  splicing, and the class is modelled over that list of addresses. A section under the lock
  is one step; between the sections of a release other threads run, as the argument
  \<open>other\<close>. A throwing operation returns the state it leaves behind with the exception.
\<close>

section \<open>State\<close>

text \<open>\<open>Slab*\<close> is an address, \<open>nullptr\<close> being 0.\<close>

type_synonym FreeList = "addr list"

record AllocationClass =
  ac_classId :: ClassId
  ac_poolId :: PoolId
  ac_allocationSize :: u32
  ac_currOffset :: u32
  ac_currSlab :: addr
  ac_allocatedSlabs :: "addr list"
  ac_freeSlabs :: "addr list"
  ac_freedAllocations :: FreeList
  ac_canAllocate :: bool
  ac_activeReleases :: int
  ac_slabReleaseAllocMap :: "addr \<Rightarrow> bool list option"

type_synonym acs = "AllocationClass \<times> SlabAllocator"

text \<open>A \<open>FreeAlloc\<close> is the packed hook of the list: a five byte compressed pointer.\<close>

definition sizeof_FreeAlloc :: nat where "sizeof_FreeAlloc = 5"
definition kFreeAllocsPruneLimit :: nat where "kFreeAllocsPruneLimit = 4 * 1024"

datatype SlabIterationStatus = kFinishedCurrentSlabAndContinue | kSkippedCurrentSlabAndContinue | kAbortIteration

record AllocInfo =
  ai_poolId :: PoolId
  ai_classId :: ClassId
  ai_allocSize :: size_t

definition getAllocsPerSlab :: "AllocationClass \<Rightarrow> nat" where
  "getAllocsPerSlab ac = kSize div unat (ac_allocationSize ac)"

definition isFull :: "AllocationClass \<Rightarrow> bool" where
  "isFull ac \<longleftrightarrow> \<not> ac_canAllocate ac"

definition AllocationClass_checkState :: "acs \<Rightarrow> exn + unit" where
  "AllocationClass_checkState = (\<lambda>(ac, sa).
     let header = getSlabHeader_slab sa (ac_currSlab ac)
     in if sint (ac_classId ac) < 0 then Inl invalid_argument
        else if unat (ac_allocationSize ac) < sizeof_FreeAlloc \<or> unat (ac_allocationSize ac) > kSize then Inl invalid_argument
        else if ac_currSlab ac \<noteq> 0 \<and> header = None then Inl invalid_argument
        else if (case header of None \<Rightarrow> False | Some h \<Rightarrow> classId (sa_headers sa h) \<noteq> ac_classId ac) then Inl invalid_argument
        else if ac_currSlab ac \<noteq> 0 \<and> ac_currSlab ac \<notin> set (ac_allocatedSlabs ac) then Inl invalid_argument
        else Inr ())"

definition AllocationClass_new :: "ClassId \<Rightarrow> PoolId \<Rightarrow> u32 \<Rightarrow> SlabAllocator \<Rightarrow> exn + AllocationClass" where
  "AllocationClass_new cid pid asize sa =
     (let ac = \<lparr>ac_classId = cid, ac_poolId = pid, ac_allocationSize = asize, ac_currOffset = 0,
                ac_currSlab = 0, ac_allocatedSlabs = [], ac_freeSlabs = [], ac_freedAllocations = [],
                ac_canAllocate = True, ac_activeReleases = 0, ac_slabReleaseAllocMap = Map.empty\<rparr>
      in ebind (AllocationClass_checkState (ac, sa)) (\<lambda>_. Inr ac))"

section \<open>Allocation\<close>

text \<open>Writing through the pointer \<open>getSlabHeader\<close> returns; the callers pass valid slabs.\<close>

definition write_header :: "addr \<Rightarrow> (SlabHeader \<Rightarrow> SlabHeader) \<Rightarrow> SlabAllocator \<Rightarrow> SlabAllocator" where
  "write_header slab f sa = (case getSlabHeader_slab sa slab of None \<Rightarrow> sa | Some h \<Rightarrow> upd_header h f sa)"

definition addSlabLocked :: "addr \<Rightarrow> acs \<Rightarrow> acs" where
  "addSlabLocked slab = (\<lambda>(ac, sa).
     (ac\<lparr>ac_canAllocate := True, ac_freeSlabs := ac_freeSlabs ac @ [slab]\<rparr>,
      write_header slab (\<lambda>h. h\<lparr>classId := ac_classId ac, allocSize := ac_allocationSize ac\<rparr>) sa))"

definition addSlab :: "addr \<Rightarrow> acs \<Rightarrow> acs" where
  "addSlab slab s = addSlabLocked slab s"

definition canAllocateFromCurrentSlabLocked :: "AllocationClass \<Rightarrow> bool" where
  "canAllocateFromCurrentSlabLocked ac \<longleftrightarrow>
     ac_currSlab ac \<noteq> 0 \<and> unat (ac_currOffset ac + ac_allocationSize ac) \<le> kSize"

definition allocateFromCurrentSlabLocked :: "AllocationClass \<Rightarrow> addr \<times> AllocationClass" where
  "allocateFromCurrentSlabLocked ac =
     (memoryAtOffset (ac_currSlab ac) (unat (ac_currOffset ac)),
      ac\<lparr>ac_currOffset := ac_currOffset ac + ac_allocationSize ac\<rparr>)"

definition setupCurrentSlabLocked :: "AllocationClass \<Rightarrow> AllocationClass" where
  "setupCurrentSlabLocked ac =
     (let slab = last (ac_freeSlabs ac)
      in ac\<lparr>ac_freeSlabs := butlast (ac_freeSlabs ac), ac_currSlab := slab, ac_currOffset := 0,
            ac_allocatedSlabs := ac_allocatedSlabs ac @ [slab]\<rparr>)"

definition allocateLocked :: "AllocationClass \<Rightarrow> ptr \<times> AllocationClass" where
  "allocateLocked ac =
     (if ac_freedAllocations ac = [] \<and> ac_freeSlabs ac = [] \<and> \<not> canAllocateFromCurrentSlabLocked ac
      then (None, ac\<lparr>ac_canAllocate := False\<rparr>)
      else if ac_freedAllocations ac \<noteq> []
      then (Some (hd (ac_freedAllocations ac)), ac\<lparr>ac_freedAllocations := tl (ac_freedAllocations ac)\<rparr>)
      else
        (let (a, ac') = allocateFromCurrentSlabLocked
               (if canAllocateFromCurrentSlabLocked ac then ac else setupCurrentSlabLocked ac)
         in (Some a, ac')))"

definition allocate :: "acs \<Rightarrow> ptr \<times> acs" where
  "allocate = (\<lambda>(ac, sa).
     if \<not> ac_canAllocate ac then (None, (ac, sa))
     else (let (p, ac') = allocateLocked ac in (p, (ac', sa))))"

definition addSlabAndAllocate :: "addr \<Rightarrow> acs \<Rightarrow> ptr \<times> acs" where
  "addSlabAndAllocate slab s =
     (let (ac, sa) = addSlabLocked slab s; (p, ac') = allocateLocked ac in (p, (ac', sa)))"

section \<open>Allocations and their indices\<close>

definition getAllocForIdx :: "AllocationClass \<Rightarrow> addr \<Rightarrow> nat \<Rightarrow> exn + addr" where
  "getAllocForIdx ac slab idx =
     (if idx \<ge> getAllocsPerSlab ac then Inl invalid_argument
      else Inr (memoryAtOffset slab (idx * unat (ac_allocationSize ac))))"

definition getAllocIdx :: "AllocationClass \<Rightarrow> addr \<Rightarrow> addr \<Rightarrow> nat" where
  "getAllocIdx ac slab alloc = (alloc - memoryAtOffset slab 0) div unat (ac_allocationSize ac)"

section \<open>Freeing\<close>

definition freeAlloc :: "addr \<Rightarrow> acs \<Rightarrow> (exn + unit) \<times> acs" where
  "freeAlloc memory = (\<lambda>(ac, sa).
     let slab = getSlabForMemory memory
     in case getSlabHeader_memory sa memory of
          None \<Rightarrow> (Inl invalid_argument, (ac, sa))
        | Some h \<Rightarrow>
            if classId (sa_headers sa h) \<noteq> ac_classId ac then (Inl invalid_argument, (ac, sa))
            else if isMarkedForRelease (sa_headers sa h) then
              (case ac_slabReleaseAllocMap ac slab of
                 None \<Rightarrow> (Inl runtime_error, (ac, sa))
               | Some allocState \<Rightarrow>
                   (let idx = getAllocIdx ac slab memory
                    in if idx \<ge> length allocState then (Inl undefined_behaviour, (ac, sa))
                       else if allocState ! idx then (Inl invalid_argument, (ac, sa))
                       else (Inr (), (ac\<lparr>ac_slabReleaseAllocMap :=
                                          (ac_slabReleaseAllocMap ac)(slab \<mapsto> allocState[idx := True])\<rparr>, sa))))
            else (Inr (), (ac\<lparr>ac_freedAllocations := memory # ac_freedAllocations ac, ac_canAllocate := True\<rparr>, sa)))"

section \<open>Releasing a slab\<close>

text \<open>\<open>*it = v.back(); v.pop_back()\<close> at the position of the first \<open>x\<close>.\<close>

definition swap_remove :: "'a \<Rightarrow> 'a list \<Rightarrow> 'a list" where
  "swap_remove x xs = (let i = length (takeWhile (\<lambda>y. y \<noteq> x) xs) in butlast (xs[i := last xs]))"

text \<open>\<open>rnd n\<close> is a random index below \<open>n\<close>.\<close>

definition getSlabForReleaseLocked :: "(nat \<Rightarrow> nat) \<Rightarrow> AllocationClass \<Rightarrow> addr" where
  "getSlabForReleaseLocked rnd ac =
     (if ac_freeSlabs ac \<noteq> [] then hd (ac_freeSlabs ac)
      else if ac_allocatedSlabs ac \<noteq> [] then ac_allocatedSlabs ac ! rnd (length (ac_allocatedSlabs ac))
      else 0)"

definition createSlabReleaseAllocMapLocked :: "addr \<Rightarrow> AllocationClass \<Rightarrow> exn + AllocationClass" where
  "createSlabReleaseAllocMapLocked slab ac =
     (if ac_slabReleaseAllocMap ac slab \<noteq> None then Inl runtime_error
      else Inr (ac\<lparr>ac_slabReleaseAllocMap :=
                  (ac_slabReleaseAllocMap ac)(slab \<mapsto> replicate (getAllocsPerSlab ac) False)\<rparr>))"

text \<open>The first section under the lock: choose a slab and take it out of the lists.\<close>

datatype start_outcome = Released SlabReleaseContext | Pruning addr

definition uncarved_as_free :: "addr \<Rightarrow> AllocationClass \<Rightarrow> AllocationClass" where
  "uncarved_as_free slab ac =
     (if ac_currSlab ac = slab then
        ac\<lparr>ac_slabReleaseAllocMap := (ac_slabReleaseAllocMap ac)(slab :=
             map_option (\<lambda>st. map (\<lambda>i. st ! i \<or> unat (ac_currOffset ac div ac_allocationSize ac) \<le> i) [0..<length st])
               (ac_slabReleaseAllocMap ac slab)),
           ac_currSlab := 0, ac_currOffset := 0\<rparr>
      else ac)"

definition startSlabRelease_select ::
  "(nat \<Rightarrow> nat) \<Rightarrow> bool \<Rightarrow> SlabReleaseMode \<Rightarrow> ptr \<Rightarrow> acs \<Rightarrow> (exn + start_outcome) \<times> acs" where
  "startSlabRelease_select rnd zero mode hint = (\<lambda>(ac, sa).
     let slab = (case hint of None \<Rightarrow> getSlabForReleaseLocked rnd ac | Some p \<Rightarrow> getSlabForMemory p)
     in if slab = 0 then (Inl invalid_argument, (ac, sa))
        else (case getSlabHeader_slab sa slab of
           None \<Rightarrow> (Inl invalid_argument, (ac, sa))
         | Some h \<Rightarrow>
             let header = sa_headers sa h
             in if classId header \<noteq> ac_classId ac \<or> poolId header \<noteq> ac_poolId ac \<or> isMarkedForRelease header
                then (Inl invalid_argument, (ac, sa))
                else if slab \<in> set (ac_freeSlabs ac) then
                  (Inr (Released (SlabReleaseContext_mode zero slab (poolId header) kInvalidClassId [] mode)),
                   (ac\<lparr>ac_freeSlabs := swap_remove slab (ac_freeSlabs ac)\<rparr>,
                    upd_header h (\<lambda>hd. hd\<lparr>classId := kInvalidClassId, allocSize := 0\<rparr>) sa))
                else
                  (let sa1 = upd_header h (setMarkedForRelease True) sa
                   in case createSlabReleaseAllocMapLocked slab ac of
                        Inl e \<Rightarrow> (Inl e, (ac, sa1))
                      | Inr ac1 \<Rightarrow>
                          if slab \<notin> set (ac_allocatedSlabs ac1) then (Inl runtime_error, (ac1, sa1))
                          else (Inr (Pruning slab),
                                (uncarved_as_free slab
                                   (ac1\<lparr>ac_allocatedSlabs := swap_remove slab (ac_allocatedSlabs ac1)\<rparr>), sa1)))))"

text \<open>
  Pruning: the freed allocations are taken offline and sorted, in batches, into those of the
  slab and the others. \<open>pr_freeAllocs\<close>, \<open>pr_inSlab\<close> and \<open>pr_notInSlab\<close> are the thread's own lists.
\<close>

record prune =
  pr_freeAllocs :: FreeList
  pr_inSlab :: FreeList
  pr_notInSlab :: FreeList

fun partitionFreeAllocs :: "SlabAllocator \<Rightarrow> addr \<Rightarrow> nat \<Rightarrow> prune \<Rightarrow> prune" where
  "partitionFreeAllocs sa slab 0 pr = pr"
| "partitionFreeAllocs sa slab (Suc n) pr =
     (case pr_freeAllocs pr of
        [] \<Rightarrow> pr
      | alloc # rest \<Rightarrow>
          partitionFreeAllocs sa slab n
            (if isMemoryInSlab sa alloc slab
             then pr\<lparr>pr_freeAllocs := rest, pr_inSlab := alloc # pr_inSlab pr\<rparr>
             else pr\<lparr>pr_freeAllocs := rest, pr_notInSlab := alloc # pr_notInSlab pr\<rparr>))"

definition prune_begin :: "addr \<Rightarrow> acs \<Rightarrow> prune \<times> acs" where
  "prune_begin slab = (\<lambda>(ac, sa).
     (partitionFreeAllocs sa slab kFreeAllocsPruneLimit
        \<lparr>pr_freeAllocs = ac_freedAllocations ac, pr_inSlab = [], pr_notInSlab = []\<rparr>,
      (ac\<lparr>ac_freedAllocations := []\<rparr>, sa)))"

fun mark_freed :: "AllocationClass \<Rightarrow> addr \<Rightarrow> FreeList \<Rightarrow> bool list \<Rightarrow> bool list" where
  "mark_freed ac slab [] st = st"
| "mark_freed ac slab (alloc # rest) st = mark_freed ac slab rest (st[getAllocIdx ac slab alloc := True])"

definition prune_put :: "addr \<Rightarrow> prune \<Rightarrow> acs \<Rightarrow> (exn + prune) \<times> acs" where
  "prune_put slab pr = (\<lambda>(ac, sa).
     let ac1 = (if pr_notInSlab pr \<noteq> []
                then ac\<lparr>ac_freedAllocations := pr_notInSlab pr @ ac_freedAllocations ac, ac_canAllocate := True\<rparr>
                else ac)
     in case ac_slabReleaseAllocMap ac1 slab of
          None \<Rightarrow> (Inl out_of_range, (ac1, sa))
        | Some st \<Rightarrow>
            (Inr (pr\<lparr>pr_inSlab := [], pr_notInSlab := []\<rparr>),
             (ac1\<lparr>ac_slabReleaseAllocMap := (ac_slabReleaseAllocMap ac1)(slab \<mapsto> mark_freed ac1 slab (pr_inSlab pr) st)\<rparr>, sa)))"

lemma partition_shrinks:
  "length (pr_freeAllocs (partitionFreeAllocs sa slab n pr)) = length (pr_freeAllocs pr) - n"
  by (induction n arbitrary: pr) (auto split: list.splits)

text \<open>\<open>abort i\<close> is the answer of the abort callback and \<open>other i\<close> what other threads do in round \<open>i\<close>.\<close>

function prune_loop ::
  "(nat \<Rightarrow> bool) \<Rightarrow> (nat \<Rightarrow> acs \<Rightarrow> acs) \<Rightarrow> addr \<Rightarrow> nat \<Rightarrow> prune \<Rightarrow> acs \<Rightarrow> (exn + bool \<times> nat \<times> prune) \<times> acs" where
  "prune_loop abort other slab i pr s =
     (if abort i then (Inr (True, i, pr), s)
      else (case prune_put slab pr (other i s) of
              (Inl e, s1) \<Rightarrow> (Inl e, s1)
            | (Inr pr1, s1) \<Rightarrow>
                if pr_freeAllocs pr = [] then (Inr (False, i, pr1), s1)
                else prune_loop abort other slab (Suc i)
                       (partitionFreeAllocs (snd s1) slab kFreeAllocsPruneLimit (pr1\<lparr>pr_freeAllocs := pr_freeAllocs pr\<rparr>)) s1))"
  by pat_completeness auto

termination
  by (relation "measure (\<lambda>(abort, other, slab, i, pr, s). length (pr_freeAllocs pr))")
     (auto simp: partition_shrinks kFreeAllocsPruneLimit_def)

declare prune_loop.simps [simp del]

definition prune_undo :: "prune \<Rightarrow> acs \<Rightarrow> acs" where
  "prune_undo pr = (\<lambda>(ac, sa).
     (ac\<lparr>ac_freedAllocations := (pr_inSlab pr @ pr_notInSlab pr @ pr_freeAllocs pr) @ ac_freedAllocations ac\<rparr>, sa))"

definition prune_collect :: "addr \<Rightarrow> acs \<Rightarrow> exn + addr list" where
  "prune_collect slab = (\<lambda>(ac, sa).
     case ac_slabReleaseAllocMap ac slab of
       None \<Rightarrow> Inl out_of_range
     | Some st \<Rightarrow> Inr (map (\<lambda>i. memoryAtOffset slab (i * unat (ac_allocationSize ac)))
                          (filter (\<lambda>i. \<not> st ! i) [0..<length st])))"

definition pruneFreeAllocs ::
  "(nat \<Rightarrow> bool) \<Rightarrow> (nat \<Rightarrow> acs \<Rightarrow> acs) \<Rightarrow> addr \<Rightarrow> acs \<Rightarrow> (exn + bool \<times> nat \<times> addr list) \<times> acs" where
  "pruneFreeAllocs abort other slab s =
     (let (pr, s1) = prune_begin slab s
      in case prune_loop abort other slab 1 pr s1 of
           (Inl e, s2) \<Rightarrow> (Inl e, s2)
         | (Inr (True, i, pr1), s2) \<Rightarrow> (Inr (True, Suc i, []), prune_undo pr1 (other i s2))
         | (Inr (False, i, pr1), s2) \<Rightarrow>
             (let s3 = other (Suc i) s2
              in case prune_collect slab s3 of
                   Inl e \<Rightarrow> (Inl e, s3)
                 | Inr active \<Rightarrow> (Inr (False, Suc (Suc i), active), s3)))"

text \<open>The last section: give up, release at once, or leave the release to its completion.\<close>

definition erase_release :: "addr \<Rightarrow> AllocationClass \<Rightarrow> AllocationClass" where
  "erase_release slab ac = ac\<lparr>ac_slabReleaseAllocMap := (ac_slabReleaseAllocMap ac)(slab := None)\<rparr>"

definition release_header :: "addr \<Rightarrow> SlabAllocator \<Rightarrow> SlabAllocator" where
  "release_header slab =
     write_header slab (\<lambda>h. setMarkedForRelease False (h\<lparr>classId := kInvalidClassId, allocSize := 0\<rparr>))"

definition header_poolId :: "SlabAllocator \<Rightarrow> addr \<Rightarrow> PoolId" where
  "header_poolId sa slab = poolId (sa_headers sa (slabIdx sa slab))"
definition header_classId :: "SlabAllocator \<Rightarrow> addr \<Rightarrow> ClassId" where
  "header_classId sa slab = classId (sa_headers sa (slabIdx sa slab))"

definition startSlabRelease_finish ::
  "bool \<Rightarrow> SlabReleaseMode \<Rightarrow> addr \<Rightarrow> bool \<Rightarrow> addr list \<Rightarrow> acs \<Rightarrow> (exn + SlabReleaseContext) \<times> acs" where
  "startSlabRelease_finish zero mode slab aborted active = (\<lambda>(ac, sa).
     if aborted then (Inl SlabReleaseAborted, (erase_release slab ac, write_header slab (setMarkedForRelease False) sa))
     else if active = [] then
       (let sa1 = release_header slab sa
        in (Inr (SlabReleaseContext_mode zero slab (header_poolId sa1 slab) (header_classId sa1 slab) [] mode),
            (erase_release slab ac, sa1)))
     else
       (Inr (SlabReleaseContext_mode zero slab (header_poolId sa slab) (header_classId sa slab) active mode),
        (ac\<lparr>ac_activeReleases := ac_activeReleases ac + 1\<rparr>, sa)))"

definition startSlabRelease ::
  "(nat \<Rightarrow> nat) \<Rightarrow> (nat \<Rightarrow> bool) \<Rightarrow> (nat \<Rightarrow> acs \<Rightarrow> acs) \<Rightarrow> bool \<Rightarrow> SlabReleaseMode \<Rightarrow> ptr \<Rightarrow> acs \<Rightarrow>
     (exn + SlabReleaseContext) \<times> acs" where
  "startSlabRelease rnd abort other zero mode hint s =
     (if (case hint of None \<Rightarrow> False | Some p \<Rightarrow> \<not> isValidSlab (snd s) (getSlabForMemory p))
      then (Inl invalid_argument, s)
      else (case startSlabRelease_select rnd zero mode hint s of
              (Inl e, s1) \<Rightarrow> (Inl e, s1)
            | (Inr (Released ctx), s1) \<Rightarrow> (Inr ctx, s1)
            | (Inr (Pruning slab), s1) \<Rightarrow>
                (case pruneFreeAllocs abort other slab (other 0 s1) of
                   (Inl e, s2) \<Rightarrow> (Inl e, s2)
                 | (Inr (aborted, i, active), s2) \<Rightarrow>
                     startSlabRelease_finish zero mode slab aborted active (other i s2))))"

section \<open>Ending a release\<close>

definition allFreed :: "addr \<Rightarrow> acs \<Rightarrow> exn + bool" where
  "allFreed slab = (\<lambda>(ac, sa).
     case ac_slabReleaseAllocMap ac slab of None \<Rightarrow> Inl runtime_error | Some st \<Rightarrow> Inr (list_all id st))"

text \<open>Polling: may run forever if the allocations are not freed (then the value is \<open>None\<close>).\<close>

partial_function (option) waitUntilAllFreed ::
  "(nat \<Rightarrow> acs \<Rightarrow> acs) \<Rightarrow> addr \<Rightarrow> nat \<Rightarrow> acs \<Rightarrow> ((exn + nat) \<times> acs) option" where
  "waitUntilAllFreed other slab i s =
     (case allFreed slab s of
        Inl e \<Rightarrow> Some (Inl e, s)
      | Inr b \<Rightarrow> if b then Some (Inr i, s) else waitUntilAllFreed other slab (Suc i) (other i s))"

definition abortSlabRelease :: "SlabReleaseContext \<Rightarrow> acs \<Rightarrow> (exn + unit) \<times> acs" where
  "abortSlabRelease context = (\<lambda>(ac, sa).
     if isReleased context then (Inl invalid_argument, (ac, sa))
     else
       (let slab = ctx_slab context;
            freed = (case ac_slabReleaseAllocMap ac slab of
                       None \<Rightarrow> []
                     | Some st \<Rightarrow> map (\<lambda>i. memoryAtOffset slab (i * unat (ac_allocationSize ac)))
                                     (filter (\<lambda>i. st ! i) [0..<length st]));
            ac1 = ac\<lparr>ac_freedAllocations := rev freed @ ac_freedAllocations ac,
                     ac_canAllocate := (ac_canAllocate ac \<or> freed \<noteq> [])\<rparr>;
            ac2 = erase_release slab ac1
        in (Inr (), (ac2\<lparr>ac_allocatedSlabs := ac_allocatedSlabs ac2 @ [slab],
                         ac_activeReleases := ac_activeReleases ac2 - 1\<rparr>,
             write_header slab (\<lambda>h. setMarkedForRelease False
               (h\<lparr>classId := ac_classId ac, allocSize := ac_allocationSize ac\<rparr>)) sa))))"

definition completeSlabRelease_check :: "addr \<Rightarrow> acs \<Rightarrow> exn + unit" where
  "completeSlabRelease_check slab = (\<lambda>(ac, sa).
     case getSlabHeader_slab sa slab of
       None \<Rightarrow> Inl runtime_error
     | Some h \<Rightarrow> if classId (sa_headers sa h) \<noteq> ac_classId ac \<or> \<not> isMarkedForRelease (sa_headers sa h)
                 then Inl runtime_error else Inr ())"

definition completeSlabRelease_finish :: "addr \<Rightarrow> acs \<Rightarrow> acs" where
  "completeSlabRelease_finish slab = (\<lambda>(ac, sa).
     ((erase_release slab ac)\<lparr>ac_activeReleases := ac_activeReleases ac - 1\<rparr>, release_header slab sa))"

definition completeSlabRelease ::
  "(nat \<Rightarrow> acs \<Rightarrow> acs) \<Rightarrow> SlabReleaseContext \<Rightarrow> acs \<Rightarrow> ((exn + unit) \<times> acs) option" where
  "completeSlabRelease other context s =
     (if isReleased context then Some (Inr (), s)
      else (case completeSlabRelease_check (ctx_slab context) s of
              Inl e \<Rightarrow> Some (Inl e, s)
            | Inr _ \<Rightarrow>
                (case waitUntilAllFreed other (ctx_slab context) 1 (other 0 s) of
                   None \<Rightarrow> None
                 | Some (Inl e, s1) \<Rightarrow> Some (Inl e, s1)
                 | Some (Inr i, s1) \<Rightarrow> Some (Inr (), completeSlabRelease_finish (ctx_slab context) (other i s1)))))"

definition checkSlabInRelease :: "SlabReleaseContext \<Rightarrow> addr \<Rightarrow> acs \<Rightarrow> exn + unit" where
  "checkSlabInRelease ctx memory = (\<lambda>(ac, sa).
     case getSlabHeader_memory sa memory of
       None \<Rightarrow> Inl invalid_argument
     | Some h \<Rightarrow>
         if classId (sa_headers sa h) \<noteq> ac_classId ac then Inl invalid_argument
         else if \<not> isMarkedForRelease (sa_headers sa h) then Inl invalid_argument
         else if getSlabForMemory memory \<noteq> ctx_slab ctx then Inl invalid_argument
         else Inr ())"

definition isAllocFreedLocked :: "addr \<Rightarrow> acs \<Rightarrow> exn + bool" where
  "isAllocFreedLocked memory = (\<lambda>(ac, sa).
     let slab = getSlabForMemory memory
     in case ac_slabReleaseAllocMap ac slab of
          None \<Rightarrow> Inl runtime_error
        | Some st \<Rightarrow> (let idx = getAllocIdx ac slab memory
                      in if idx \<ge> length st then Inl undefined_behaviour else Inr (st ! idx)))"

definition isAllocFreed :: "SlabReleaseContext \<Rightarrow> addr \<Rightarrow> acs \<Rightarrow> exn + bool" where
  "isAllocFreed ctx memory s = ebind (checkSlabInRelease ctx memory s) (\<lambda>_. isAllocFreedLocked memory s)"

text \<open>The result says whether the callback ran; \<open>callback\<close> is its effect on the caller's state.\<close>

definition processAllocForRelease ::
  "SlabReleaseContext \<Rightarrow> addr \<Rightarrow> (addr \<Rightarrow> 'b \<Rightarrow> 'b) \<Rightarrow> acs \<Rightarrow> 'b \<Rightarrow> exn + 'b" where
  "processAllocForRelease ctx memory callback s b =
     ebind (checkSlabInRelease ctx memory s) (\<lambda>_. ebind (isAllocFreedLocked memory s)
       (\<lambda>freed. Inr (if \<not> freed then callback memory b else b)))"

text \<open>Iteration over the allocations of a slab; \<open>locked\<close> is the outcome of the try-lock.\<close>

fun forEach_loop :: "u32 \<Rightarrow> (addr \<Rightarrow> AllocInfo \<Rightarrow> 'b \<Rightarrow> bool \<times> 'b) \<Rightarrow> AllocInfo \<Rightarrow> nat \<Rightarrow> addr \<Rightarrow> 'b \<Rightarrow> SlabIterationStatus \<times> 'b" where
  "forEach_loop sz callback info 0 ptr b = (kFinishedCurrentSlabAndContinue, b)"
| "forEach_loop sz callback info (Suc n) ptr b =
     (let (continue, b') = callback ptr info b
      in if \<not> continue then (kAbortIteration, b') else forEach_loop sz callback info n (ptr + unat sz) b')"

definition forEachAllocation ::
  "bool \<Rightarrow> addr \<Rightarrow> (addr \<Rightarrow> AllocInfo \<Rightarrow> 'b \<Rightarrow> bool \<times> 'b) \<Rightarrow> acs \<Rightarrow> 'b \<Rightarrow> SlabIterationStatus \<times> 'b" where
  "forEachAllocation locked slab callback = (\<lambda>(ac, sa) b.
     if \<not> locked then (kSkippedCurrentSlabAndContinue, b)
     else (case getSlabHeader_slab sa slab of
             None \<Rightarrow> (kSkippedCurrentSlabAndContinue, b)
           | Some h \<Rightarrow>
               let hdr = sa_headers sa h
               in if classId hdr \<noteq> ac_classId ac \<or> poolId hdr \<noteq> ac_poolId ac \<or> isAdvised hdr \<or> isMarkedForRelease hdr
                  then (kSkippedCurrentSlabAndContinue, b)
                  else forEach_loop (ac_allocationSize ac) callback
                         \<lparr>ai_poolId = poolId hdr, ai_classId = classId hdr, ai_allocSize = ucast (allocSize hdr)\<rparr>
                         (getAllocsPerSlab ac) slab b))"

section \<open>Saving, restoring, statistics\<close>

record AllocationClassObject =
  aco_classId :: ClassId
  aco_allocationSize :: u64
  aco_currOffset :: u64
  aco_canAllocate :: bool
  aco_freedAllocationsObject :: FreeList
  aco_currSlabIdx :: SlabIdx
  aco_allocatedSlabIdxs :: "SlabIdx list"
  aco_freeSlabIdxs :: "SlabIdx list"

definition AllocationClass_saveState :: "acs \<Rightarrow> exn + AllocationClassObject" where
  "AllocationClass_saveState = (\<lambda>(ac, sa).
     if \<not> isRestorable sa then Inl logic_error
     else if ac_activeReleases ac > 0 then Inl logic_error
     else Inr \<lparr>aco_classId = ac_classId ac, aco_allocationSize = ucast (ac_allocationSize ac),
               aco_currOffset = ucast (ac_currOffset ac), aco_canAllocate = ac_canAllocate ac,
               aco_freedAllocationsObject = ac_freedAllocations ac, aco_currSlabIdx = slabIdx sa (ac_currSlab ac),
               aco_allocatedSlabIdxs = map (slabIdx sa) (ac_allocatedSlabs ac),
               aco_freeSlabIdxs = map (slabIdx sa) (ac_freeSlabs ac)\<rparr>)"

definition AllocationClass_restore :: "AllocationClassObject \<Rightarrow> PoolId \<Rightarrow> SlabAllocator \<Rightarrow> exn + AllocationClass" where
  "AllocationClass_restore object pid sa =
     (let ac = \<lparr>ac_classId = aco_classId object, ac_poolId = pid, ac_allocationSize = ucast (aco_allocationSize object),
                ac_currOffset = ucast (aco_currOffset object), ac_currSlab = getSlabForIdx sa (aco_currSlabIdx object),
                ac_allocatedSlabs = map (getSlabForIdx sa) (aco_allocatedSlabIdxs object),
                ac_freeSlabs = map (getSlabForIdx sa) (aco_freeSlabIdxs object),
                ac_freedAllocations = aco_freedAllocationsObject object, ac_canAllocate = aco_canAllocate object,
                ac_activeReleases = 0, ac_slabReleaseAllocMap = Map.empty\<rparr>
      in if \<not> isRestorable sa then Inl logic_error
         else ebind (AllocationClass_checkState (ac, sa)) (\<lambda>_. Inr ac))"

record ACStats =
  st_allocSize :: u32
  st_allocsPerSlab :: u64
  st_usedSlabs :: u64
  st_freeSlabs :: u64
  st_freeAllocs :: u64
  st_activeAllocs :: u64
  st_full :: bool

definition AllocationClass_getStats :: "AllocationClass \<Rightarrow> ACStats" where
  "AllocationClass_getStats ac =
     (let freeAllocsInCurrSlab = (if canAllocateFromCurrentSlabLocked ac
            then (kSize - unat (ac_currOffset ac)) div unat (ac_allocationSize ac) else 0);
          perSlab = of_nat (getAllocsPerSlab ac);
          nSlabsAllocated = of_nat (length (ac_allocatedSlabs ac));
          nFreedAllocs = of_nat (length (ac_freedAllocations ac))
      in \<lparr>st_allocSize = ac_allocationSize ac, st_allocsPerSlab = perSlab, st_usedSlabs = nSlabsAllocated,
          st_freeSlabs = of_nat (length (ac_freeSlabs ac)), st_freeAllocs = nFreedAllocs,
          st_activeAllocs = nSlabsAllocated * perSlab - nFreedAllocs - of_nat freeAllocsInCurrSlab,
          st_full = isFull ac\<rparr>)"

section \<open>Who holds an allocation\<close>

text \<open>
  The accounting of a class. \<open>F\<close> lists the free allocations (those of the class and those a
  pruning thread holds), \<open>live\<close> is the set of allocations handed out and not yet freed, and
  \<open>orphans\<close> are slabs that an aborted release has left outside all lists.
\<close>

definition alloc_at :: "AllocationClass \<Rightarrow> addr \<Rightarrow> nat \<Rightarrow> addr" where
  "alloc_at ac slab i = memoryAtOffset slab (i * unat (ac_allocationSize ac))"

definition carved_upto :: "AllocationClass \<Rightarrow> addr \<Rightarrow> nat" where
  "carved_upto ac slab =
     (if slab = ac_currSlab ac then unat (ac_currOffset ac) div unat (ac_allocationSize ac) else getAllocsPerSlab ac)"

definition carved_allocs :: "AllocationClass \<Rightarrow> addr \<Rightarrow> addr set" where
  "carved_allocs ac slab = alloc_at ac slab ` {..<carved_upto ac slab}"

definition owned_slabs :: "AllocationClass \<Rightarrow> addr set \<Rightarrow> addr set" where
  "owned_slabs ac orphans = set (ac_allocatedSlabs ac) \<union> dom (ac_slabReleaseAllocMap ac) \<union> orphans"

definition class_header :: "AllocationClass \<Rightarrow> bool \<Rightarrow> SlabHeader \<Rightarrow> bool" where
  "class_header ac marked h \<longleftrightarrow> classId h = ac_classId ac \<and> poolId h = ac_poolId ac \<and>
     allocSize h = ac_allocationSize ac \<and> isMarkedForRelease h = marked"

definition ac_shape :: "AllocationClass \<Rightarrow> SlabAllocator \<Rightarrow> addr set \<Rightarrow> bool" where
  "ac_shape ac sa orphans \<longleftrightarrow>
     sa_geometry sa \<and> 0 < unat (ac_allocationSize ac) \<and> unat (ac_allocationSize ac) \<le> kSize \<and>
     ac_classId ac \<noteq> kInvalidClassId \<and>
     distinct (ac_allocatedSlabs ac @ ac_freeSlabs ac) \<and>
     (set (ac_allocatedSlabs ac) \<union> set (ac_freeSlabs ac)) \<inter> dom (ac_slabReleaseAllocMap ac) = {} \<and>
     (set (ac_allocatedSlabs ac) \<union> set (ac_freeSlabs ac) \<union> dom (ac_slabReleaseAllocMap ac)) \<inter> orphans = {} \<and>
     owned_slabs ac orphans \<union> set (ac_freeSlabs ac) \<subseteq> carved sa \<and>
     (\<forall>s \<in> owned_slabs ac orphans \<union> set (ac_freeSlabs ac).
        class_header ac (s \<in> dom (ac_slabReleaseAllocMap ac)) (header_of sa s)) \<and>
     (ac_currSlab ac \<noteq> 0 \<longrightarrow> ac_currSlab ac \<in> set (ac_allocatedSlabs ac) \<and>
        unat (ac_allocationSize ac) dvd unat (ac_currOffset ac) \<and> unat (ac_currOffset ac) \<le> kSize)"

definition ac_ok :: "AllocationClass \<Rightarrow> SlabAllocator \<Rightarrow> FreeList \<Rightarrow> addr set \<Rightarrow> addr set \<Rightarrow> bool" where
  "ac_ok ac sa F live orphans \<longleftrightarrow>
     ac_shape ac sa orphans \<and> distinct F \<and> live \<inter> set F = {} \<and>
     set F \<union> live \<subseteq> (\<Union>s \<in> owned_slabs ac orphans. carved_allocs ac s) \<and>
     (\<forall>s \<in> set (ac_allocatedSlabs ac). carved_allocs ac s \<subseteq> set F \<union> live) \<and>
     (\<forall>s st. ac_slabReleaseAllocMap ac s = Some st \<longrightarrow> length st = getAllocsPerSlab ac \<and>
        (\<forall>i < getAllocsPerSlab ac. st ! i \<longleftrightarrow> alloc_at ac s i \<notin> set F \<union> live))"

lemma ac_shapeD:
  assumes "ac_shape ac sa orphans"
  shows "sa_geometry sa" "0 < unat (ac_allocationSize ac)" "unat (ac_allocationSize ac) \<le> kSize"
    "distinct (ac_allocatedSlabs ac)" "distinct (ac_freeSlabs ac)"
    "set (ac_allocatedSlabs ac) \<inter> set (ac_freeSlabs ac) = {}"
    "\<And>s. s \<in> owned_slabs ac orphans \<Longrightarrow> s \<in> carved sa" "\<And>s. s \<in> set (ac_freeSlabs ac) \<Longrightarrow> s \<in> carved sa"
    "\<And>s. s \<in> owned_slabs ac orphans \<Longrightarrow> class_header ac (s \<in> dom (ac_slabReleaseAllocMap ac)) (header_of sa s)"
    "\<And>s. s \<in> set (ac_freeSlabs ac) \<Longrightarrow> class_header ac False (header_of sa s)"
    "ac_currSlab ac \<noteq> 0 \<Longrightarrow> ac_currSlab ac \<in> set (ac_allocatedSlabs ac)"
    "ac_currSlab ac \<noteq> 0 \<Longrightarrow> unat (ac_allocationSize ac) dvd unat (ac_currOffset ac)"
    "ac_currSlab ac \<noteq> 0 \<Longrightarrow> unat (ac_currOffset ac) \<le> kSize"
proof -
  have "s \<in> set (ac_freeSlabs ac) \<Longrightarrow> (s \<in> dom (ac_slabReleaseAllocMap ac)) = False" for s
    using assms unfolding ac_shape_def by blast
  then show "\<And>s. s \<in> set (ac_freeSlabs ac) \<Longrightarrow> class_header ac False (header_of sa s)"
    using assms unfolding ac_shape_def by (metis UnI2)
qed (use assms in \<open>auto simp: ac_shape_def\<close>)

lemma ac_shape_free:
  assumes "ac_shape ac sa orphans" and "s \<in> set (ac_freeSlabs ac)"
  shows "s \<notin> owned_slabs ac orphans"
proof -
  have "set (ac_allocatedSlabs ac) \<inter> set (ac_freeSlabs ac) = {}"
    "(set (ac_allocatedSlabs ac) \<union> set (ac_freeSlabs ac)) \<inter> dom (ac_slabReleaseAllocMap ac) = {}"
    "(set (ac_allocatedSlabs ac) \<union> set (ac_freeSlabs ac) \<union> dom (ac_slabReleaseAllocMap ac)) \<inter> orphans = {}"
    using assms(1) by (simp_all add: ac_shape_def)
  then show ?thesis using assms(2) unfolding owned_slabs_def by blast
qed

lemma ac_okD:
  assumes "ac_ok ac sa F live orphans"
  shows "ac_shape ac sa orphans" "distinct F" "live \<inter> set F = {}"
    "\<And>x. x \<in> set F \<union> live \<Longrightarrow> \<exists>s \<in> owned_slabs ac orphans. x \<in> carved_allocs ac s"
    "\<And>s. s \<in> set (ac_allocatedSlabs ac) \<Longrightarrow> carved_allocs ac s \<subseteq> set F \<union> live"
    "\<And>s st. ac_slabReleaseAllocMap ac s = Some st \<Longrightarrow> length st = getAllocsPerSlab ac"
    "\<And>s st i. ac_slabReleaseAllocMap ac s = Some st \<Longrightarrow> i < getAllocsPerSlab ac \<Longrightarrow>
       st ! i \<longleftrightarrow> alloc_at ac s i \<notin> set F \<union> live"
  using assms unfolding ac_ok_def by auto

text \<open>Where allocations are.\<close>

lemma alloc_fits: "0 < unat (ac_allocationSize ac) \<Longrightarrow> i < getAllocsPerSlab ac \<Longrightarrow>
    i * unat (ac_allocationSize ac) + unat (ac_allocationSize ac) \<le> kSize"
proof -
  assume "0 < unat (ac_allocationSize ac)" and "i < getAllocsPerSlab ac"
  then have "Suc i * unat (ac_allocationSize ac) \<le> kSize div unat (ac_allocationSize ac) * unat (ac_allocationSize ac)"
    unfolding getAllocsPerSlab_def by (intro mult_le_mono1) simp
  also have "\<dots> \<le> kSize" by simp
  finally show ?thesis by simp
qed

lemma alloc_slab:
  assumes "sa_geometry sa" and "s \<in> carved sa" and "0 < unat (ac_allocationSize ac)" and "i < getAllocsPerSlab ac"
  shows "getSlabForMemory (alloc_at ac s i) = s" and "getAllocIdx ac s (alloc_at ac s i) = i"
    and "getSlabHeader_memory sa (alloc_at ac s i) = Some (slabIdx sa s)"
    and "isMemoryInSlab sa (alloc_at ac s i) t \<longleftrightarrow> t = s"
proof -
  have "i * unat (ac_allocationSize ac) < kSize" using alloc_fits [OF assms(3,4)] assms(3) by linarith
  then show s: "getSlabForMemory (alloc_at ac s i) = s"
    using slab_index_memory [OF assms(1,2)] by (simp add: alloc_at_def memoryAtOffset_def)
  show "getAllocIdx ac s (alloc_at ac s i) = i" using assms(3) by (simp add: getAllocIdx_def alloc_at_def memoryAtOffset_def)
  have v: "isValidSlab sa s" using valid_iff_carved [OF assms(1)] assms(2) by simp
  then show "getSlabHeader_memory sa (alloc_at ac s i) = Some (slabIdx sa s)"
    using slab_index(5) [OF assms(1), of s] assms(2) by (simp add: getSlabHeader_memory_def s)
  show "isMemoryInSlab sa (alloc_at ac s i) t \<longleftrightarrow> t = s" using v s by (auto simp: isMemoryInSlab_def)
qed

lemma alloc_inj:
  assumes "sa_geometry sa" and "s \<in> carved sa" "t \<in> carved sa" and "0 < unat (ac_allocationSize ac)"
    and "i < getAllocsPerSlab ac" "j < getAllocsPerSlab ac"
  shows "alloc_at ac s i = alloc_at ac t j \<longleftrightarrow> s = t \<and> i = j"
  using alloc_slab(1,2) [OF assms(1,2,4,5)] alloc_slab(1,2) [OF assms(1,3,4,6)] by auto

lemma carved_upto_le: "ac_shape ac sa orphans \<Longrightarrow> s \<in> owned_slabs ac orphans \<Longrightarrow> carved_upto ac s \<le> getAllocsPerSlab ac"
proof -
  assume sh: "ac_shape ac sa orphans" and s: "s \<in> owned_slabs ac orphans"
  have "s \<noteq> 0" using slab_index(4) [OF ac_shapeD(1) [OF sh]] ac_shapeD(7) [OF sh s] by auto
  then show ?thesis using ac_shapeD(13) [OF sh] by (auto simp: carved_upto_def getAllocsPerSlab_def div_le_mono)
qed

lemma owned_nonzero: "ac_shape ac sa orphans \<Longrightarrow> s \<in> owned_slabs ac orphans \<Longrightarrow> s \<noteq> 0"
  using slab_index(4) [OF ac_shapeD(1)] ac_shapeD(7) by blast

lemma carved_allocsE:
  assumes "ac_shape ac sa orphans" and "s \<in> owned_slabs ac orphans" and "x \<in> carved_allocs ac s"
  obtains i where "x = alloc_at ac s i" "i < carved_upto ac s" "i < getAllocsPerSlab ac"
  using assms carved_upto_le [OF assms(1,2)] by (auto simp: carved_allocs_def)

text \<open>An allocation in use or free lies in the slab its address names.\<close>

lemma ac_ok_slab:
  assumes ok: "ac_ok ac sa F live orphans" and "x \<in> set F \<union> live"
  obtains s i where "s \<in> owned_slabs ac orphans" "x = alloc_at ac s i" "i < carved_upto ac s" "i < getAllocsPerSlab ac"
    "getSlabForMemory x = s" "getAllocIdx ac s x = i" "getSlabHeader_memory sa x = Some (slabIdx sa s)"
    "s \<in> carved sa"
proof -
  note sh = ac_okD(1) [OF ok]
  obtain s where s: "s \<in> owned_slabs ac orphans" "x \<in> carved_allocs ac s" using ac_okD(4) [OF ok assms(2)] by blast
  from carved_allocsE [OF sh s] obtain i where i: "x = alloc_at ac s i" "i < carved_upto ac s" "i < getAllocsPerSlab ac" .
  have c: "s \<in> carved sa" by (rule ac_shapeD(7) [OF sh s(1)])
  show thesis using that [OF s(1) i] alloc_slab [OF ac_shapeD(1) [OF sh] c ac_shapeD(2) [OF sh] i(3)] c i(1) by simp
qed

section \<open>The accounting is kept\<close>

text \<open>The accounting reads neither the online free list nor the two flags.\<close>

lemma ac_ok_same:
  assumes "ac_classId ac = ac_classId ac'" "ac_poolId ac = ac_poolId ac'" "ac_allocationSize ac = ac_allocationSize ac'"
    "ac_currOffset ac = ac_currOffset ac'" "ac_currSlab ac = ac_currSlab ac'" "ac_allocatedSlabs ac = ac_allocatedSlabs ac'"
    "ac_freeSlabs ac = ac_freeSlabs ac'" "ac_slabReleaseAllocMap ac = ac_slabReleaseAllocMap ac'"
  shows "ac_ok ac sa F live orphans = ac_ok ac' sa F live orphans"
proof -
  have "owned_slabs ac = owned_slabs ac'" "alloc_at ac = alloc_at ac'" "getAllocsPerSlab ac = getAllocsPerSlab ac'"
    "carved_upto ac = carved_upto ac'" "class_header ac = class_header ac'"
    by (simp_all add: fun_eq_iff owned_slabs_def alloc_at_def getAllocsPerSlab_def carved_upto_def class_header_def assms)
  moreover from this have "carved_allocs ac = carved_allocs ac'" by (simp add: fun_eq_iff carved_allocs_def)
  ultimately show ?thesis unfolding ac_ok_def ac_shape_def by (simp only: assms)
qed

lemma ac_ok_lists [simp]:
  "ac_ok (ac\<lparr>ac_freedAllocations := x\<rparr>) sa F live orphans = ac_ok ac sa F live orphans"
  "ac_ok (ac\<lparr>ac_canAllocate := b\<rparr>) sa F live orphans = ac_ok ac sa F live orphans"
  "ac_ok (ac\<lparr>ac_freedAllocations := x, ac_canAllocate := b\<rparr>) sa F live orphans = ac_ok ac sa F live orphans"
  "ac_ok (ac\<lparr>ac_activeReleases := n\<rparr>) sa F live orphans = ac_ok ac sa F live orphans"
  by (rule ac_ok_same; simp)+

text \<open>Only the set of free and live allocations together matters to the slabs.\<close>

lemma ac_ok_resplit:
  assumes "ac_ok ac sa F live orphans" and "distinct F'" and "live' \<inter> set F' = {}"
    and "set F' \<union> live' = set F \<union> live"
  shows "ac_ok ac sa F' live' orphans"
  using assms(1) unfolding ac_ok_def assms(4) using assms(2,3) by (elim conjE) (intro conjI; assumption)

lemma ac_ok_perm: "ac_ok ac sa F live orphans \<Longrightarrow> mset F' = mset F \<Longrightarrow> ac_ok ac sa F' live orphans"
proof (rule ac_ok_resplit)
  assume ok: "ac_ok ac sa F live orphans" and eq: "mset F' = mset F"
  have set: "set F' = set F" by (rule mset_eq_setD [OF eq])
  show "distinct F'" using ac_okD(2) [OF ok] mset_eq_imp_distinct_iff [OF eq] by simp
  show "live \<inter> set F' = {}" "set F' \<union> live = set F \<union> live" using ac_okD(3) [OF ok] set by simp_all
qed

lemma ac_ok_take: "ac_ok ac sa (x # F) live orphans \<Longrightarrow> ac_ok ac sa F (insert x live) orphans"
  by (frule ac_okD(2), frule ac_okD(3), erule ac_ok_resplit) auto

lemma ac_ok_give: "ac_ok ac sa F live orphans \<Longrightarrow> x \<in> live \<Longrightarrow> ac_ok ac sa (x # F) (live - {x}) orphans"
  by (frule ac_okD(2), frule ac_okD(3), erule ac_ok_resplit) auto

text \<open>Recording in the map of a release that an allocation is free.\<close>

lemma ac_ok_mark:
  assumes ok: "ac_ok ac sa F live orphans" and m: "ac_slabReleaseAllocMap ac s = Some st" and i: "i < getAllocsPerSlab ac"
    and F': "distinct F'" "live' \<inter> set F' = {}" "set F' \<union> live' = (set F \<union> live) - {alloc_at ac s i}"
  shows "ac_ok (ac\<lparr>ac_slabReleaseAllocMap := (ac_slabReleaseAllocMap ac)(s \<mapsto> st[i := True])\<rparr>) sa F' live' orphans"
proof -
  let ?ac = "ac\<lparr>ac_slabReleaseAllocMap := (ac_slabReleaseAllocMap ac)(s \<mapsto> st[i := True])\<rparr>"
  note sh = ac_okD(1) [OF ok]
  have own: "s \<in> owned_slabs ac orphans" using m by (auto simp: owned_slabs_def)
  note s = ac_shapeD(7) [OF sh own] and g = ac_shapeD(1,2) [OF sh]
  have dom: "dom (ac_slabReleaseAllocMap ?ac) = dom (ac_slabReleaseAllocMap ac)" using m by auto
  have eqs: "owned_slabs ?ac = owned_slabs ac" "carved_allocs ?ac = carved_allocs ac" "alloc_at ?ac = alloc_at ac"
    "getAllocsPerSlab ?ac = getAllocsPerSlab ac" "class_header ?ac = class_header ac"
    using dom by (auto simp: owned_slabs_def carved_allocs_def carved_upto_def alloc_at_def getAllocsPerSlab_def
        class_header_def fun_eq_iff)
  have sh': "ac_shape ?ac sa orphans" using sh unfolding ac_shape_def dom eqs by simp
  have inj: "alloc_at ac t j = alloc_at ac s i \<longleftrightarrow> t = s \<and> j = i"
    if "t \<in> owned_slabs ac orphans" "j < getAllocsPerSlab ac" for t j
    by (rule alloc_inj [OF g(1) ac_shapeD(7) [OF sh that(1)] s g(2) that(2) i])
  have alloc: "carved_allocs ac t \<subseteq> set F' \<union> live'" if "t \<in> set (ac_allocatedSlabs ac)" for t
  proof -
    have "t \<noteq> s" using that m sh by (auto simp: ac_shape_def)
    moreover have own: "t \<in> owned_slabs ac orphans" using that by (simp add: owned_slabs_def)
    ultimately have "alloc_at ac s i \<notin> carved_allocs ac t"
      using inj [of t] carved_allocsE [OF sh own] by metis
    then show ?thesis using ac_okD(5) [OF ok that] F'(3) by auto
  qed
  have bits: "length st' = getAllocsPerSlab ac \<and> (\<forall>j < getAllocsPerSlab ac. st' ! j \<longleftrightarrow> alloc_at ac t j \<notin> set F' \<union> live')"
    if b: "((ac_slabReleaseAllocMap ac)(s \<mapsto> st[i := True])) t = Some st'" for t st'
  proof -
    obtain st0 where st0: "ac_slabReleaseAllocMap ac t = Some st0" "st' = (if t = s then st0[i := True] else st0)"
      using b m by (cases "t = s") auto
    have own: "t \<in> owned_slabs ac orphans" using st0 by (auto simp: owned_slabs_def)
    have len: "length st0 = getAllocsPerSlab ac" by (rule ac_okD(6) [OF ok st0(1)])
    moreover have "st' ! j \<longleftrightarrow> alloc_at ac t j \<notin> set F' \<union> live'" if "j < getAllocsPerSlab ac" for j
    proof -
      have "st' ! j \<longleftrightarrow> st0 ! j \<or> t = s \<and> j = i" using that len i by (simp add: st0(2) nth_list_update)
      then show ?thesis unfolding F'(3) using ac_okD(7) [OF ok st0(1) that] inj [OF own that] by blast
    qed
    ultimately show ?thesis using st0(2) by auto
  qed
  have sub: "set F' \<union> live' \<subseteq> (\<Union>s \<in> owned_slabs ac orphans. carved_allocs ac s)"
    using F'(3) ok unfolding ac_ok_def by auto
  show ?thesis unfolding ac_ok_def eqs using sh' F'(1,2) alloc bits sub by simp
qed

lemma ac_ok_carve:
  assumes ok: "ac_ok ac sa F live orphans" and can: "canAllocateFromCurrentSlabLocked ac"
    and x: "allocateFromCurrentSlabLocked ac = (x, ac')"
  shows "ac_ok ac' sa F (insert x live) orphans" and "x \<notin> set F \<union> live"
    and "\<exists>i < getAllocsPerSlab ac. x = alloc_at ac (ac_currSlab ac) i"
proof -
  note sh = ac_okD(1) [OF ok]
  define a where "a = unat (ac_allocationSize ac)"
  define off where "off = unat (ac_currOffset ac)"
  let ?c = "ac_currSlab ac"
  have c0: "?c \<noteq> 0" and le: "unat (ac_currOffset ac + ac_allocationSize ac) \<le> kSize"
    using can by (auto simp: canAllocateFromCurrentSlabLocked_def)
  have c: "?c \<in> set (ac_allocatedSlabs ac)" and dvd: "a dvd off" and ob: "off \<le> kSize" and ab: "0 < a" "a \<le> kSize"
    using ac_shapeD [OF sh] c0 by (auto simp: a_def off_def)
  have own: "?c \<in> owned_slabs ac orphans" using c by (simp add: owned_slabs_def)
  have sum: "unat (ac_currOffset ac + ac_allocationSize ac) = off + a"
    using ob ab by (simp add: a_def off_def unat_word_ariths kSize_def kNumSlabBits_def)
  have k: "off div a * a = off" using dvd by simp
  have kn: "off div a < getAllocsPerSlab ac"
    using le sum k ab by (simp add: getAllocsPerSlab_def a_def [symmetric] less_eq_div_iff_mult_less_eq Suc_le_eq [symmetric])
  have upto: "carved_upto ac ?c = off div a" by (simp add: carved_upto_def a_def off_def)
  have x': "x = alloc_at ac ?c (off div a)" and ac': "ac' = ac\<lparr>ac_currOffset := ac_currOffset ac + ac_allocationSize ac\<rparr>"
    using x k by (auto simp: allocateFromCurrentSlabLocked_def alloc_at_def a_def off_def)
  then show "\<exists>i < getAllocsPerSlab ac. x = alloc_at ac ?c i" using kn by blast
  have eqs: "owned_slabs ac' = owned_slabs ac" "alloc_at ac' = alloc_at ac" "getAllocsPerSlab ac' = getAllocsPerSlab ac"
    "ac_allocatedSlabs ac' = ac_allocatedSlabs ac" "ac_slabReleaseAllocMap ac' = ac_slabReleaseAllocMap ac"
    by (auto simp: ac' owned_slabs_def alloc_at_def getAllocsPerSlab_def fun_eq_iff)
  have "(off + a) div a = Suc (off div a)" using ab by (simp add: div_add_self2)
  then have "carved_upto ac' t = (if t = ?c then Suc (off div a) else carved_upto ac t)" for t
    using sum by (simp add: carved_upto_def eqs(3)) (simp add: ac' a_def [symmetric])
  then have car: "carved_allocs ac' t = (if t = ?c then insert x (carved_allocs ac t) else carved_allocs ac t)" for t
    by (simp add: carved_allocs_def eqs(2) x' upto lessThan_Suc)
  have inj: "alloc_at ac t j = x \<longleftrightarrow> t = ?c \<and> j = off div a"
    if "t \<in> owned_slabs ac orphans" "j < getAllocsPerSlab ac" for t j
    unfolding x' by (rule alloc_inj [OF ac_shapeD(1) [OF sh] _ _ ac_shapeD(2) [OF sh] that(2) kn])
      (use ac_shapeD(7) [OF sh] that own in auto)
  show nin: "x \<notin> set F \<union> live"
  proof
    assume "x \<in> set F \<union> live"
    from ac_ok_slab [OF ok this] obtain s i where "s \<in> owned_slabs ac orphans" "x = alloc_at ac s i"
      "i < carved_upto ac s" "i < getAllocsPerSlab ac" by blast
    then show False using inj [of s i] upto by auto
  qed
  have sh': "ac_shape ac' sa orphans"
    using sh sum le dvd unfolding ac_shape_def eqs by (simp add: ac' class_header_def a_def off_def)
  have bits: "(st ! i \<longleftrightarrow> alloc_at ac s i \<notin> set F \<union> insert x live)"
    if "ac_slabReleaseAllocMap ac s = Some st" "i < getAllocsPerSlab ac" for s st i
  proof -
    have "s \<noteq> ?c" using that(1) c sh by (auto simp: ac_shape_def)
    then show ?thesis using ac_okD(7) [OF ok that] inj [of s i] that by (auto simp: owned_slabs_def)
  qed
  have sub: "set F \<union> insert x live \<subseteq> (\<Union>s \<in> owned_slabs ac orphans. carved_allocs ac' s)"
    using ok own unfolding ac_ok_def by (auto simp: car split: if_splits)
  have alloc: "carved_allocs ac' s \<subseteq> set F \<union> insert x live" if "s \<in> set (ac_allocatedSlabs ac)" for s
    using ac_okD(5) [OF ok that] by (auto simp: car split: if_splits)
  have disj: "insert x live \<inter> set F = {}" using nin ac_okD(3) [OF ok] by auto
  show "ac_ok ac' sa F (insert x live) orphans"
    unfolding ac_ok_def eqs
    by (intro conjI ballI allI impI sh' ac_okD(2) [OF ok] disj sub alloc bits ac_okD(6) [OF ok]; assumption)
qed

text \<open>Making a free slab current: the slab carved before is used up.\<close>

lemma ac_ok_setup:
  assumes ok: "ac_ok ac sa F live orphans" and full: "\<not> canAllocateFromCurrentSlabLocked ac" and fs: "ac_freeSlabs ac \<noteq> []"
  shows "ac_ok (setupCurrentSlabLocked ac) sa F live orphans" and "canAllocateFromCurrentSlabLocked (setupCurrentSlabLocked ac)"
proof -
  note sh = ac_okD(1) [OF ok]
  define s where "s = last (ac_freeSlabs ac)"
  define fs' where "fs' = butlast (ac_freeSlabs ac)"
  have split: "ac_freeSlabs ac = fs' @ [s]" using fs by (simp add: s_def fs'_def)
  define ac' where "ac' = setupCurrentSlabLocked ac"
  have ac': "ac' = ac\<lparr>ac_freeSlabs := fs', ac_currSlab := s, ac_currOffset := 0, ac_allocatedSlabs := ac_allocatedSlabs ac @ [s]\<rparr>"
    by (simp add: ac'_def setupCurrentSlabLocked_def Let_def s_def fs'_def)
  have sin: "s \<in> set (ac_freeSlabs ac)" by (simp add: split)
  have s: "s \<in> carved sa" by (rule ac_shapeD(8) [OF sh sin])
  have s0: "s \<noteq> 0" using slab_index(4) [OF ac_shapeD(1) [OF sh]] s by auto
  have out: "s \<notin> owned_slabs ac orphans" by (rule ac_shape_free [OF sh sin])
  have cur: "carved_upto ac t = getAllocsPerSlab ac" if "t \<in> owned_slabs ac orphans" for t
  proof (cases "t = ac_currSlab ac")
    case True
    define a where "a = unat (ac_allocationSize ac)"
    define off where "off = unat (ac_currOffset ac)"
    have t0: "ac_currSlab ac \<noteq> 0" using slab_index(4) [OF ac_shapeD(1) [OF sh]] ac_shapeD(7) [OF sh that] True by auto
    have b: "off \<le> kSize" "a dvd off" "0 < a" "a \<le> kSize" using ac_shapeD [OF sh] t0 by (auto simp: a_def off_def)
    have "unat (ac_currOffset ac + ac_allocationSize ac) = off + a"
      using b by (simp add: a_def off_def unat_word_ariths kSize_def kNumSlabBits_def)
    then have "kSize < off + a" using full t0 by (simp add: canAllocateFromCurrentSlabLocked_def)
    moreover obtain k where k: "off = a * k" using b(2) by blast
    ultimately have "kSize div a = k" using b by (intro div_nat_eqI) (auto simp: algebra_simps)
    then show ?thesis using True k b(3) by (simp add: carved_upto_def getAllocsPerSlab_def a_def [symmetric] off_def [symmetric])
  qed (simp add: carved_upto_def)
  have eqs: "alloc_at ac' = alloc_at ac" "getAllocsPerSlab ac' = getAllocsPerSlab ac" "class_header ac' = class_header ac"
    "owned_slabs ac' orphans = insert s (owned_slabs ac orphans)" "ac_slabReleaseAllocMap ac' = ac_slabReleaseAllocMap ac"
    "set (ac_allocatedSlabs ac') = insert s (set (ac_allocatedSlabs ac))"
    by (auto simp: ac' fun_eq_iff alloc_at_def getAllocsPerSlab_def class_header_def owned_slabs_def)
  have upto: "carved_upto ac' t = (if t = s then 0 else getAllocsPerSlab ac)" for t
    by (simp add: carved_upto_def eqs(2)) (simp add: ac')
  have car: "carved_allocs ac' s = {}" "\<And>t. t \<in> owned_slabs ac orphans \<Longrightarrow> carved_allocs ac' t = carved_allocs ac t"
    using cur out by (auto simp: carved_allocs_def eqs(1) upto)
  have un: "set (ac_allocatedSlabs ac') \<union> set (ac_freeSlabs ac') = set (ac_allocatedSlabs ac) \<union> set (ac_freeSlabs ac)"
    "owned_slabs ac' orphans \<union> set (ac_freeSlabs ac') = owned_slabs ac orphans \<union> set (ac_freeSlabs ac)"
    unfolding eqs(4,6) by (auto simp: ac' split)
  have "distinct (ac_allocatedSlabs ac' @ ac_freeSlabs ac')"
    using sh unfolding ac_shape_def by (auto simp: ac' split)
  then have "ac_shape ac' sa orphans"
    using sh s0 unfolding ac_shape_def un eqs(3,5)
    by (elim conjE) (intro conjI; (assumption | simp add: ac'))
  moreover have "set F \<union> live \<subseteq> (\<Union>t \<in> owned_slabs ac' orphans. carved_allocs ac' t)"
  proof
    fix x assume "x \<in> set F \<union> live"
    from ac_okD(4) [OF ok this] show "x \<in> (\<Union>t \<in> owned_slabs ac' orphans. carved_allocs ac' t)"
      using car(2) unfolding eqs(4) by blast
  qed
  moreover have "carved_allocs ac' t \<subseteq> set F \<union> live" if "t \<in> set (ac_allocatedSlabs ac')" for t
  proof (cases "t = s")
    case False
    then have t: "t \<in> set (ac_allocatedSlabs ac)" using that by (simp add: eqs(6))
    then have "t \<in> owned_slabs ac orphans" by (simp add: owned_slabs_def)
    then show ?thesis using ac_okD(5) [OF ok t] by (simp add: car(2))
  qed (simp add: car(1))
  ultimately show "ac_ok (setupCurrentSlabLocked ac) sa F live orphans"
    unfolding ac_ok_def ac'_def [symmetric] eqs(1,2,5)
    using ac_okD(2,3,6,7) [OF ok] by (intro conjI ballI allI impI) auto
  show "canAllocateFromCurrentSlabLocked (setupCurrentSlabLocked ac)"
    using s0 ac_shapeD(3) [OF sh] unfolding ac'_def [symmetric] by (simp add: canAllocateFromCurrentSlabLocked_def ac')
qed

text \<open>The accounting with the lists a pruning thread holds (\<open>rest\<close>) spelled out.\<close>

definition ac_inv :: "acs \<Rightarrow> FreeList \<Rightarrow> addr set \<Rightarrow> addr set \<Rightarrow> bool" where
  "ac_inv s rest live orphans \<longleftrightarrow> ac_ok (fst s) (snd s) (ac_freedAllocations (fst s) @ rest) live orphans"

text \<open>Where an allocation may come from: an aligned place of a slab of the class.\<close>

definition class_alloc :: "acs \<Rightarrow> addr \<Rightarrow> bool" where
  "class_alloc s x \<longleftrightarrow> (let slab = getSlabForMemory x; i = getAllocIdx (fst s) slab x; h = header_of (snd s) slab
     in x = alloc_at (fst s) slab i \<and> i < getAllocsPerSlab (fst s) \<and> slab \<in> carved (snd s) \<and>
        classId h = ac_classId (fst s) \<and> poolId h = ac_poolId (fst s) \<and> allocSize h = ac_allocationSize (fst s))"

lemma class_allocI:
  assumes "ac_shape ac sa orphans" and "slab \<in> owned_slabs ac orphans" and "i < getAllocsPerSlab ac"
  shows "class_alloc (ac, sa) (alloc_at ac slab i)"
  using alloc_slab [OF ac_shapeD(1) [OF assms(1)] ac_shapeD(7) [OF assms(1,2)] ac_shapeD(2) [OF assms(1)] assms(3)]
    ac_shapeD(7,9) [OF assms(1,2)] assms(3)
  by (simp add: class_alloc_def class_header_def)

lemma class_alloc_place:
  assumes "ac_shape ac sa orphans" and "slab \<in> owned_slabs ac orphans" and "i < getAllocsPerSlab ac"
  shows "getSlabForMemory (alloc_at ac slab i) = slab"
  by (rule alloc_slab(1) [OF ac_shapeD(1) [OF assms(1)] ac_shapeD(7) [OF assms(1,2)] ac_shapeD(2) [OF assms(1)] assms(3)])

lemma allocateLocked_ok:
  assumes inv: "ac_inv (ac, sa) rest live orphans" and run: "allocateLocked ac = (p, ac')"
  shows "case p of None \<Rightarrow> ac_inv (ac', sa) rest live orphans \<and> ac_freedAllocations ac = [] \<and> ac_freeSlabs ac = []
     | Some x \<Rightarrow> ac_inv (ac', sa) rest (insert x live) orphans \<and> x \<notin> live \<and> class_alloc (ac, sa) x \<and>
         (x \<in> set (ac_freedAllocations ac) \<or> getSlabForMemory x \<in> set (ac_allocatedSlabs ac) \<union> set (ac_freeSlabs ac))"
proof -
  have ok: "ac_ok ac sa (ac_freedAllocations ac @ rest) live orphans" using inv by (simp add: ac_inv_def)
  consider (none) "p = None" "ac' = ac\<lparr>ac_canAllocate := False\<rparr>" "ac_freedAllocations ac = []" "ac_freeSlabs ac = []"
    | (freed) x fs where "ac_freedAllocations ac = x # fs" "p = Some x" "ac' = ac\<lparr>ac_freedAllocations := fs\<rparr>"
    | (carve) x where "ac_freedAllocations ac = []" "canAllocateFromCurrentSlabLocked ac" "p = Some x"
        "allocateFromCurrentSlabLocked ac = (x, ac')"
    | (fresh) x where "ac_freedAllocations ac = []" "\<not> canAllocateFromCurrentSlabLocked ac" "ac_freeSlabs ac \<noteq> []" "p = Some x"
        "allocateFromCurrentSlabLocked (setupCurrentSlabLocked ac) = (x, ac')"
    using run by (cases "ac_freedAllocations ac") (auto simp: allocateLocked_def split: if_splits prod.splits)
  then show ?thesis
  proof cases
    case none
    then show ?thesis using ok by (simp add: ac_inv_def)
  next
    case freed
    then have x: "x \<in> set (ac_freedAllocations ac @ rest) \<union> live" by simp
    from ac_ok_slab [OF ok x] obtain t i where "t \<in> owned_slabs ac orphans" "x = alloc_at ac t i" "i < getAllocsPerSlab ac"
      by blast
    then have "class_alloc (ac, sa) x" using class_allocI [OF ac_okD(1) [OF ok]] by simp
    then show ?thesis using freed ok ac_ok_take [of ac sa x "fs @ rest"] ac_okD(3) [OF ok] by (simp add: ac_inv_def)
  next
    case carve
    note C = ac_ok_carve [OF ok carve(2,4)]
    have cur: "ac_currSlab ac \<in> set (ac_allocatedSlabs ac)"
      using carve(2) ac_shapeD(11) [OF ac_okD(1) [OF ok]] by (simp add: canAllocateFromCurrentSlabLocked_def)
    then have own: "ac_currSlab ac \<in> owned_slabs ac orphans" by (simp add: owned_slabs_def)
    then have "class_alloc (ac, sa) x" using C(3) class_allocI [OF ac_okD(1) [OF ok]] by blast
    moreover have "getSlabForMemory x \<in> set (ac_allocatedSlabs ac)" using C(3) cur class_alloc_place [OF ac_okD(1) [OF ok] own] by auto
    moreover have "ac_freedAllocations ac' = []" using carve by (auto simp: allocateFromCurrentSlabLocked_def)
    ultimately show ?thesis using C(1,2) carve by (simp add: ac_inv_def)
  next
    case fresh
    let ?ac = "setupCurrentSlabLocked ac"
    note S = ac_ok_setup [OF ok fresh(2,3)]
    note C = ac_ok_carve [OF S fresh(5)]
    have cur: "ac_currSlab ?ac \<in> set (ac_allocatedSlabs ?ac)"
      using S(2) ac_shapeD(11) [OF ac_okD(1) [OF S(1)]] by (simp add: canAllocateFromCurrentSlabLocked_def)
    then have own: "ac_currSlab ?ac \<in> owned_slabs ?ac orphans" by (simp add: owned_slabs_def)
    then have "class_alloc (?ac, sa) x" using C(3) class_allocI [OF ac_okD(1) [OF S(1)]] by blast
    moreover have "getSlabForMemory x \<in> set (ac_allocatedSlabs ?ac)"
      using C(3) cur class_alloc_place [OF ac_okD(1) [OF S(1)] own] by auto
    then have "getSlabForMemory x \<in> set (ac_allocatedSlabs ac) \<union> set (ac_freeSlabs ac)"
      using fresh(3) by (auto simp: setupCurrentSlabLocked_def Let_def)
    ultimately have "class_alloc (ac, sa) x \<and> getSlabForMemory x \<in> set (ac_allocatedSlabs ac) \<union> set (ac_freeSlabs ac)"
      by (simp add: class_alloc_def alloc_at_def getAllocIdx_def getAllocsPerSlab_def setupCurrentSlabLocked_def Let_def)
    moreover have "ac_freedAllocations ac' = []"
      using fresh by (auto simp: allocateFromCurrentSlabLocked_def setupCurrentSlabLocked_def Let_def)
    ultimately show ?thesis using C(1,2) fresh by (simp add: ac_inv_def)
  qed
qed

section \<open>Headers and slab lists\<close>

lemma write_header_carved:
  assumes "sa_geometry sa" and "s \<in> carved sa"
  shows "write_header s f sa = upd_header (slabIdx sa s) f sa"
    and "sa_geometry (write_header s f sa)" and "carved (write_header s f sa) = carved sa"
    and "t \<in> carved sa \<Longrightarrow> header_of (write_header s f sa) t = (if t = s then f (header_of sa s) else header_of sa t)"
proof -
  show w: "write_header s f sa = upd_header (slabIdx sa s) f sa"
    by (simp add: write_header_def header_lookup [OF assms])
  show "sa_geometry (write_header s f sa)" "carved (write_header s f sa) = carved sa" using assms by (simp_all add: w)
  show "t \<in> carved sa \<Longrightarrow> header_of (write_header s f sa) t = (if t = s then f (header_of sa s) else header_of sa t)"
    unfolding w by (rule header_of_upd [OF assms])
qed

lemma swap_remove_mset: "x \<in> set xs \<Longrightarrow> mset (swap_remove x xs) = mset xs - {#x#}"
proof -
  assume "x \<in> set xs"
  then obtain ys zs where xs: "xs = ys @ x # zs" and ys: "x \<notin> set ys" by (metis split_list_first)
  have "takeWhile (\<lambda>y. y \<noteq> x) xs = ys" using ys unfolding xs by (subst takeWhile_append2) auto
  then have "swap_remove x xs = butlast (ys @ last xs # zs)" by (simp add: swap_remove_def xs)
  then show ?thesis by (cases zs rule: rev_cases) (auto simp: xs butlast_append)
qed

lemma swap_remove_set:
  assumes "x \<in> set xs" and "distinct xs"
  shows "set (swap_remove x xs) = set xs - {x}" and "distinct (swap_remove x xs)"
proof -
  have m: "mset (swap_remove x xs) = mset (remove1 x xs)" by (simp add: swap_remove_mset [OF assms(1)])
  show "set (swap_remove x xs) = set xs - {x}" using mset_eq_setD [OF m] assms(2) by simp
  show "distinct (swap_remove x xs)" using mset_eq_imp_distinct_iff [OF m] assms(2) by simp
qed

lemma ac_shapeI:
  assumes "sa_geometry sa" "0 < unat (ac_allocationSize ac)" "unat (ac_allocationSize ac) \<le> kSize"
    "ac_classId ac \<noteq> kInvalidClassId" "distinct (ac_allocatedSlabs ac)" "distinct (ac_freeSlabs ac)"
    "set (ac_allocatedSlabs ac) \<inter> set (ac_freeSlabs ac) = {}"
    "(set (ac_allocatedSlabs ac) \<union> set (ac_freeSlabs ac)) \<inter> dom (ac_slabReleaseAllocMap ac) = {}"
    "(set (ac_allocatedSlabs ac) \<union> set (ac_freeSlabs ac) \<union> dom (ac_slabReleaseAllocMap ac)) \<inter> orphans = {}"
    "\<And>s. s \<in> owned_slabs ac orphans \<union> set (ac_freeSlabs ac) \<Longrightarrow> s \<in> carved sa"
    "\<And>s. s \<in> owned_slabs ac orphans \<union> set (ac_freeSlabs ac) \<Longrightarrow>
       class_header ac (s \<in> dom (ac_slabReleaseAllocMap ac)) (header_of sa s)"
    "ac_currSlab ac \<noteq> 0 \<Longrightarrow> ac_currSlab ac \<in> set (ac_allocatedSlabs ac) \<and>
       unat (ac_allocationSize ac) dvd unat (ac_currOffset ac) \<and> unat (ac_currOffset ac) \<le> kSize"
  shows "ac_shape ac sa orphans"
  unfolding ac_shape_def using assms by (intro conjI ballI impI subsetI) simp_all

lemma ac_shape_sets:
  assumes "ac_shape ac sa orphans"
  shows "ac_classId ac \<noteq> kInvalidClassId"
    "set (ac_allocatedSlabs ac) \<inter> set (ac_freeSlabs ac) = {}"
    "(set (ac_allocatedSlabs ac) \<union> set (ac_freeSlabs ac)) \<inter> dom (ac_slabReleaseAllocMap ac) = {}"
    "(set (ac_allocatedSlabs ac) \<union> set (ac_freeSlabs ac) \<union> dom (ac_slabReleaseAllocMap ac)) \<inter> orphans = {}"
    "\<And>s. s \<in> owned_slabs ac orphans \<union> set (ac_freeSlabs ac) \<Longrightarrow>
       class_header ac (s \<in> dom (ac_slabReleaseAllocMap ac)) (header_of sa s)"
    "ac_currSlab ac \<noteq> 0 \<Longrightarrow> ac_currSlab ac \<in> set (ac_allocatedSlabs ac) \<and>
       unat (ac_allocationSize ac) dvd unat (ac_currOffset ac) \<and> unat (ac_currOffset ac) \<le> kSize"
  using assms unfolding ac_shape_def by simp_all

lemma ac_okI:
  assumes "ac_shape ac sa orphans" "distinct F" "live \<inter> set F = {}"
    "\<And>x. x \<in> set F \<union> live \<Longrightarrow> \<exists>s \<in> owned_slabs ac orphans. x \<in> carved_allocs ac s"
    "\<And>s. s \<in> set (ac_allocatedSlabs ac) \<Longrightarrow> carved_allocs ac s \<subseteq> set F \<union> live"
    "\<And>s st. ac_slabReleaseAllocMap ac s = Some st \<Longrightarrow> length st = getAllocsPerSlab ac"
    "\<And>s st i. ac_slabReleaseAllocMap ac s = Some st \<Longrightarrow> i < getAllocsPerSlab ac \<Longrightarrow>
       st ! i \<longleftrightarrow> alloc_at ac s i \<notin> set F \<union> live"
  shows "ac_ok ac sa F live orphans"
proof -
  have a: "set F \<union> live \<subseteq> (\<Union>s \<in> owned_slabs ac orphans. carved_allocs ac s)"
  proof
    fix x assume "x \<in> set F \<union> live"
    from assms(4) [OF this] show "x \<in> (\<Union>s \<in> owned_slabs ac orphans. carved_allocs ac s)" by (rule UN_iff [THEN iffD2])
  qed
  have b: "\<forall>s st. ac_slabReleaseAllocMap ac s = Some st \<longrightarrow> length st = getAllocsPerSlab ac \<and>
      (\<forall>i < getAllocsPerSlab ac. st ! i \<longleftrightarrow> alloc_at ac s i \<notin> set F \<union> live)" by (simp add: assms(6,7))
  have c: "\<forall>s \<in> set (ac_allocatedSlabs ac). carved_allocs ac s \<subseteq> set F \<union> live" by (simp add: assms(5))
  show ?thesis
    unfolding ac_ok_def by (intro conjI assms(1) assms(2) assms(3) a c b)
qed

section \<open>Freeing and adding slabs\<close>

lemma freeAlloc_ok:
  assumes inv: "ac_inv (ac, sa) rest live orphans" and x: "x \<in> live"
  shows "\<exists>ac'. freeAlloc x (ac, sa) = (Inr (), (ac', sa)) \<and> ac_inv (ac', sa) rest (live - {x}) orphans"
proof -
  have ok: "ac_ok ac sa (ac_freedAllocations ac @ rest) live orphans" using inv by (simp add: ac_inv_def)
  note sh = ac_okD(1) [OF ok]
  from x have "x \<in> set (ac_freedAllocations ac @ rest) \<union> live" by simp
  from ac_ok_slab [OF ok this] obtain s i where s: "s \<in> owned_slabs ac orphans" "x = alloc_at ac s i" "i < getAllocsPerSlab ac"
    "getSlabForMemory x = s" "getAllocIdx ac s x = i" "getSlabHeader_memory sa x = Some (slabIdx sa s)" "s \<in> carved sa"
    by blast
  have h: "classId (sa_headers sa (slabIdx sa s)) = ac_classId ac"
    "isMarkedForRelease (sa_headers sa (slabIdx sa s)) = (s \<in> dom (ac_slabReleaseAllocMap ac))"
    using ac_shapeD(9) [OF sh s(1)] by (simp_all add: class_header_def header_of_def)
  show ?thesis
  proof (cases "ac_slabReleaseAllocMap ac s")
    case None
    then have "freeAlloc x (ac, sa) = (Inr (), (ac\<lparr>ac_freedAllocations := x # ac_freedAllocations ac, ac_canAllocate := True\<rparr>, sa))"
      using h s by (auto simp: freeAlloc_def Let_def)
    then show ?thesis using ac_ok_give [OF ok x] by (simp add: ac_inv_def)
  next
    case (Some st)
    have "\<not> st ! i" using ac_okD(7) [OF ok Some s(3)] s(2) x by simp
    then have run: "freeAlloc x (ac, sa) = (Inr (), (ac\<lparr>ac_slabReleaseAllocMap := (ac_slabReleaseAllocMap ac)(s \<mapsto> st[i := True])\<rparr>, sa))"
      using h s Some ac_okD(6) [OF ok Some] by (auto simp: freeAlloc_def Let_def)
    have "ac_ok (ac\<lparr>ac_slabReleaseAllocMap := (ac_slabReleaseAllocMap ac)(s \<mapsto> st[i := True])\<rparr>) sa
        (ac_freedAllocations ac @ rest) (live - {x}) orphans"
      by (rule ac_ok_mark [OF ok Some s(3) ac_okD(2) [OF ok]]) (use ac_okD(3) [OF ok] s(2) x in auto)
    then show ?thesis using run by (simp add: ac_inv_def)
  qed
qed

text \<open>A step that writes the header of one slab and moves slabs between the lists.\<close>

lemma ac_shape_write:
  assumes sh: "ac_shape ac sa orphans" and s: "s \<in> carved sa" and sa': "sa' = write_header s f sa"
    and same: "ac_classId ac' = ac_classId ac" "ac_poolId ac' = ac_poolId ac" "ac_allocationSize ac' = ac_allocationSize ac"
    and lists: "distinct (ac_allocatedSlabs ac')" "distinct (ac_freeSlabs ac')"
      "set (ac_allocatedSlabs ac') \<inter> set (ac_freeSlabs ac') = {}"
      "(set (ac_allocatedSlabs ac') \<union> set (ac_freeSlabs ac')) \<inter> dom (ac_slabReleaseAllocMap ac') = {}"
      "(set (ac_allocatedSlabs ac') \<union> set (ac_freeSlabs ac') \<union> dom (ac_slabReleaseAllocMap ac')) \<inter> orphans' = {}"
    and sub: "\<And>t. t \<in> owned_slabs ac' orphans' \<union> set (ac_freeSlabs ac') \<Longrightarrow> t \<noteq> s \<Longrightarrow>
       t \<in> owned_slabs ac orphans \<union> set (ac_freeSlabs ac) \<and>
       (t \<in> dom (ac_slabReleaseAllocMap ac') \<longleftrightarrow> t \<in> dom (ac_slabReleaseAllocMap ac))"
    and hs: "s \<in> owned_slabs ac' orphans' \<union> set (ac_freeSlabs ac') \<Longrightarrow>
       class_header ac (s \<in> dom (ac_slabReleaseAllocMap ac')) (f (header_of sa s))"
    and cur: "ac_currSlab ac' \<noteq> 0 \<Longrightarrow> ac_currSlab ac' = ac_currSlab ac \<and> ac_currOffset ac' = ac_currOffset ac \<and>
       ac_currSlab ac' \<in> set (ac_allocatedSlabs ac')"
  shows "ac_shape ac' sa' orphans'"
proof (rule ac_shapeI)
  note W = write_header_carved [OF ac_shapeD(1) [OF sh] s, where f = f, folded sa']
  show "sa_geometry sa'" by (rule W(2))
  show "0 < unat (ac_allocationSize ac')" "unat (ac_allocationSize ac') \<le> kSize" "ac_classId ac' \<noteq> kInvalidClassId"
    using ac_shapeD(2,3) [OF sh] ac_shape_sets(1) [OF sh] by (simp_all add: same)
  fix t assume t: "t \<in> owned_slabs ac' orphans' \<union> set (ac_freeSlabs ac')"
  have tc: "t \<in> carved sa" using s sub [OF t] ac_shapeD(7,8) [OF sh] by (cases "t = s") auto
  then show "t \<in> carved sa'" by (simp add: W(3))
  have ch: "class_header ac' = class_header ac" by (simp add: fun_eq_iff class_header_def same)
  show "class_header ac' (t \<in> dom (ac_slabReleaseAllocMap ac')) (header_of sa' t)"
  proof (cases "t = s")
    case True
    then show ?thesis using hs t W(4) [OF s] by (simp add: ch)
  next
    case False
    then show ?thesis using sub [OF t False] ac_shape_sets(5) [OF sh, of t] W(4) [OF tc] by (simp add: ch)
  qed
next
  assume c: "ac_currSlab ac' \<noteq> 0"
  show "ac_currSlab ac' \<in> set (ac_allocatedSlabs ac') \<and>
    unat (ac_allocationSize ac') dvd unat (ac_currOffset ac') \<and> unat (ac_currOffset ac') \<le> kSize"
    using cur [OF c] c ac_shape_sets(6) [OF sh] by (auto simp: same)
qed (rule lists)+

lemma addSlabLocked_ok:
  assumes inv: "ac_inv (ac, sa) rest live orphans" and s: "s \<in> carved sa" "s \<notin> owned_slabs ac orphans" "s \<notin> set (ac_freeSlabs ac)"
    and h: "poolId (header_of sa s) = ac_poolId ac" "\<not> isMarkedForRelease (header_of sa s)"
  shows "ac_inv (addSlabLocked s (ac, sa)) rest live orphans"
proof -
  have ok: "ac_ok ac sa (ac_freedAllocations ac @ rest) live orphans" using inv by (simp add: ac_inv_def)
  note sh = ac_okD(1) [OF ok]
  define ac' where "ac' = ac\<lparr>ac_canAllocate := True, ac_freeSlabs := ac_freeSlabs ac @ [s]\<rparr>"
  define sa' where "sa' = write_header s (\<lambda>h. h\<lparr>classId := ac_classId ac, allocSize := ac_allocationSize ac\<rparr>) sa"
  have run: "addSlabLocked s (ac, sa) = (ac', sa')" by (simp add: addSlabLocked_def ac'_def sa'_def)
  have eqs: "alloc_at ac' = alloc_at ac" "getAllocsPerSlab ac' = getAllocsPerSlab ac"
    "owned_slabs ac' = owned_slabs ac" "carved_allocs ac' = carved_allocs ac"
    by (auto simp: ac'_def fun_eq_iff alloc_at_def getAllocsPerSlab_def owned_slabs_def carved_allocs_def carved_upto_def)
  have nd: "s \<notin> dom (ac_slabReleaseAllocMap ac)" "s \<notin> orphans" "s \<notin> set (ac_allocatedSlabs ac)"
    using s(2) by (auto simp: owned_slabs_def)
  have "ac_shape ac' sa' orphans"
    by (rule ac_shape_write [OF sh s(1) sa'_def], unfold eqs)
      (use ac_shapeD(4,5,11) [OF sh] ac_shape_sets(2-4) [OF sh] s(3) nd h in \<open>auto simp: ac'_def class_header_def\<close>)
  then have "ac_ok ac' sa' (ac_freedAllocations ac @ rest) live orphans"
    by (rule ac_okI, unfold eqs) (use ac_okD [OF ok] in \<open>auto simp: ac'_def\<close>)
  then show ?thesis unfolding run by (simp add: ac_inv_def) (simp add: ac'_def)
qed


section \<open>The sections of a release\<close>

lemma ac_ok_drop_free:
  assumes ok: "ac_ok ac sa F live orphans" and s: "s \<in> set (ac_freeSlabs ac)"
  shows "ac_ok (ac\<lparr>ac_freeSlabs := swap_remove s (ac_freeSlabs ac)\<rparr>) (write_header s f sa) F live orphans"
proof -
  note sh = ac_okD(1) [OF ok]
  define ac' where "ac' = ac\<lparr>ac_freeSlabs := swap_remove s (ac_freeSlabs ac)\<rparr>"
  note R = swap_remove_set [OF s ac_shapeD(5) [OF sh]]
  have eqs: "alloc_at ac' = alloc_at ac" "getAllocsPerSlab ac' = getAllocsPerSlab ac"
    "owned_slabs ac' = owned_slabs ac" "carved_allocs ac' = carved_allocs ac"
    by (auto simp: ac'_def fun_eq_iff alloc_at_def getAllocsPerSlab_def owned_slabs_def carved_allocs_def carved_upto_def)
  have "ac_shape ac' (write_header s f sa) orphans"
    by (rule ac_shape_write [OF sh ac_shapeD(8) [OF sh s] refl], unfold eqs)
      (use R ac_shapeD(4,11) [OF sh] ac_shape_sets(2-4) [OF sh] ac_shape_free [OF sh s] in \<open>auto simp: ac'_def\<close>)
  then show ?thesis unfolding ac'_def [symmetric]
    by (rule ac_okI, unfold eqs) (use ac_okD [OF ok] in \<open>auto simp: ac'_def\<close>)
qed

text \<open>A slab in use leaves the lists: the part of it not carved yet counts as free in its map.\<close>

lemma div_word_nat: "unat ((x::u32) div y) = unat x div unat y"
  by (simp add: unat_div_distrib)

lemma ac_ok_select:
  assumes ok: "ac_ok ac sa F live orphans" and s: "s \<in> set (ac_allocatedSlabs ac)"
    and ac1: "createSlabReleaseAllocMapLocked s ac = Inr ac1"
    and ac': "ac' = uncarved_as_free s (ac1\<lparr>ac_allocatedSlabs := swap_remove s (ac_allocatedSlabs ac1)\<rparr>)"
  shows "ac_ok ac' (write_header s (setMarkedForRelease True) sa) F live orphans"
    and "dom (ac_slabReleaseAllocMap ac') = insert s (dom (ac_slabReleaseAllocMap ac))"
    and "ac_freedAllocations ac' = ac_freedAllocations ac"
proof -
  note sh = ac_okD(1) [OF ok] and g = ac_shapeD(1,2) [OF ac_okD(1) [OF ok]]
  have own: "s \<in> owned_slabs ac orphans" using s by (simp add: owned_slabs_def)
  note sc = ac_shapeD(7) [OF sh own]
  have s0: "s \<noteq> 0" using slab_index(4) [OF g(1)] sc by auto
  define st where "st = map (\<lambda>i. carved_upto ac s \<le> i) [0..<getAllocsPerSlab ac]"
  have st: "length st = getAllocsPerSlab ac" "\<And>i. i < getAllocsPerSlab ac \<Longrightarrow> st ! i \<longleftrightarrow> carved_upto ac s \<le> i"
    by (simp_all add: st_def)
  have st_full: "replicate (getAllocsPerSlab ac) False = st" if "ac_currSlab ac \<noteq> s"
    by (rule nth_equalityI) (use that in \<open>auto simp: st_def carved_upto_def\<close>)
  have m: "ac_slabReleaseAllocMap ac' = (ac_slabReleaseAllocMap ac)(s \<mapsto> st)"
    and cur: "ac_currSlab ac' = (if ac_currSlab ac = s then 0 else ac_currSlab ac)"
    and off: "ac_currSlab ac' \<noteq> 0 \<Longrightarrow> ac_currOffset ac' = ac_currOffset ac"
    and rest: "ac_freeSlabs ac' = ac_freeSlabs ac" "ac_freedAllocations ac' = ac_freedAllocations ac"
      "ac_allocatedSlabs ac' = swap_remove s (ac_allocatedSlabs ac)" "ac_classId ac' = ac_classId ac"
      "ac_poolId ac' = ac_poolId ac" "ac_allocationSize ac' = ac_allocationSize ac"
    using ac1 st_full unfolding ac'
    by (auto simp: createSlabReleaseAllocMapLocked_def uncarved_as_free_def st_def carved_upto_def div_word_nat split: if_splits)
  then show "dom (ac_slabReleaseAllocMap ac') = insert s (dom (ac_slabReleaseAllocMap ac))"
    "ac_freedAllocations ac' = ac_freedAllocations ac" by auto
  note R = swap_remove_set [OF s ac_shapeD(4) [OF sh]]
  have eqs: "alloc_at ac' = alloc_at ac" "getAllocsPerSlab ac' = getAllocsPerSlab ac"
    "owned_slabs ac' orphans = owned_slabs ac orphans"
    using s by (auto simp: rest m R fun_eq_iff alloc_at_def getAllocsPerSlab_def owned_slabs_def)
  have nd: "s \<notin> dom (ac_slabReleaseAllocMap ac)" "s \<notin> orphans" "s \<notin> set (ac_freeSlabs ac)"
    using s ac_shape_sets(2-4) [OF sh] by blast+
  have "ac_shape ac' (write_header s (setMarkedForRelease True) sa) orphans"
  proof (rule ac_shape_write [OF sh sc refl])
    show "class_header ac (s \<in> dom (ac_slabReleaseAllocMap ac')) (setMarkedForRelease True (header_of sa s))"
      using ac_shapeD(9) [OF sh own] by (simp add: m class_header_def)
    show "ac_currSlab ac' = ac_currSlab ac \<and> ac_currOffset ac' = ac_currOffset ac \<and> ac_currSlab ac' \<in> set (ac_allocatedSlabs ac')"
      if "ac_currSlab ac' \<noteq> 0"
      using that off [OF that] ac_shapeD(11) [OF sh] by (auto simp: cur rest R split: if_splits)
  qed (use R ac_shapeD(5) [OF sh] ac_shape_sets(2-4) [OF sh] nd in \<open>auto simp: rest m eqs(3)\<close>)
  moreover have car: "carved_allocs ac' t = carved_allocs ac t" if "t \<in> owned_slabs ac orphans" "t \<noteq> s" for t
    using that cur off owned_nonzero [OF sh that(1)] by (auto simp: carved_allocs_def carved_upto_def eqs rest split: if_splits)
  have cars: "carved_allocs ac' s = alloc_at ac s ` {..<getAllocsPerSlab ac}"
    using cur s0 by (auto simp: carved_allocs_def carved_upto_def eqs split: if_splits)
  have bits: "carved_upto ac s \<le> i \<longleftrightarrow> alloc_at ac s i \<notin> set F \<union> live" if i: "i < getAllocsPerSlab ac" for i
  proof
    assume up: "carved_upto ac s \<le> i"
    show "alloc_at ac s i \<notin> set F \<union> live"
    proof
      assume "alloc_at ac s i \<in> set F \<union> live"
      from ac_ok_slab [OF ok this] obtain t j where t: "alloc_at ac s i = alloc_at ac t j" "j < carved_upto ac t"
        "j < getAllocsPerSlab ac" "t \<in> carved sa" by blast
      then show False using alloc_inj [OF g(1) sc t(4) g(2) i t(3)] up by simp
    qed
  next
    assume "alloc_at ac s i \<notin> set F \<union> live"
    then show "carved_upto ac s \<le> i" using ac_okD(5) [OF ok s] by (auto simp: carved_allocs_def not_less [symmetric])
  qed
  ultimately show "ac_ok ac' (write_header s (setMarkedForRelease True) sa) F live orphans"
  proof (intro ac_okI, unfold eqs)
    fix x assume "x \<in> set F \<union> live"
    from ac_ok_slab [OF ok this] obtain t j where t: "t \<in> owned_slabs ac orphans" "x = alloc_at ac t j" "j < carved_upto ac t"
      "j < getAllocsPerSlab ac" by blast
    then have "x \<in> carved_allocs ac' t" using cars car [of t] by (cases "t = s") (auto simp: carved_allocs_def)
    with t(1) show "\<exists>t \<in> owned_slabs ac orphans. x \<in> carved_allocs ac' t" by blast
  next
    fix t assume "t \<in> set (ac_allocatedSlabs ac')"
    then have "t \<in> set (ac_allocatedSlabs ac)" "t \<noteq> s" by (auto simp: rest R)
    then show "carved_allocs ac' t \<subseteq> set F \<union> live" using car [of t] ac_okD(5) [OF ok] by (simp add: owned_slabs_def)
  next
    fix t st' i assume "ac_slabReleaseAllocMap ac' t = Some st'" "i < getAllocsPerSlab ac"
    then show "st' ! i \<longleftrightarrow> alloc_at ac t i \<notin> set F \<union> live"
      using st(2) [of i] bits [of i] ac_okD(7) [OF ok, of t st' i] by (auto simp: m split: if_splits)
  qed (use ac_okD(2,3,6) [OF ok] st(1) in \<open>auto simp: m split: if_splits\<close>)
qed

text \<open>A release ends: the slab leaves the class, is lost, or goes back to the allocated slabs.\<close>

lemma ac_ok_erase:
  assumes ok: "ac_ok ac sa F live orphans" and m: "ac_slabReleaseAllocMap ac s = Some st"
    and orphans': "orphans' = orphans \<and> (\<forall>x \<in> set F \<union> live. getSlabForMemory x \<noteq> s) \<or>
      orphans' = insert s orphans \<and> f = setMarkedForRelease False"
  shows "ac_ok (erase_release s ac) (write_header s f sa) F live orphans'"
proof -
  note sh = ac_okD(1) [OF ok]
  define ac' where "ac' = erase_release s ac"
  have own: "s \<in> owned_slabs ac orphans" using m by (auto simp: owned_slabs_def)
  note sc = ac_shapeD(7) [OF sh own]
  have nd: "s \<notin> set (ac_allocatedSlabs ac)" "s \<notin> orphans" "s \<notin> set (ac_freeSlabs ac)"
    using m ac_shape_sets(3,4) [OF sh] by blast+
  have eqs: "alloc_at ac' = alloc_at ac" "getAllocsPerSlab ac' = getAllocsPerSlab ac" "carved_allocs ac' = carved_allocs ac"
    by (auto simp: ac'_def erase_release_def fun_eq_iff alloc_at_def getAllocsPerSlab_def carved_allocs_def carved_upto_def)
  have ow: "owned_slabs ac' orphans' = owned_slabs ac orphans - (if orphans' = orphans then {s} else {})"
    using orphans' nd own by (auto simp: owned_slabs_def ac'_def erase_release_def)
  have dm: "dom (ac_slabReleaseAllocMap ac') = dom (ac_slabReleaseAllocMap ac) - {s}"
    "ac_allocatedSlabs ac' = ac_allocatedSlabs ac" "ac_freeSlabs ac' = ac_freeSlabs ac"
    by (auto simp: ac'_def erase_release_def)
  have "ac_shape ac' (write_header s f sa) orphans'"
  proof (rule ac_shape_write [OF sh sc refl])
    show "class_header ac (s \<in> dom (ac_slabReleaseAllocMap ac')) (f (header_of sa s))"
      if "s \<in> owned_slabs ac' orphans' \<union> set (ac_freeSlabs ac')"
      using that ow nd orphans' ac_shapeD(9) [OF sh own] by (auto simp: dm class_header_def split: if_splits)
  qed (use ac_shapeD(4,5,11) [OF sh] ac_shape_sets(2-4) [OF sh] nd orphans' ow
        in \<open>auto simp: dm ac'_def erase_release_def\<close>)
  then show ?thesis unfolding ac'_def [symmetric]
  proof (rule ac_okI, unfold eqs)
    fix x assume x: "x \<in> set F \<union> live"
    from ac_ok_slab [OF ok x] obtain t i where t: "t \<in> owned_slabs ac orphans" "x = alloc_at ac t i" "i < carved_upto ac t"
      "getSlabForMemory x = t" by blast
    then have "x \<in> carved_allocs ac t" "t \<in> owned_slabs ac' orphans'" using orphans' x ow nd(2) by (auto simp: carved_allocs_def)
    then show "\<exists>t \<in> owned_slabs ac' orphans'. x \<in> carved_allocs ac t" by blast
  qed (use ac_okD [OF ok] in \<open>auto simp: dm ac'_def erase_release_def split: if_splits\<close>)
qed

lemma ac_ok_unrelease:
  assumes ok: "ac_ok ac sa F live orphans" and m: "ac_slabReleaseAllocMap ac s = Some st"
    and freed: "freed = map (\<lambda>i. memoryAtOffset s (i * unat (ac_allocationSize ac))) (filter (\<lambda>i. st ! i) [0..<length st])"
    and ac': "ac' = (erase_release s ac)\<lparr>ac_allocatedSlabs := ac_allocatedSlabs ac @ [s]\<rparr>"
    and f: "f = (\<lambda>h. setMarkedForRelease False (h\<lparr>classId := ac_classId ac, allocSize := ac_allocationSize ac\<rparr>))"
  shows "ac_ok ac' (write_header s f sa) (rev freed @ F) live orphans"
proof -
  note sh = ac_okD(1) [OF ok] and g = ac_shapeD(1,2) [OF ac_okD(1) [OF ok]]
  have own: "s \<in> owned_slabs ac orphans" using m by (auto simp: owned_slabs_def)
  note sc = ac_shapeD(7) [OF sh own]
  have nd: "s \<notin> set (ac_allocatedSlabs ac)" "s \<notin> orphans" "s \<notin> set (ac_freeSlabs ac)"
    using m ac_shape_sets(3,4) [OF sh] by blast+
  have cur: "ac_currSlab ac \<noteq> s" using nd(1) ac_shapeD(11) [OF sh] owned_nonzero [OF sh own] by auto
  have eqs: "alloc_at ac' = alloc_at ac" "getAllocsPerSlab ac' = getAllocsPerSlab ac" "carved_allocs ac' = carved_allocs ac"
    "owned_slabs ac' = owned_slabs ac"
    using m by (auto simp: ac' erase_release_def fun_eq_iff alloc_at_def getAllocsPerSlab_def carved_allocs_def
        carved_upto_def owned_slabs_def)
  have cars: "carved_allocs ac s = alloc_at ac s ` {..<getAllocsPerSlab ac}" using cur by (simp add: carved_allocs_def carved_upto_def)
  have fr: "freed = map (alloc_at ac s) (filter (\<lambda>i. st ! i) [0..<getAllocsPerSlab ac])"
    using ac_okD(6) [OF ok m] by (simp add: freed alloc_at_def)
  have inj: "inj_on (alloc_at ac s) {..<getAllocsPerSlab ac}"
    by (rule inj_onI) (use alloc_inj [OF g(1) sc sc g(2)] in simp)
  have fs: "set freed = carved_allocs ac s - (set F \<union> live)" using ac_okD(7) [OF ok m] by (auto simp: fr cars)
  have "distinct freed" unfolding fr by (simp add: distinct_map) (rule inj_on_subset [OF inj], auto)
  then have dist: "distinct (rev freed @ F)" "live \<inter> set (rev freed @ F) = {}"
    using fs ac_okD(2,3) [OF ok] by auto
  have "ac_shape ac' (write_header s f sa) orphans"
  proof (rule ac_shape_write [OF sh sc refl])
    show "class_header ac (s \<in> dom (ac_slabReleaseAllocMap ac')) (f (header_of sa s))"
      using ac_shapeD(9) [OF sh own] by (simp add: ac' erase_release_def f class_header_def)
  qed (use ac_shapeD(4,5,11) [OF sh] ac_shape_sets(2-4) [OF sh] nd eqs(4) in \<open>auto simp: ac' erase_release_def\<close>)
  then show ?thesis
  proof (rule ac_okI, unfold eqs)
    fix t st' i assume "ac_slabReleaseAllocMap ac' t = Some st'" and i: "i < getAllocsPerSlab ac"
    then have t: "ac_slabReleaseAllocMap ac t = Some st'" "t \<noteq> s" by (auto simp: ac' erase_release_def split: if_splits)
    then have "t \<in> carved sa" using ac_shapeD(7) [OF sh] by (auto simp: owned_slabs_def)
    then have "alloc_at ac t i \<notin> set freed" using t(2) alloc_inj [OF g(1) _ sc g(2) i] by (auto simp: fs cars)
    then show "st' ! i \<longleftrightarrow> alloc_at ac t i \<notin> set (rev freed @ F) \<union> live" using ac_okD(7) [OF ok t(1) i] by simp
  next
    show "\<exists>t \<in> owned_slabs ac orphans. x \<in> carved_allocs ac t" if "x \<in> set (rev freed @ F) \<union> live" for x
      using that fs own ac_okD(4) [OF ok, of x] by auto
    show "carved_allocs ac t \<subseteq> set (rev freed @ F) \<union> live" if "t \<in> set (ac_allocatedSlabs ac')" for t
      using that fs ac_okD(5) [OF ok, of t] by (auto simp: ac')
    show "length st' = getAllocsPerSlab ac" if "ac_slabReleaseAllocMap ac' t = Some st'" for t st'
      using that ac_okD(6) [OF ok, of t st'] by (auto simp: ac' erase_release_def split: if_splits)
  qed (rule dist)+
qed

end
