(* ===== verification/SlabRelease.thy ===== *)
theory SlabRelease
  imports AllocationClass
begin

text \<open>
  Slab release under concurrency (\<open>AllocationClass.cpp\<close>). The class lock is released and taken
  again several times while a slab is being released, so other threads allocate, free and add
  slabs in between. The machine below has one step per section under the lock: the operations of
  the clients, the sections of the one thread that may be inside \<open>startSlabRelease\<close> (the mutex
  \<open>startSlabReleaseLock_\<close> admits one), the completion or abort of a release that has been
  started, and changes the rest of the system makes to the slab allocator. Ghost components record
  which allocations the clients hold and which slabs an aborted release has lost. The invariant is
  proved for every interleaving.
\<close>

section \<open>The machine\<close>

text \<open>Where the thread inside \<open>startSlabRelease\<close> stands.\<close>

datatype releasing =
    NoRelease
  | Selected addr
  | Pruned addr prune
  | Looped addr
  | Collected addr "addr list"
  | Undone addr

record machine =
  m_acs :: acs
  m_live :: "addr set"
  m_orphans :: "addr set"
  m_thread :: releasing

definition held :: "releasing \<Rightarrow> FreeList" where
  "held th = (case th of Pruned s pr \<Rightarrow> pr_inSlab pr @ pr_notInSlab pr @ pr_freeAllocs pr | _ \<Rightarrow> [])"

definition thread_slab :: "releasing \<Rightarrow> addr option" where
  "thread_slab th = (case th of NoRelease \<Rightarrow> None | Selected s \<Rightarrow> Some s | Pruned s pr \<Rightarrow> Some s | Looped s \<Rightarrow> Some s
     | Collected s active \<Rightarrow> Some s | Undone s \<Rightarrow> Some s)"

text \<open>The slab whose allocations may still be on a free list although it is being released.\<close>

definition unsettled :: "releasing \<Rightarrow> addr option" where
  "unsettled th = (case th of Selected s \<Rightarrow> Some s | Pruned s pr \<Rightarrow> Some s | Undone s \<Rightarrow> Some s | _ \<Rightarrow> None)"

definition class_slabs :: "AllocationClass \<Rightarrow> addr set \<Rightarrow> addr set" where
  "class_slabs ac orphans = owned_slabs ac orphans \<union> set (ac_freeSlabs ac)"

text \<open>A slab the pool may add: it belongs to the pool and to no class.\<close>

definition fresh_slab :: "addr \<Rightarrow> acs \<Rightarrow> addr set \<Rightarrow> bool" where
  "fresh_slab s = (\<lambda>(ac, sa) orphans. s \<in> carved sa \<and> s \<notin> class_slabs ac orphans \<and>
     poolId (header_of sa s) = ac_poolId ac \<and> \<not> isMarkedForRelease (header_of sa s))"

text \<open>Other classes and pools change only headers of slabs that are not of this class.\<close>

definition claims :: "AllocationClass \<Rightarrow> SlabHeader \<Rightarrow> bool" where
  "claims ac h \<longleftrightarrow> classId h = ac_classId ac \<and> poolId h = ac_poolId ac"

definition elsewhere :: "acs \<Rightarrow> addr set \<Rightarrow> SlabAllocator \<Rightarrow> bool" where
  "elsewhere = (\<lambda>(ac, sa) orphans sa'. sa_geometry sa' \<and> carved sa \<subseteq> carved sa' \<and>
     (\<forall>s \<in> class_slabs ac orphans. header_of sa' s = header_of sa s) \<and>
     (\<forall>s \<in> carved sa'. claims ac (header_of sa' s) \<longrightarrow> s \<in> class_slabs ac orphans))"

definition hint_ok :: "(nat \<Rightarrow> nat) \<Rightarrow> ptr \<Rightarrow> addr set \<Rightarrow> bool" where
  "hint_ok rnd hint orphans \<longleftrightarrow> (case hint of None \<Rightarrow> \<forall>n > 0. rnd n < n | Some p \<Rightarrow> getSlabForMemory p \<notin> orphans)"

definition after_select :: "exn + start_outcome \<Rightarrow> releasing" where
  "after_select r = (case r of Inr (Pruning s) \<Rightarrow> Selected s | _ \<Rightarrow> NoRelease)"

definition after_put :: "SlabAllocator \<Rightarrow> addr \<Rightarrow> prune \<Rightarrow> prune \<Rightarrow> releasing" where
  "after_put sa s pr pr1 = (if pr_freeAllocs pr = [] then Looped s
     else Pruned s (partitionFreeAllocs sa s kFreeAllocsPruneLimit (pr1\<lparr>pr_freeAllocs := pr_freeAllocs pr\<rparr>)))"

inductive step :: "machine \<Rightarrow> machine \<Rightarrow> bool" where
  allocates: "allocate (m_acs m) = (p, s) \<Longrightarrow> step m (m\<lparr>m_acs := s, m_live := set_option p \<union> m_live m\<rparr>)"
| frees: "x \<in> m_live m \<Longrightarrow> freeAlloc x (m_acs m) = (r, s) \<Longrightarrow> step m (m\<lparr>m_acs := s, m_live := m_live m - {x}\<rparr>)"
| adds: "fresh_slab slab (m_acs m) (m_orphans m) \<Longrightarrow> step m (m\<lparr>m_acs := addSlab slab (m_acs m)\<rparr>)"
| adds_allocates: "fresh_slab slab (m_acs m) (m_orphans m) \<Longrightarrow> addSlabAndAllocate slab (m_acs m) = (p, s) \<Longrightarrow>
    step m (m\<lparr>m_acs := s, m_live := set_option p \<union> m_live m\<rparr>)"
| others: "elsewhere (m_acs m) (m_orphans m) sa \<Longrightarrow> step m (m\<lparr>m_acs := (fst (m_acs m), sa)\<rparr>)"
| selects: "m_thread m = NoRelease \<Longrightarrow> hint_ok rnd hint (m_orphans m) \<Longrightarrow>
    startSlabRelease_select rnd zero mode hint (m_acs m) = (r, s) \<Longrightarrow>
    step m (m\<lparr>m_acs := s, m_thread := after_select r\<rparr>)"
| begins: "m_thread m = Selected slab \<Longrightarrow> prune_begin slab (m_acs m) = (pr, s) \<Longrightarrow>
    step m (m\<lparr>m_acs := s, m_thread := Pruned slab pr\<rparr>)"
| puts: "m_thread m = Pruned slab pr \<Longrightarrow> prune_put slab pr (m_acs m) = (Inr pr1, s) \<Longrightarrow>
    step m (m\<lparr>m_acs := s, m_thread := after_put (snd s) slab pr pr1\<rparr>)"
| undoes: "m_thread m = Pruned slab pr \<Longrightarrow>
    step m (m\<lparr>m_acs := prune_undo pr (m_acs m), m_thread := Undone slab\<rparr>)"
| collects: "m_thread m = Looped slab \<Longrightarrow> prune_collect slab (m_acs m) = Inr active \<Longrightarrow>
    step m (m\<lparr>m_thread := Collected slab active\<rparr>)"
| finishes: "m_thread m = Collected slab active \<Longrightarrow>
    startSlabRelease_finish zero mode slab False active (m_acs m) = (r, s) \<Longrightarrow>
    step m (m\<lparr>m_acs := s, m_thread := NoRelease\<rparr>)"
| gives_up: "m_thread m = Undone slab \<Longrightarrow>
    startSlabRelease_finish zero mode slab True [] (m_acs m) = (r, s) \<Longrightarrow>
    step m (m\<lparr>m_acs := s, m_orphans := insert slab (m_orphans m), m_thread := NoRelease\<rparr>)"
| completes: "slab \<in> dom (ac_slabReleaseAllocMap (fst (m_acs m))) \<Longrightarrow> thread_slab (m_thread m) \<noteq> Some slab \<Longrightarrow>
    allFreed slab (m_acs m) = Inr True \<Longrightarrow> step m (m\<lparr>m_acs := completeSlabRelease_finish slab (m_acs m)\<rparr>)"
| aborts: "ctx_slab ctx \<in> dom (ac_slabReleaseAllocMap (fst (m_acs m))) \<Longrightarrow> thread_slab (m_thread m) \<noteq> Some (ctx_slab ctx) \<Longrightarrow>
    \<not> isReleased ctx \<Longrightarrow> abortSlabRelease ctx (m_acs m) = (r, s) \<Longrightarrow> step m (m\<lparr>m_acs := s\<rparr>)"

section \<open>The invariant\<close>

definition thread_ok :: "releasing \<Rightarrow> AllocationClass \<Rightarrow> addr set \<Rightarrow> bool" where
  "thread_ok th ac live \<longleftrightarrow>
     (\<forall>s. thread_slab th = Some s \<longrightarrow> s \<in> dom (ac_slabReleaseAllocMap ac)) \<and>
     (case th of
        Pruned s pr \<Rightarrow> (\<forall>x \<in> set (ac_freedAllocations ac) \<union> set (pr_notInSlab pr). getSlabForMemory x \<noteq> s) \<and>
          (\<forall>x \<in> set (pr_inSlab pr). getSlabForMemory x = s)
      | Collected s active \<Rightarrow> \<forall>x \<in> live. getSlabForMemory x = s \<longrightarrow> x \<in> set active
      | _ \<Rightarrow> True)"

definition rel_inv :: "acs \<Rightarrow> addr set \<Rightarrow> addr set \<Rightarrow> releasing \<Rightarrow> bool" where
  "rel_inv s live orphans th \<longleftrightarrow>
     ac_inv s (held th) live orphans \<and>
     (\<forall>t \<in> carved (snd s). claims (fst s) (header_of (snd s) t) \<longrightarrow> t \<in> class_slabs (fst s) orphans) \<and>
     (\<forall>x \<in> set (ac_freedAllocations (fst s) @ held th).
        getSlabForMemory x \<in> dom (ac_slabReleaseAllocMap (fst s)) \<longrightarrow> unsettled th = Some (getSlabForMemory x)) \<and>
     thread_ok th (fst s) live"

definition machine_inv :: "machine \<Rightarrow> bool" where
  "machine_inv m \<longleftrightarrow> rel_inv (m_acs m) (m_live m) (m_orphans m) (m_thread m)"

lemma rel_invD:
  assumes "rel_inv (ac, sa) live orphans th"
  shows "ac_inv (ac, sa) (held th) live orphans"
    "\<And>t. t \<in> carved sa \<Longrightarrow> claims ac (header_of sa t) \<Longrightarrow> t \<in> class_slabs ac orphans"
    "\<And>x. x \<in> set (ac_freedAllocations ac) \<union> set (held th) \<Longrightarrow> getSlabForMemory x \<in> dom (ac_slabReleaseAllocMap ac) \<Longrightarrow>
       unsettled th = Some (getSlabForMemory x)"
    "thread_ok th ac live" "ac_ok ac sa (ac_freedAllocations ac @ held th) live orphans" "ac_shape ac sa orphans"
  using assms ac_okD(1) [of ac sa "ac_freedAllocations ac @ held th" live orphans]
  by (auto simp: rel_inv_def ac_inv_def)

lemma rel_invI:
  assumes "ac_inv (ac, sa) (held th) live orphans"
    "\<And>t. t \<in> carved sa \<Longrightarrow> claims ac (header_of sa t) \<Longrightarrow> t \<in> class_slabs ac orphans"
    "\<And>x. x \<in> set (ac_freedAllocations ac) \<union> set (held th) \<Longrightarrow> getSlabForMemory x \<in> dom (ac_slabReleaseAllocMap ac) \<Longrightarrow>
       unsettled th = Some (getSlabForMemory x)"
    "thread_ok th ac live"
  shows "rel_inv (ac, sa) live orphans th"
  using assms by (simp add: rel_inv_def Ball_def)

section \<open>Clients\<close>

lemma allocateLocked_frame:
  assumes "allocateLocked ac = (p, ac')"
  shows "ac_slabReleaseAllocMap ac' = ac_slabReleaseAllocMap ac" "set (ac_freedAllocations ac') \<subseteq> set (ac_freedAllocations ac)"
    "class_slabs ac' orphans = class_slabs ac orphans" "claims ac' = claims ac"
proof -
  have *: "ac_slabReleaseAllocMap (setupCurrentSlabLocked ac) = ac_slabReleaseAllocMap ac"
    "ac_freedAllocations (setupCurrentSlabLocked ac) = ac_freedAllocations ac" "claims (setupCurrentSlabLocked ac) = claims ac"
    "ac_freeSlabs ac \<noteq> [] \<Longrightarrow> class_slabs (setupCurrentSlabLocked ac) orphans = class_slabs ac orphans"
    by (auto simp: setupCurrentSlabLocked_def Let_def class_slabs_def owned_slabs_def claims_def fun_eq_iff
        in_set_butlastD dest: in_set_butlastD)
       (metis append_butlast_last_id rotate1.simps(2) set_ConsD set_rotate1)
  show "ac_slabReleaseAllocMap ac' = ac_slabReleaseAllocMap ac" "set (ac_freedAllocations ac') \<subseteq> set (ac_freedAllocations ac)"
    "class_slabs ac' orphans = class_slabs ac orphans" "claims ac' = claims ac"
    using assms * by (auto simp: allocateLocked_def allocateFromCurrentSlabLocked_def claims_def class_slabs_def owned_slabs_def
        fun_eq_iff dest: list.set_sel(2) split: if_splits)
qed

lemma thread_okD:
  assumes "thread_ok th ac live"
  shows "thread_slab th = Some s \<Longrightarrow> s \<in> dom (ac_slabReleaseAllocMap ac)"
    and "th = Collected s active \<Longrightarrow> x \<in> live \<Longrightarrow> getSlabForMemory x = s \<Longrightarrow> x \<in> set active"
    and "th = Pruned s pr \<Longrightarrow> x \<in> set (ac_freedAllocations ac) \<union> set (pr_notInSlab pr) \<Longrightarrow> getSlabForMemory x \<noteq> s"
    and "th = Pruned s pr \<Longrightarrow> x \<in> set (pr_inSlab pr) \<Longrightarrow> getSlabForMemory x = s"
  using assms by (auto simp: thread_ok_def)

lemma thread_ok_mono:
  assumes "thread_ok th ac live"
    and "\<And>s. thread_slab th = Some s \<Longrightarrow> s \<in> dom (ac_slabReleaseAllocMap ac) \<Longrightarrow> s \<in> dom (ac_slabReleaseAllocMap ac')"
    and "\<And>x s pr. th = Pruned s pr \<Longrightarrow> x \<in> set (ac_freedAllocations ac') \<Longrightarrow> x \<in> set (ac_freedAllocations ac) \<or> getSlabForMemory x \<noteq> s"
    and "\<And>x s active. th = Collected s active \<Longrightarrow> x \<in> live' \<Longrightarrow> x \<in> live \<or> getSlabForMemory x \<noteq> s"
  shows "thread_ok th ac' live'"
  using assms unfolding thread_ok_def by (cases th) (simp_all, blast+)

lemma alloc_keeps:
  assumes inv: "rel_inv (ac, sa) live orphans th" and run: "allocateLocked ac = (p, ac')"
  shows "rel_inv (ac', sa) (set_option p \<union> live) orphans th"
proof (rule rel_invI)
  note I = rel_invD [OF inv] and Fr = allocateLocked_frame [OF run]
  note A = allocateLocked_ok [OF I(1) run]
  show "ac_inv (ac', sa) (held th) (set_option p \<union> live) orphans" using A by (cases p) auto
  show "t \<in> class_slabs ac' orphans" if "t \<in> carved sa" "claims ac' (header_of sa t)" for t
    using I(2) [OF that(1)] that(2) by (simp add: Fr)
  show "unsettled th = Some (getSlabForMemory x)"
    if "x \<in> set (ac_freedAllocations ac') \<union> set (held th)" "getSlabForMemory x \<in> dom (ac_slabReleaseAllocMap ac')" for x
    using I(3) [of x] that Fr(1,2) by auto
  show "thread_ok th ac' (set_option p \<union> live)"
  proof (rule thread_ok_mono [OF I(4)])
    fix x s active assume th: "th = Collected s active" and x: "x \<in> set_option p \<union> live"
    have s: "s \<in> dom (ac_slabReleaseAllocMap ac)" using thread_okD(1) [OF I(4)] th by (simp add: thread_slab_def)
    show "x \<in> live \<or> getSlabForMemory x \<noteq> s"
    proof (cases "x \<in> live")
      case False
      then have "p = Some x" using x by (cases p) auto
      then have "x \<in> set (ac_freedAllocations ac) \<or> getSlabForMemory x \<in> set (ac_allocatedSlabs ac) \<union> set (ac_freeSlabs ac)"
        using A by simp
      then show ?thesis
        using I(3) [of x] s th ac_shape_sets(3) [OF I(6)] by (auto simp: unsettled_def)
    qed simp
  qed (use Fr(1,2) in auto)
qed

lemma free_keeps:
  assumes inv: "rel_inv (ac, sa) live orphans th" and x: "x \<in> live" and run: "freeAlloc x (ac, sa) = (r, s)"
  shows "rel_inv s (live - {x}) orphans th \<and> r = Inr ()"
proof -
  note I = rel_invD [OF inv]
  obtain ac' where R: "r = Inr ()" "s = (ac', sa)" "ac_inv (ac', sa) (held th) (live - {x}) orphans"
    using freeAlloc_ok [OF I(1) x] run by auto
  from x have "x \<in> set (ac_freedAllocations ac @ held th) \<union> live" by simp
  from ac_ok_slab [OF I(5) this] obtain t where t: "getSlabForMemory x = t" "t \<in> owned_slabs ac orphans"
    "getSlabHeader_memory sa x = Some (slabIdx sa t)" by blast
  have mk: "isMarkedForRelease (sa_headers sa (slabIdx sa t)) \<longleftrightarrow> t \<in> dom (ac_slabReleaseAllocMap ac)"
    using ac_shapeD(9) [OF I(6) t(2)] by (simp add: class_header_def header_of_def)
  have "freeAlloc x (ac, sa) = (Inr (), (ac', sa))" using run R by simp
  then have Fr: "dom (ac_slabReleaseAllocMap ac') = dom (ac_slabReleaseAllocMap ac)" "class_slabs ac' orphans = class_slabs ac orphans"
    "claims ac' = claims ac"
    "ac_freedAllocations ac' = ac_freedAllocations ac \<or>
       ac_freedAllocations ac' = x # ac_freedAllocations ac \<and> t \<notin> dom (ac_slabReleaseAllocMap ac)"
    using mk t by (auto simp: freeAlloc_def Let_def class_slabs_def owned_slabs_def claims_def fun_eq_iff
        split: option.splits if_splits)
  have "rel_inv (ac', sa) (live - {x}) orphans th"
  proof (rule rel_invI)
    show "ac_inv (ac', sa) (held th) (live - {x}) orphans" by (rule R)
    show "u \<in> class_slabs ac' orphans" if "u \<in> carved sa" "claims ac' (header_of sa u)" for u
      using I(2) [OF that(1)] that(2) by (simp add: Fr(2,3))
    show "unsettled th = Some (getSlabForMemory y)"
      if "y \<in> set (ac_freedAllocations ac') \<union> set (held th)" "getSlabForMemory y \<in> dom (ac_slabReleaseAllocMap ac')" for y
      using I(3) [of y] that Fr(1,4) t(1) by auto
    show "thread_ok th ac' (live - {x})"
    proof (rule thread_ok_mono [OF I(4)])
      fix y s' pr assume "th = Pruned s' pr" and y: "y \<in> set (ac_freedAllocations ac')"
      then have "s' \<in> dom (ac_slabReleaseAllocMap ac)" using thread_okD(1) [OF I(4)] by (simp add: thread_slab_def)
      then show "y \<in> set (ac_freedAllocations ac) \<or> getSlabForMemory y \<noteq> s'" using y Fr(4) t(1) by auto
    qed (use Fr(1) in auto)
  qed
  then show ?thesis using R by simp
qed

lemma add_keeps:
  assumes inv: "rel_inv (ac, sa) live orphans th" and s: "fresh_slab slab (ac, sa) orphans"
  shows "rel_inv (addSlabLocked slab (ac, sa)) live orphans th"
proof -
  note I = rel_invD [OF inv]
  have s': "slab \<in> carved sa" "slab \<notin> owned_slabs ac orphans" "slab \<notin> set (ac_freeSlabs ac)"
    "poolId (header_of sa slab) = ac_poolId ac" "\<not> isMarkedForRelease (header_of sa slab)"
    using s by (auto simp: fresh_slab_def class_slabs_def)
  obtain ac' sa' where run: "addSlabLocked slab (ac, sa) = (ac', sa')" by force
  have Fr: "ac_slabReleaseAllocMap ac' = ac_slabReleaseAllocMap ac" "ac_freedAllocations ac' = ac_freedAllocations ac"
    "class_slabs ac' orphans = insert slab (class_slabs ac orphans)" "claims ac' = claims ac"
    and sa': "sa' = write_header slab (\<lambda>h. h\<lparr>classId := ac_classId ac, allocSize := ac_allocationSize ac\<rparr>) sa"
    using run by (auto simp: addSlabLocked_def class_slabs_def owned_slabs_def claims_def fun_eq_iff)
  note W = write_header_carved [OF ac_shapeD(1) [OF I(6)] s'(1),
      where f = "\<lambda>h. h\<lparr>classId := ac_classId ac, allocSize := ac_allocationSize ac\<rparr>", folded sa']
  have "rel_inv (ac', sa') live orphans th"
  proof (rule rel_invI)
    show "ac_inv (ac', sa') (held th) live orphans" using addSlabLocked_ok [OF I(1) s'] run by simp
    show "t \<in> class_slabs ac' orphans" if "t \<in> carved sa'" "claims ac' (header_of sa' t)" for t
      using I(2) [of t] W(4) [of t] that by (auto simp: Fr W(3) split: if_splits)
    show "thread_ok th ac' live" by (rule thread_ok_mono [OF I(4)]) (simp_all add: Fr)
  qed (use I(3) in \<open>simp_all add: Fr\<close>)
  then show ?thesis by (simp add: run)
qed

lemma others_keep:
  assumes inv: "rel_inv (ac, sa) live orphans th" and e: "elsewhere (ac, sa) orphans sa'"
  shows "rel_inv (ac, sa') live orphans th"
proof (rule rel_invI)
  note I = rel_invD [OF inv]
  have E: "sa_geometry sa'" "\<And>s. s \<in> carved sa \<Longrightarrow> s \<in> carved sa'"
    "\<And>s. s \<in> owned_slabs ac orphans \<union> set (ac_freeSlabs ac) \<Longrightarrow> header_of sa' s = header_of sa s"
    "\<And>s. s \<in> carved sa' \<Longrightarrow> claims ac (header_of sa' s) \<Longrightarrow> s \<in> class_slabs ac orphans"
    using e by (auto simp: elsewhere_def class_slabs_def)
  have "ac_shape ac sa' orphans"
    by (rule ac_shapeI) (use E ac_shapeD(2-8) [OF I(6)] ac_shape_sets [OF I(6)] in \<open>auto simp: E(3)\<close>)
  then show "ac_inv (ac, sa') (held th) live orphans"
    unfolding ac_inv_def fst_conv snd_conv by (rule ac_okI) (use ac_okD [OF I(5)] in auto)
qed (use rel_invD(3,4) [OF inv] e in \<open>auto simp: elsewhere_def\<close>)

section \<open>The sections of the releasing thread\<close>

lemma in_slab:
  assumes "ac_ok ac sa F live orphans" and "x \<in> set F \<union> live"
  shows "isMemoryInSlab sa x t \<longleftrightarrow> getSlabForMemory x = t"
proof -
  note sh = ac_okD(1) [OF assms(1)]
  from ac_ok_slab [OF assms] obtain s i where "x = alloc_at ac s i" "i < getAllocsPerSlab ac" "s \<in> carved sa"
    "getSlabForMemory x = s" by blast
  then show ?thesis using alloc_slab(4) [OF ac_shapeD(1) [OF sh] _ ac_shapeD(2) [OF sh]] by auto
qed

definition prune_lists :: "prune \<Rightarrow> FreeList" where
  "prune_lists pr = pr_inSlab pr @ pr_notInSlab pr @ pr_freeAllocs pr"

lemma partition_lists:
  assumes "\<And>x. x \<in> set (pr_freeAllocs pr) \<Longrightarrow> isMemoryInSlab sa x slab \<longleftrightarrow> getSlabForMemory x = slab"
    and "\<And>x. x \<in> set (pr_inSlab pr) \<Longrightarrow> getSlabForMemory x = slab"
    and "\<And>x. x \<in> set (pr_notInSlab pr) \<Longrightarrow> getSlabForMemory x \<noteq> slab"
  shows "mset (prune_lists (partitionFreeAllocs sa slab n pr)) = mset (prune_lists pr) \<and>
    (\<forall>x \<in> set (pr_inSlab (partitionFreeAllocs sa slab n pr)). getSlabForMemory x = slab) \<and>
    (\<forall>x \<in> set (pr_notInSlab (partitionFreeAllocs sa slab n pr)). getSlabForMemory x \<noteq> slab)"
  using assms
proof (induction n arbitrary: pr)
  case (Suc n)
  show ?case
  proof (cases "pr_freeAllocs pr")
    case Nil
    then show ?thesis using Suc.prems by simp
  next
    case (Cons a as)
    define pr' where "pr' = (if isMemoryInSlab sa a slab then pr\<lparr>pr_freeAllocs := as, pr_inSlab := a # pr_inSlab pr\<rparr>
      else pr\<lparr>pr_freeAllocs := as, pr_notInSlab := a # pr_notInSlab pr\<rparr>)"
    have eq: "partitionFreeAllocs sa slab (Suc n) pr = partitionFreeAllocs sa slab n pr'" by (simp add: Cons pr'_def)
    have m: "mset (prune_lists pr') = mset (prune_lists pr)" by (simp add: prune_lists_def Cons pr'_def)
    have sub: "\<And>x. x \<in> set (pr_freeAllocs pr') \<Longrightarrow> isMemoryInSlab sa x slab \<longleftrightarrow> getSlabForMemory x = slab"
      using Suc.prems(1) Cons by (auto simp: pr'_def split: if_splits)
    have cls: "\<And>x. x \<in> set (pr_inSlab pr') \<Longrightarrow> getSlabForMemory x = slab" "\<And>x. x \<in> set (pr_notInSlab pr') \<Longrightarrow> getSlabForMemory x \<noteq> slab"
      using Suc.prems Cons by (auto simp: pr'_def split: if_splits)
    show ?thesis unfolding eq m [symmetric] by (rule Suc.IH; erule sub cls)
  qed
qed simp

lemma begin_keeps:
  assumes inv: "rel_inv (ac, sa) live orphans (Selected slab)" and run: "prune_begin slab (ac, sa) = (pr, s)"
  shows "rel_inv s live orphans (Pruned slab pr)"
proof -
  note I = rel_invD [OF inv]
  let ?pr = "\<lparr>pr_freeAllocs = ac_freedAllocations ac, pr_inSlab = [], pr_notInSlab = []\<rparr>"
  define ac' where "ac' = ac\<lparr>ac_freedAllocations := []\<rparr>"
  have pr: "pr = partitionFreeAllocs sa slab kFreeAllocsPruneLimit ?pr" and s: "s = (ac', sa)"
    using run by (auto simp: prune_begin_def ac'_def)
  have P: "mset (prune_lists pr) = mset (ac_freedAllocations ac)" "\<forall>x \<in> set (pr_inSlab pr). getSlabForMemory x = slab"
    "\<forall>x \<in> set (pr_notInSlab pr). getSlabForMemory x \<noteq> slab"
    using partition_lists [of ?pr sa slab kFreeAllocsPruneLimit] in_slab [OF I(5)] unfolding pr
    by (auto simp: prune_lists_def held_def)
  have held: "held (Pruned slab pr) = prune_lists pr" by (simp add: held_def prune_lists_def)
  have "rel_inv (ac', sa) live orphans (Pruned slab pr)"
  proof (rule rel_invI)
    have "ac_ok ac sa (prune_lists pr) live orphans" by (rule ac_ok_perm [OF I(5)]) (simp add: P(1) held_def)
    then show "ac_inv (ac', sa) (held (Pruned slab pr)) live orphans" by (simp add: ac_inv_def held ac'_def)
    show "thread_ok (Pruned slab pr) ac' live"
      using P(2,3) thread_okD(1) [OF I(4), of slab] by (auto simp: thread_ok_def thread_slab_def ac'_def)
    show "unsettled (Pruned slab pr) = Some (getSlabForMemory x)"
      if "x \<in> set (ac_freedAllocations ac') \<union> set (held (Pruned slab pr))" "getSlabForMemory x \<in> dom (ac_slabReleaseAllocMap ac')" for x
      using that I(3) [of x] mset_eq_setD [OF P(1)] unfolding held by (auto simp: ac'_def unsettled_def)
  qed (use I(2) in \<open>auto simp: ac'_def claims_def class_slabs_def owned_slabs_def\<close>)
  then show ?thesis by (simp add: s)
qed

lemma mark_freed_cong: "ac_allocationSize ac = ac_allocationSize ac' \<Longrightarrow> mark_freed ac s xs st = mark_freed ac' s xs st"
  by (induction xs arbitrary: st) (simp_all add: getAllocIdx_def)

lemma mark_freed_ok:
  assumes "ac_ok ac sa (xs @ F) live orphans" and "ac_slabReleaseAllocMap ac s = Some st"
    and "\<And>x. x \<in> set xs \<Longrightarrow> getSlabForMemory x = s"
  shows "ac_ok (ac\<lparr>ac_slabReleaseAllocMap := (ac_slabReleaseAllocMap ac)(s \<mapsto> mark_freed ac s xs st)\<rparr>) sa F live orphans"
  using assms
proof (induction xs arbitrary: ac st)
  case Nil
  have "(ac_slabReleaseAllocMap ac)(s \<mapsto> st) = ac_slabReleaseAllocMap ac" using Nil(2) by auto
  then show ?case using Nil(1) by simp
next
  case (Cons x xs)
  from Cons.prems(1) have "x \<in> set ((x # xs) @ F) \<union> live" by simp
  from ac_ok_slab [OF Cons.prems(1) this] obtain t i where
    t: "x = alloc_at ac t i" "i < getAllocsPerSlab ac" "getAllocIdx ac t x = i" "getSlabForMemory x = t" by blast
  moreover have "getSlabForMemory x = s" by (rule Cons.prems(3)) simp
  ultimately have i: "x = alloc_at ac s i" "i < getAllocsPerSlab ac" "getAllocIdx ac s x = i" by simp_all
  let ?st = "st[i := True]" and ?ac = "ac\<lparr>ac_slabReleaseAllocMap := (ac_slabReleaseAllocMap ac)(s \<mapsto> st[i := True])\<rparr>"
  have "ac_ok ?ac sa (xs @ F) live orphans"
    by (rule ac_ok_mark [OF Cons.prems(1,2) i(2)]) (use ac_okD(2,3) [OF Cons.prems(1)] i(1) in auto)
  then have "ac_ok (?ac\<lparr>ac_slabReleaseAllocMap := (ac_slabReleaseAllocMap ?ac)(s \<mapsto> mark_freed ?ac s xs ?st)\<rparr>) sa F live orphans"
    by (rule Cons.IH) (use Cons.prems(3) in auto)
  moreover have "mark_freed ?ac s xs ?st = mark_freed ac s xs ?st" by (rule mark_freed_cong) simp
  moreover have "?ac\<lparr>ac_slabReleaseAllocMap := (ac_slabReleaseAllocMap ?ac)(s \<mapsto> y)\<rparr> =
      ac\<lparr>ac_slabReleaseAllocMap := (ac_slabReleaseAllocMap ac)(s \<mapsto> y)\<rparr>" for y by simp
  moreover have "mark_freed ac s (x # xs) st = mark_freed ac s xs ?st" by (simp add: i(3))
  ultimately show ?case by (simp only:)
qed

lemma put_keeps:
  assumes inv: "rel_inv (ac, sa) live orphans (Pruned slab pr)" and run: "prune_put slab pr (ac, sa) = (Inr pr1, s)"
  shows "rel_inv s live orphans (after_put (snd s) slab pr pr1)"
proof -
  note I = rel_invD [OF inv]
  define ac1 where "ac1 = ac\<lparr>ac_freedAllocations := pr_notInSlab pr @ ac_freedAllocations ac,
    ac_canAllocate := (pr_notInSlab pr \<noteq> [] \<or> ac_canAllocate ac)\<rparr>"
  obtain st where st: "ac_slabReleaseAllocMap ac slab = Some st"
    using thread_okD(1) [OF I(4), of slab] by (auto simp: thread_slab_def)
  define ac' where "ac' = ac1\<lparr>ac_slabReleaseAllocMap := (ac_slabReleaseAllocMap ac1)(slab \<mapsto> mark_freed ac1 slab (pr_inSlab pr) st)\<rparr>"
  have pr1: "pr1 = pr\<lparr>pr_inSlab := [], pr_notInSlab := []\<rparr>" and s: "s = (ac', sa)"
    using run st by (auto simp: prune_put_def Let_def ac'_def ac1_def split: if_splits)
  let ?F = "(pr_notInSlab pr @ ac_freedAllocations ac) @ pr_freeAllocs pr"
  have "ac_ok ac sa (pr_inSlab pr @ ?F) live orphans" by (rule ac_ok_perm [OF I(5)]) (simp add: held_def)
  then have "ac_ok ac1 sa (pr_inSlab pr @ ?F) live orphans" by (simp add: ac1_def)
  then have ok: "ac_ok ac' sa ?F live orphans"
    unfolding ac'_def by (rule mark_freed_ok) (use st thread_okD(4) [OF I(4)] in \<open>auto simp: ac1_def\<close>)
  have Fr: "dom (ac_slabReleaseAllocMap ac') = dom (ac_slabReleaseAllocMap ac)" "claims ac' = claims ac"
    "class_slabs ac' orphans = class_slabs ac orphans" "ac_freedAllocations ac' = pr_notInSlab pr @ ac_freedAllocations ac"
    using st by (auto simp: ac'_def ac1_def claims_def class_slabs_def owned_slabs_def fun_eq_iff)
  have set_F: "x \<in> set ?F \<Longrightarrow> x \<in> set (ac_freedAllocations ac) \<union> set (held (Pruned slab pr))" for x by (auto simp: held_def)
  define th where "th = after_put sa slab pr pr1"
  have P: "mset (held th) = mset (pr_freeAllocs pr)" "thread_ok th ac' live" "thread_slab th = Some slab"
    "pr_freeAllocs pr \<noteq> [] \<Longrightarrow> unsettled th = Some slab"
  proof -
    let ?pr = "pr\<lparr>pr_inSlab := [], pr_notInSlab := [], pr_freeAllocs := pr_freeAllocs pr\<rparr>"
    have "isMemoryInSlab sa x slab \<longleftrightarrow> getSlabForMemory x = slab" if "x \<in> set (pr_freeAllocs pr)" for x
      by (rule in_slab [OF ok]) (use that in auto)
    then have Q: "mset (prune_lists (partitionFreeAllocs sa slab kFreeAllocsPruneLimit ?pr)) = mset (prune_lists ?pr) \<and>
        (\<forall>x \<in> set (pr_inSlab (partitionFreeAllocs sa slab kFreeAllocsPruneLimit ?pr)). getSlabForMemory x = slab) \<and>
        (\<forall>x \<in> set (pr_notInSlab (partitionFreeAllocs sa slab kFreeAllocsPruneLimit ?pr)). getSlabForMemory x \<noteq> slab)"
      by (intro partition_lists) simp_all
    show "mset (held th) = mset (pr_freeAllocs pr)" "thread_slab th = Some slab"
      "pr_freeAllocs pr \<noteq> [] \<Longrightarrow> unsettled th = Some slab"
      using Q by (auto simp: th_def after_put_def pr1 held_def prune_lists_def thread_slab_def unsettled_def)
    show "thread_ok th ac' live"
      using Q st Fr(1) thread_okD(3) [OF I(4) refl]
      by (auto simp: th_def after_put_def pr1 thread_ok_def thread_slab_def Fr(4))
  qed
  have "rel_inv (ac', sa) live orphans th"
  proof (rule rel_invI [OF _ _ _ P(2)])
    show "ac_inv (ac', sa) (held th) live orphans"
      unfolding ac_inv_def fst_conv snd_conv by (rule ac_ok_perm [OF ok]) (simp add: Fr(4) P(1))
    show "t \<in> class_slabs ac' orphans" if "t \<in> carved sa" "claims ac' (header_of sa t)" for t
      using I(2) [OF that(1)] that(2) by (simp add: Fr(2,3))
    fix x assume x: "x \<in> set (ac_freedAllocations ac') \<union> set (held th)" "getSlabForMemory x \<in> dom (ac_slabReleaseAllocMap ac')"
    then have xF: "x \<in> set ?F" using mset_eq_setD [OF P(1)] by (auto simp: Fr(4))
    then have "getSlabForMemory x = slab" using I(3) [OF set_F [OF xF]] x(2) by (simp add: Fr(1) unsettled_def)
    moreover from this have "pr_freeAllocs pr \<noteq> []" using xF thread_okD(3) [OF I(4) refl, of x] by auto
    ultimately show "unsettled th = Some (getSlabForMemory x)" using P(4) by simp
  qed
  then show ?thesis by (simp add: s th_def)
qed

lemma undo_keeps:
  assumes inv: "rel_inv (ac, sa) live orphans (Pruned slab pr)"
  shows "rel_inv (prune_undo pr (ac, sa)) live orphans (Undone slab)"
proof -
  note I = rel_invD [OF inv]
  define ac' where "ac' = ac\<lparr>ac_freedAllocations := (pr_inSlab pr @ pr_notInSlab pr @ pr_freeAllocs pr) @ ac_freedAllocations ac\<rparr>"
  have "rel_inv (ac', sa) live orphans (Undone slab)"
  proof (rule rel_invI)
    have "ac_ok ac sa (ac_freedAllocations ac') live orphans"
      by (rule ac_ok_perm [OF I(5)]) (simp add: ac'_def held_def)
    then show "ac_inv (ac', sa) (held (Undone slab)) live orphans" by (simp add: ac_inv_def held_def) (simp add: ac'_def)
    show "thread_ok (Undone slab) ac' live"
      using thread_okD(1) [OF I(4), of slab] by (auto simp: thread_ok_def thread_slab_def ac'_def)
    show "unsettled (Undone slab) = Some (getSlabForMemory x)"
      if "x \<in> set (ac_freedAllocations ac') \<union> set (held (Undone slab))" "getSlabForMemory x \<in> dom (ac_slabReleaseAllocMap ac')" for x
      using that I(3) [of x] by (auto simp: ac'_def held_def unsettled_def)
  qed (use I(2) in \<open>auto simp: ac'_def claims_def class_slabs_def owned_slabs_def\<close>)
  then show ?thesis by (simp add: prune_undo_def ac'_def)
qed

text \<open>What is collected is exactly what the clients still hold of the slab.\<close>

lemma settled_bits:
  assumes inv: "rel_inv (ac, sa) live orphans th" and m: "ac_slabReleaseAllocMap ac slab = Some st"
    and un: "unsettled th \<noteq> Some slab"
  shows "length st = getAllocsPerSlab ac" and "i < getAllocsPerSlab ac \<Longrightarrow> st ! i \<longleftrightarrow> alloc_at ac slab i \<notin> live"
    and "x \<in> set (ac_freedAllocations ac @ held th) \<Longrightarrow> getSlabForMemory x \<noteq> slab"
    and "x \<in> live \<Longrightarrow> getSlabForMemory x = slab \<Longrightarrow> \<exists>i < getAllocsPerSlab ac. x = alloc_at ac slab i \<and> \<not> st ! i"
proof -
  note I = rel_invD [OF inv]
  have own: "slab \<in> owned_slabs ac orphans" using m by (auto simp: owned_slabs_def)
  show F: "getSlabForMemory x \<noteq> slab" if "x \<in> set (ac_freedAllocations ac @ held th)" for x
    using I(3) [of x] that m un by auto
  show "length st = getAllocsPerSlab ac" by (rule ac_okD(6) [OF I(5) m])
  show bit: "st ! i \<longleftrightarrow> alloc_at ac slab i \<notin> live" if "i < getAllocsPerSlab ac" for i
    using ac_okD(7) [OF I(5) m that] F [of "alloc_at ac slab i"] class_alloc_place [OF I(6) own that] by auto
  assume x: "x \<in> live" "getSlabForMemory x = slab"
  then have "x \<in> set (ac_freedAllocations ac @ held th) \<union> live" by simp
  from ac_ok_slab [OF I(5) this] obtain t i where "x = alloc_at ac t i" "i < getAllocsPerSlab ac" "getSlabForMemory x = t" by blast
  then show "\<exists>i < getAllocsPerSlab ac. x = alloc_at ac slab i \<and> \<not> st ! i" using bit x by auto
qed

lemma collect_live:
  assumes inv: "rel_inv (ac, sa) live orphans th" and m: "slab \<in> dom (ac_slabReleaseAllocMap ac)"
    and un: "unsettled th \<noteq> Some slab"
  shows "\<exists>active. prune_collect slab (ac, sa) = Inr active \<and> set active = {x \<in> live. getSlabForMemory x = slab} \<and> distinct active"
proof -
  note I = rel_invD [OF inv] and g = ac_shapeD(1,2) [OF rel_invD(6) [OF inv]]
  obtain st where st: "ac_slabReleaseAllocMap ac slab = Some st" using m by blast
  note B = settled_bits [OF inv st un]
  have own: "slab \<in> owned_slabs ac orphans" using m by (auto simp: owned_slabs_def)
  define active where "active = map (alloc_at ac slab) (filter (\<lambda>i. \<not> st ! i) [0..<length st])"
  have "prune_collect slab (ac, sa) = Inr active" by (simp add: prune_collect_def st active_def alloc_at_def)
  moreover have "set active = {x \<in> live. getSlabForMemory x = slab}"
  proof (intro equalityI subsetI)
    show "x \<in> {x \<in> live. getSlabForMemory x = slab}" if "x \<in> set active" for x
      using that B(1,2) class_alloc_place [OF I(6) own] by (auto simp: active_def)
    show "x \<in> set active" if "x \<in> {x \<in> live. getSlabForMemory x = slab}" for x
      using that B(4) [of x] by (auto simp: active_def B(1))
  qed
  moreover have "inj_on (alloc_at ac slab) {..<getAllocsPerSlab ac}"
    by (rule inj_onI) (use alloc_inj [OF g(1) ac_shapeD(7) [OF I(6) own] ac_shapeD(7) [OF I(6) own] g(2)] in simp)
  then have "distinct active"
    by (simp add: active_def distinct_map B(1)) (erule inj_on_subset, auto)
  ultimately show ?thesis by blast
qed

lemma unsettled_thread: "unsettled th = Some s \<Longrightarrow> thread_slab th = Some s"
  by (cases th) (simp_all add: unsettled_def thread_slab_def)

lemma rel_inv_releases [simp]: "rel_inv (ac\<lparr>ac_activeReleases := n\<rparr>, sa) live orphans th = rel_inv (ac, sa) live orphans th"
  by (cases th) (simp_all add: rel_inv_def ac_inv_def thread_ok_def class_slabs_def owned_slabs_def claims_def)

lemma erase_keeps:
  assumes inv: "rel_inv (ac, sa) live orphans th" and m: "slab \<in> dom (ac_slabReleaseAllocMap ac)"
    and un: "unsettled th \<noteq> Some slab" and none: "\<And>x. x \<in> live \<Longrightarrow> getSlabForMemory x \<noteq> slab"
    and th': "held th' = held th" "unsettled th' = unsettled th" "thread_ok th' (erase_release slab ac) live"
  shows "rel_inv (erase_release slab ac, release_header slab sa) live orphans th'"
proof (rule rel_invI [OF _ _ _ th'(3)])
  note I = rel_invD [OF inv]
  obtain st where st: "ac_slabReleaseAllocMap ac slab = Some st" using m by blast
  note B = settled_bits [OF inv st un]
  have own: "slab \<in> owned_slabs ac orphans" using m by (auto simp: owned_slabs_def)
  have nd: "slab \<notin> set (ac_allocatedSlabs ac)" "slab \<notin> orphans" "slab \<notin> set (ac_freeSlabs ac)"
    using m ac_shape_sets(3,4) [OF I(6)] by blast+
  have "ac_ok (erase_release slab ac) (release_header slab sa) (ac_freedAllocations ac @ held th) live orphans"
    unfolding release_header_def by (rule ac_ok_erase [OF I(5) st]) (use B(3) none in blast)
  then show "ac_inv (erase_release slab ac, release_header slab sa) (held th') live orphans"
    by (simp add: ac_inv_def th') (simp add: erase_release_def)
  define f :: "SlabHeader \<Rightarrow> SlabHeader" where "f = (\<lambda>h. setMarkedForRelease False (h\<lparr>classId := kInvalidClassId, allocSize := 0\<rparr>))"
  note W = write_header_carved [OF ac_shapeD(1) [OF I(6)] ac_shapeD(7) [OF I(6) own], where f = f]
  have cl: "claims (erase_release slab ac) = claims ac" "class_slabs (erase_release slab ac) orphans = class_slabs ac orphans - {slab}"
    using nd by (auto simp: erase_release_def claims_def class_slabs_def owned_slabs_def fun_eq_iff)
  show "t \<in> class_slabs (erase_release slab ac) orphans"
    if "t \<in> carved (release_header slab sa)" "claims (erase_release slab ac) (header_of (release_header slab sa) t)" for t
    using that I(2) [of t] W(3,4) ac_shape_sets(1) [OF I(6)]
    unfolding release_header_def f_def [symmetric] cl by (auto simp: claims_def f_def split: if_splits)
  show "unsettled th' = Some (getSlabForMemory x)"
    if "x \<in> set (ac_freedAllocations (erase_release slab ac)) \<union> set (held th')"
      "getSlabForMemory x \<in> dom (ac_slabReleaseAllocMap (erase_release slab ac))" for x
    using that I(3) [of x] by (auto simp: th' erase_release_def split: if_splits)
qed

lemma finish_keeps:
  assumes inv: "rel_inv (ac, sa) live orphans (Collected slab active)"
    and run: "startSlabRelease_finish zero mode slab False active (ac, sa) = (r, s)"
  shows "rel_inv s live orphans NoRelease"
proof -
  note I = rel_invD [OF inv]
  have m: "slab \<in> dom (ac_slabReleaseAllocMap ac)" using thread_okD(1) [OF I(4)] by (simp add: thread_slab_def)
  have th: "held NoRelease = held (Collected slab active)" "unsettled NoRelease = unsettled (Collected slab active)"
    "thread_ok NoRelease ac' live" for ac' by (simp_all add: held_def unsettled_def thread_ok_def thread_slab_def)
  show ?thesis
  proof (cases active)
    case Nil
    then have "s = (erase_release slab ac, release_header slab sa)" using run by (auto simp: startSlabRelease_finish_def Let_def)
    moreover have "rel_inv (erase_release slab ac, release_header slab sa) live orphans NoRelease"
      by (rule erase_keeps [OF inv m _ _ th]) (use thread_okD(2) [OF I(4) refl] Nil in \<open>auto simp: unsettled_def\<close>)
    ultimately show ?thesis by simp
  next
    case (Cons x xs)
    then have s: "s = (ac\<lparr>ac_activeReleases := ac_activeReleases ac + 1\<rparr>, sa)"
      using run by (auto simp: startSlabRelease_finish_def)
    have "rel_inv (ac, sa) live orphans NoRelease"
      by (rule rel_invI) (use I(1-3) th in simp_all)
    then show ?thesis by (simp add: s)
  qed
qed

lemma complete_keeps:
  assumes inv: "rel_inv (ac, sa) live orphans th" and m: "slab \<in> dom (ac_slabReleaseAllocMap ac)"
    and th: "thread_slab th \<noteq> Some slab" and all: "allFreed slab (ac, sa) = Inr True"
  shows "rel_inv (completeSlabRelease_finish slab (ac, sa)) live orphans th" and "\<And>x. x \<in> live \<Longrightarrow> getSlabForMemory x \<noteq> slab"
proof -
  note I = rel_invD [OF inv]
  obtain st where st: "ac_slabReleaseAllocMap ac slab = Some st" using m by blast
  have un: "unsettled th \<noteq> Some slab" using th unsettled_thread by blast
  note B = settled_bits [OF inv st un]
  have "\<forall>i < length st. st ! i" using all by (simp add: allFreed_def st list_all_length)
  then show none: "x \<in> live \<Longrightarrow> getSlabForMemory x \<noteq> slab" for x using B(1,4) by auto
  have "thread_ok th (erase_release slab ac) live"
    by (rule thread_ok_mono [OF I(4)]) (use th in \<open>auto simp: erase_release_def\<close>)
  from erase_keeps [OF inv m un none refl refl this]
  have "rel_inv (erase_release slab ac, release_header slab sa) live orphans th" .
  then show "rel_inv (completeSlabRelease_finish slab (ac, sa)) live orphans th" by (simp add: completeSlabRelease_finish_def)
qed

lemma give_up_keeps:
  assumes inv: "rel_inv (ac, sa) live orphans (Undone slab)"
    and run: "startSlabRelease_finish zero mode slab True [] (ac, sa) = (r, s)"
  shows "rel_inv s live (insert slab orphans) NoRelease"
proof -
  note I = rel_invD [OF inv]
  have m: "slab \<in> dom (ac_slabReleaseAllocMap ac)" using thread_okD(1) [OF I(4)] by (simp add: thread_slab_def)
  then obtain st where st: "ac_slabReleaseAllocMap ac slab = Some st" by blast
  have own: "slab \<in> owned_slabs ac orphans" using m by (auto simp: owned_slabs_def)
  let ?ac = "erase_release slab ac" and ?sa = "write_header slab (setMarkedForRelease False) sa"
  have s: "s = (?ac, ?sa)" using run by (simp add: startSlabRelease_finish_def)
  note W = write_header_carved [OF ac_shapeD(1) [OF I(6)] ac_shapeD(7) [OF I(6) own], where f = "setMarkedForRelease False"]
  have cl: "claims ?ac = claims ac" "class_slabs ?ac (insert slab orphans) = class_slabs ac orphans"
    using m by (auto simp: erase_release_def claims_def class_slabs_def owned_slabs_def fun_eq_iff)
  have "rel_inv (?ac, ?sa) live (insert slab orphans) NoRelease"
  proof (rule rel_invI)
    have "ac_ok ?ac ?sa (ac_freedAllocations ac @ held (Undone slab)) live (insert slab orphans)"
      by (rule ac_ok_erase [OF I(5) st]) simp
    then show "ac_inv (?ac, ?sa) (held NoRelease) live (insert slab orphans)"
      by (simp add: ac_inv_def held_def) (simp add: erase_release_def)
    show "t \<in> class_slabs ?ac (insert slab orphans)" if "t \<in> carved ?sa" "claims ?ac (header_of ?sa t)" for t
      using that I(2) [of t] W(3,4) unfolding cl by (auto simp: claims_def split: if_splits)
    show "unsettled NoRelease = Some (getSlabForMemory x)"
      if "x \<in> set (ac_freedAllocations ?ac) \<union> set (held NoRelease)" "getSlabForMemory x \<in> dom (ac_slabReleaseAllocMap ?ac)" for x
      using that I(3) [of x] by (auto simp: erase_release_def held_def unsettled_def split: if_splits)
  qed (simp add: thread_ok_def thread_slab_def)
  then show ?thesis by (simp add: s)
qed

lemma abort_keeps:
  assumes inv: "rel_inv (ac, sa) live orphans th" and m: "ctx_slab ctx \<in> dom (ac_slabReleaseAllocMap ac)"
    and th: "thread_slab th \<noteq> Some (ctx_slab ctx)" and run: "abortSlabRelease ctx (ac, sa) = (r, s)" and ctx: "\<not> isReleased ctx"
  shows "rel_inv s live orphans th"
proof -
  note I = rel_invD [OF inv]
  define slab where "slab = ctx_slab ctx"
  obtain st where st: "ac_slabReleaseAllocMap ac slab = Some st" using m by (auto simp: slab_def)
  define freed where "freed = map (\<lambda>i. memoryAtOffset slab (i * unat (ac_allocationSize ac))) (filter (\<lambda>i. st ! i) [0..<length st])"
  define ac2 where "ac2 = (erase_release slab ac)\<lparr>ac_allocatedSlabs := ac_allocatedSlabs ac @ [slab]\<rparr>"
  define ac3 where "ac3 = (erase_release slab (ac\<lparr>ac_freedAllocations := rev freed @ ac_freedAllocations ac,
    ac_canAllocate := (ac_canAllocate ac \<or> freed \<noteq> [])\<rparr>))\<lparr>ac_allocatedSlabs := ac_allocatedSlabs ac @ [slab]\<rparr>"
  define f :: "SlabHeader \<Rightarrow> SlabHeader" where
    "f = (\<lambda>h. setMarkedForRelease False (h\<lparr>classId := ac_classId ac, allocSize := ac_allocationSize ac\<rparr>))"
  define sa' where "sa' = write_header slab f sa"
  have s: "s = (ac3\<lparr>ac_activeReleases := ac_activeReleases ac - 1\<rparr>, sa')"
    using run ctx st
    by (auto simp: abortSlabRelease_def Let_def erase_release_def ac3_def sa'_def f_def slab_def freed_def)
  have own: "slab \<in> owned_slabs ac orphans" using st by (auto simp: owned_slabs_def)
  note W = write_header_carved [OF ac_shapeD(1) [OF I(6)] ac_shapeD(7) [OF I(6) own], where f = f, folded sa'_def]
  have len: "length st = getAllocsPerSlab ac" by (rule ac_okD(6) [OF I(5) st])
  have fr: "getSlabForMemory x = slab" if "x \<in> set freed" for x
    using that class_alloc_place [OF I(6) own] by (auto simp: freed_def len alloc_at_def)
  have cl: "claims ac3 = claims ac" "class_slabs ac3 orphans = class_slabs ac orphans"
    "dom (ac_slabReleaseAllocMap ac3) = dom (ac_slabReleaseAllocMap ac) - {slab}"
    using st by (auto simp: ac3_def erase_release_def claims_def class_slabs_def owned_slabs_def fun_eq_iff)
  have fl: "ac_freedAllocations ac3 = rev freed @ ac_freedAllocations ac" by (simp add: ac3_def erase_release_def)
  have "rel_inv (ac3, sa') live orphans th"
  proof (rule rel_invI)
    have "ac_ok ac2 sa' (rev freed @ (ac_freedAllocations ac @ held th)) live orphans"
      unfolding sa'_def by (rule ac_ok_unrelease [OF I(5) st freed_def ac2_def f_def])
    moreover have "ac_ok ac3 sa' F live orphans = ac_ok ac2 sa' F live orphans" for F
      by (rule ac_ok_same) (simp_all add: ac3_def ac2_def erase_release_def)
    ultimately show "ac_inv (ac3, sa') (held th) live orphans" unfolding ac_inv_def fst_conv snd_conv fl by simp
    show "t \<in> class_slabs ac3 orphans" if "t \<in> carved sa'" "claims ac3 (header_of sa' t)" for t
    proof (cases "t = slab")
      case True
      then show ?thesis using own unfolding cl by (simp add: class_slabs_def)
    next
      case False
      then show ?thesis using that I(2) [of t] W(3,4) by (simp add: cl)
    qed
    show "unsettled th = Some (getSlabForMemory x)"
      if "x \<in> set (ac_freedAllocations ac3) \<union> set (held th)" "getSlabForMemory x \<in> dom (ac_slabReleaseAllocMap ac3)" for x
      using that I(3) [of x] fr [of x] by (auto simp: cl(3) fl)
    show "thread_ok th ac3 live"
      by (rule thread_ok_mono [OF I(4)])
        (use th fr in \<open>auto simp: cl(3) fl slab_def thread_slab_def split: releasing.splits\<close>)
  qed
  then show ?thesis by (simp add: s)
qed

text \<open>
  The choice of a slab. With a hint that is not a slab lost by an aborted release, either the
  arguments are refused and nothing changes, or a free slab leaves at once, or an allocated slab
  enters the pruning phase; the internal \<open>runtime_error\<close>s do not occur.
\<close>

lemma release_choice:
  assumes sh: "ac_shape ac sa orphans" and h: "hint_ok rnd hint orphans"
    and own: "\<And>t. t \<in> carved sa \<Longrightarrow> claims ac (header_of sa t) \<Longrightarrow> t \<in> class_slabs ac orphans"
    and slab: "slab = (case hint of None \<Rightarrow> getSlabForReleaseLocked rnd ac | Some p \<Rightarrow> getSlabForMemory p)"
    and hd: "getSlabHeader_slab sa slab = Some i" "claims ac (sa_headers sa i)" "\<not> isMarkedForRelease (sa_headers sa i)"
  shows "slab \<in> set (ac_freeSlabs ac) \<or> slab \<in> set (ac_allocatedSlabs ac)" and "i = slabIdx sa slab" and "slab \<in> carved sa"
proof -
  have v: "isValidSlab sa slab" using hd(1) by (auto simp: getSlabHeader_slab_def split: if_splits)
  then show c: "slab \<in> carved sa" using valid_iff_carved [OF ac_shapeD(1) [OF sh]] by simp
  then show i: "i = slabIdx sa slab" using header_lookup [OF ac_shapeD(1) [OF sh]] hd(1) by simp
  have t: "slab \<in> class_slabs ac orphans" using own [OF c] hd(2) by (simp add: header_of_def i)
  have "slab \<notin> dom (ac_slabReleaseAllocMap ac)"
  proof
    assume d: "slab \<in> dom (ac_slabReleaseAllocMap ac)"
    then have "slab \<in> owned_slabs ac orphans" by (auto simp: owned_slabs_def)
    then show False using d hd(3) ac_shapeD(9) [OF sh] by (auto simp: class_header_def header_of_def i)
  qed
  moreover have "slab \<notin> orphans"
  proof (cases hint)
    case None
    have "slab \<noteq> 0" using slab_index(4) [OF ac_shapeD(1) [OF sh]] c by auto
    then have "slab \<in> set (ac_freeSlabs ac) \<union> set (ac_allocatedSlabs ac)"
      using None slab h by (auto simp: getSlabForReleaseLocked_def hint_ok_def split: if_splits)
    then show ?thesis using ac_shape_sets(4) [OF sh] by blast
  qed (use slab h in \<open>simp add: hint_ok_def\<close>)
  ultimately show "slab \<in> set (ac_freeSlabs ac) \<or> slab \<in> set (ac_allocatedSlabs ac)"
    using t by (auto simp: class_slabs_def owned_slabs_def)
qed

lemma drop_free_keeps:
  assumes inv: "rel_inv (ac, sa) live orphans NoRelease" and s: "slab \<in> set (ac_freeSlabs ac)"
    and f: "f = (\<lambda>h. h\<lparr>classId := kInvalidClassId, allocSize := 0\<rparr>)"
  shows "rel_inv (ac\<lparr>ac_freeSlabs := swap_remove slab (ac_freeSlabs ac)\<rparr>, write_header slab f sa) live orphans NoRelease"
proof (rule rel_invI)
  note I = rel_invD [OF inv]
  let ?ac = "ac\<lparr>ac_freeSlabs := swap_remove slab (ac_freeSlabs ac)\<rparr>"
  note W = write_header_carved [OF ac_shapeD(1) [OF I(6)] ac_shapeD(8) [OF I(6) s], where f = f]
  show "ac_inv (?ac, write_header slab f sa) (held NoRelease) live orphans"
    using ac_ok_drop_free [OF I(5) s] by (simp add: ac_inv_def)
  have cl: "claims ?ac = claims ac" "class_slabs ?ac orphans = class_slabs ac orphans - {slab}"
    using swap_remove_set(1) [OF s ac_shapeD(5) [OF I(6)]] ac_shape_free [OF I(6) s]
    by (auto simp: claims_def class_slabs_def owned_slabs_def fun_eq_iff)
  show "t \<in> class_slabs ?ac orphans" if "t \<in> carved (write_header slab f sa)" "claims ?ac (header_of (write_header slab f sa) t)" for t
    using that I(2) [of t] W(3,4) ac_shape_sets(1) [OF I(6)] unfolding cl by (auto simp: claims_def f split: if_splits)
qed (use rel_invD(3) [OF inv] in \<open>auto simp: thread_ok_def thread_slab_def\<close>)

lemma select_alloc_keeps:
  assumes inv: "rel_inv (ac, sa) live orphans NoRelease" and s: "slab \<in> set (ac_allocatedSlabs ac)"
    and ac1: "createSlabReleaseAllocMapLocked slab ac = Inr ac1"
    and ac': "ac' = uncarved_as_free slab (ac1\<lparr>ac_allocatedSlabs := swap_remove slab (ac_allocatedSlabs ac1)\<rparr>)"
  shows "rel_inv (ac', write_header slab (setMarkedForRelease True) sa) live orphans (Selected slab)"
proof (rule rel_invI)
  note I = rel_invD [OF inv]
  note S = ac_ok_select [OF I(5) s ac1 ac']
  have own: "slab \<in> owned_slabs ac orphans" using s by (simp add: owned_slabs_def)
  note W = write_header_carved [OF ac_shapeD(1) [OF I(6)] ac_shapeD(7) [OF I(6) own], where f = "setMarkedForRelease True"]
  show "ac_inv (ac', write_header slab (setMarkedForRelease True) sa) (held (Selected slab)) live orphans"
    using S(1) by (simp add: ac_inv_def S(3) held_def)
  have eq: "ac_freeSlabs ac' = ac_freeSlabs ac" "ac_classId ac' = ac_classId ac" "ac_poolId ac' = ac_poolId ac"
    "ac_allocatedSlabs ac' = swap_remove slab (ac_allocatedSlabs ac)"
    using ac1 by (auto simp: ac' uncarved_as_free_def createSlabReleaseAllocMapLocked_def split: if_splits)
  have cl: "claims ac' = claims ac" "class_slabs ac' orphans = class_slabs ac orphans"
    using s swap_remove_set(1) [OF s ac_shapeD(4) [OF I(6)]]
    by (auto simp: eq S(2) claims_def class_slabs_def owned_slabs_def fun_eq_iff)
  show "t \<in> class_slabs ac' orphans"
    if "t \<in> carved (write_header slab (setMarkedForRelease True) sa)"
      "claims ac' (header_of (write_header slab (setMarkedForRelease True) sa) t)" for t
    using that I(2) [of t] W(3,4) unfolding cl by (auto simp: claims_def split: if_splits)
  show "unsettled (Selected slab) = Some (getSlabForMemory x)"
    if "x \<in> set (ac_freedAllocations ac') \<union> set (held (Selected slab))" "getSlabForMemory x \<in> dom (ac_slabReleaseAllocMap ac')" for x
    using that I(3) [of x] by (auto simp: S(2,3) held_def unsettled_def)
  show "thread_ok (Selected slab) ac' live" by (simp add: thread_ok_def thread_slab_def S(2))
qed

lemma select_keeps:
  assumes inv: "rel_inv (ac, sa) live orphans NoRelease" and h: "hint_ok rnd hint orphans"
    and run: "startSlabRelease_select rnd zero mode hint (ac, sa) = (r, s)"
  shows "rel_inv s live orphans (after_select r)"
    and "case r of Inl e \<Rightarrow> e = invalid_argument \<and> s = (ac, sa)
      | Inr (Released ctx) \<Rightarrow> ctx_slab ctx \<in> set (ac_freeSlabs ac) \<and> isReleased ctx \<and> ctx_slab ctx \<notin> class_slabs (fst s) orphans
      | Inr (Pruning slab) \<Rightarrow> slab \<in> set (ac_allocatedSlabs ac)"
proof -
  note I = rel_invD [OF inv]
  define slab where "slab = (case hint of None \<Rightarrow> getSlabForReleaseLocked rnd ac | Some p \<Rightarrow> getSlabForMemory p)"
  note run' = run [unfolded startSlabRelease_select_def prod.case Let_def, folded slab_def]
  consider (bad) "r = Inl invalid_argument" "s = (ac, sa)"
    | (good) i where "slab \<noteq> 0" "getSlabHeader_slab sa slab = Some i" "claims ac (sa_headers sa i)" "\<not> isMarkedForRelease (sa_headers sa i)"
    using run' by (cases "slab = 0"; cases "getSlabHeader_slab sa slab") (auto simp: claims_def split: if_splits)
  then have "rel_inv s live orphans (after_select r) \<and> (case r of Inl e \<Rightarrow> e = invalid_argument \<and> s = (ac, sa)
      | Inr (Released ctx) \<Rightarrow> ctx_slab ctx \<in> set (ac_freeSlabs ac) \<and> isReleased ctx \<and> ctx_slab ctx \<notin> class_slabs (fst s) orphans
      | Inr (Pruning slab) \<Rightarrow> slab \<in> set (ac_allocatedSlabs ac))"
  proof cases
    case bad
    then show ?thesis using inv by (simp add: after_select_def)
  next
    case good
    note C = release_choice [OF I(6) h I(2) slab_def good(2-4)]
    have wr: "upd_header i f sa = write_header slab f sa" for f
      using write_header_carved(1) [OF ac_shapeD(1) [OF I(6)] C(3)] by (simp add: C(2))
    show ?thesis
    proof (cases "slab \<in> set (ac_freeSlabs ac)")
      case True
      let ?ctx = "SlabReleaseContext_mode zero slab (poolId (sa_headers sa i)) kInvalidClassId [] mode"
      have r: "r = Inr (Released ?ctx)"
        and s: "s = (ac\<lparr>ac_freeSlabs := swap_remove slab (ac_freeSlabs ac)\<rparr>,
             write_header slab (\<lambda>h. h\<lparr>classId := kInvalidClassId, allocSize := 0\<rparr>) sa)"
        using run' good True by (auto simp: Let_def claims_def wr)
      have "slab \<notin> class_slabs (fst s) orphans"
        using swap_remove_set(1) [OF True ac_shapeD(5) [OF I(6)]] ac_shape_free [OF I(6) True]
        by (simp add: s class_slabs_def owned_slabs_def)
      then show ?thesis using drop_free_keeps [OF inv True refl] True
        by (simp add: r s after_select_def SlabReleaseContext_mode_def isReleased_def)
    next
      case False
      then have a: "slab \<in> set (ac_allocatedSlabs ac)" using C(1) by simp
      then have "slab \<notin> dom (ac_slabReleaseAllocMap ac)" using ac_shape_sets(3) [OF I(6)] by blast
      define ac1 where "ac1 = ac\<lparr>ac_slabReleaseAllocMap := (ac_slabReleaseAllocMap ac)(slab \<mapsto> replicate (getAllocsPerSlab ac) False)\<rparr>"
      have ac1: "createSlabReleaseAllocMapLocked slab ac = Inr ac1" "ac_allocatedSlabs ac1 = ac_allocatedSlabs ac"
        using \<open>slab \<notin> dom (ac_slabReleaseAllocMap ac)\<close> by (auto simp: createSlabReleaseAllocMapLocked_def ac1_def)
      then have r: "r = Inr (Pruning slab)"
        and s: "s = (uncarved_as_free slab (ac1\<lparr>ac_allocatedSlabs := swap_remove slab (ac_allocatedSlabs ac1)\<rparr>),
             write_header slab (setMarkedForRelease True) sa)"
        using run' good False a by (auto simp: Let_def claims_def wr)
      show ?thesis using select_alloc_keeps [OF inv a ac1(1) refl] a by (simp add: r s after_select_def)
    qed
  qed
  then show "rel_inv s live orphans (after_select r)"
    "case r of Inl e \<Rightarrow> e = invalid_argument \<and> s = (ac, sa)
      | Inr (Released ctx) \<Rightarrow> ctx_slab ctx \<in> set (ac_freeSlabs ac) \<and> isReleased ctx \<and> ctx_slab ctx \<notin> class_slabs (fst s) orphans
      | Inr (Pruning slab) \<Rightarrow> slab \<in> set (ac_allocatedSlabs ac)" by blast+
qed

section \<open>Every interleaving keeps the invariant\<close>

lemma allocate_keeps:
  assumes "rel_inv s live orphans th" and "allocate s = (p, s')"
  shows "rel_inv s' (set_option p \<union> live) orphans th"
proof -
  obtain ac sa where s: "s = (ac, sa)" by force
  obtain q ac' where q: "allocateLocked ac = (q, ac')" by force
  show ?thesis using assms alloc_keeps [of ac sa live orphans th q ac'] q
    by (auto simp: s allocate_def split: if_splits)
qed

lemma addSlabAndAllocate_keeps:
  assumes "rel_inv s live orphans th" and "fresh_slab slab s orphans" and "addSlabAndAllocate slab s = (p, s')"
  shows "rel_inv s' (set_option p \<union> live) orphans th"
proof -
  obtain ac sa where s: "s = (ac, sa)" by force
  obtain ac1 sa1 where a: "addSlabLocked slab s = (ac1, sa1)" by force
  obtain q ac' where q: "allocateLocked ac1 = (q, ac')" by force
  have "rel_inv (ac1, sa1) live orphans th" using add_keeps [of ac sa live orphans th slab] assms(1,2) a by (simp add: s)
  from alloc_keeps [OF this q] show ?thesis using assms(3) a q by (simp add: addSlabAndAllocate_def)
qed

lemma collect_keeps:
  assumes inv: "rel_inv (ac, sa) live orphans (Looped slab)" and run: "prune_collect slab (ac, sa) = Inr active"
  shows "rel_inv (ac, sa) live orphans (Collected slab active)"
proof (rule rel_invI)
  note I = rel_invD [OF inv]
  have m: "slab \<in> dom (ac_slabReleaseAllocMap ac)" using thread_okD(1) [OF I(4)] by (simp add: thread_slab_def)
  show "thread_ok (Collected slab active) ac live"
    using collect_live [OF inv m] run m by (auto simp: thread_ok_def thread_slab_def unsettled_def)
qed (use rel_invD [OF inv] in \<open>auto simp: held_def unsettled_def\<close>)

lemma step_keeps: "step m m' \<Longrightarrow> machine_inv m \<Longrightarrow> machine_inv m'"
proof (induction rule: step.induct)
  case (allocates m p s)
  then show ?case using allocate_keeps by (simp add: machine_inv_def)
next
  case (frees x m r s)
  then show ?case using free_keeps [of "fst (m_acs m)" "snd (m_acs m)"] by (simp add: machine_inv_def)
next
  case (adds slab m)
  then show ?case using add_keeps [of "fst (m_acs m)" "snd (m_acs m)"] by (simp add: machine_inv_def addSlab_def)
next
  case (adds_allocates slab m p s)
  then show ?case using addSlabAndAllocate_keeps by (simp add: machine_inv_def)
next
  case (others m sa)
  then show ?case using others_keep [of "fst (m_acs m)" "snd (m_acs m)"] by (simp add: machine_inv_def)
next
  case (selects m rnd hint zero mode r s)
  then show ?case using select_keeps(1) [of "fst (m_acs m)" "snd (m_acs m)"] by (simp add: machine_inv_def)
next
  case (begins m slab pr s)
  then show ?case using begin_keeps [of "fst (m_acs m)" "snd (m_acs m)"] by (simp add: machine_inv_def)
next
  case (puts m slab pr pr1 s)
  then show ?case using put_keeps [of "fst (m_acs m)" "snd (m_acs m)"] by (simp add: machine_inv_def)
next
  case (undoes m slab pr)
  then show ?case using undo_keeps [of "fst (m_acs m)" "snd (m_acs m)"] by (simp add: machine_inv_def)
next
  case (collects m slab active)
  then show ?case using collect_keeps [of "fst (m_acs m)" "snd (m_acs m)"] by (simp add: machine_inv_def)
next
  case (finishes m slab active zero mode r s)
  then show ?case using finish_keeps [of "fst (m_acs m)" "snd (m_acs m)"] by (simp add: machine_inv_def)
next
  case (gives_up m slab zero mode r s)
  then show ?case using give_up_keeps [of "fst (m_acs m)" "snd (m_acs m)"] by (simp add: machine_inv_def)
next
  case (completes slab m)
  then show ?case using complete_keeps(1) [of "fst (m_acs m)" "snd (m_acs m)"] by (simp add: machine_inv_def)
next
  case (aborts ctx m r s)
  then show ?case using abort_keeps [of "fst (m_acs m)" "snd (m_acs m)"] by (simp add: machine_inv_def)
qed

text \<open>The machine starts from a class just constructed whose id no slab of the pool carries yet.\<close>

definition start_machine :: "AllocationClass \<Rightarrow> SlabAllocator \<Rightarrow> machine" where
  "start_machine ac sa = \<lparr>m_acs = (ac, sa), m_live = {}, m_orphans = {}, m_thread = NoRelease\<rparr>"

inductive reach :: "machine \<Rightarrow> bool" where
  start: "AllocationClass_new cid pid asize sa = Inr ac \<Longrightarrow> sa_geometry sa \<Longrightarrow>
    (\<forall>t \<in> carved sa. \<not> claims ac (header_of sa t)) \<Longrightarrow> reach (start_machine ac sa)"
| reach_step: "reach m \<Longrightarrow> step m m' \<Longrightarrow> reach m'"

lemma new_class:
  assumes "AllocationClass_new cid pid asize sa = Inr ac"
  shows "ac = \<lparr>ac_classId = cid, ac_poolId = pid, ac_allocationSize = asize, ac_currOffset = 0,
      ac_currSlab = 0, ac_allocatedSlabs = [], ac_freeSlabs = [], ac_freedAllocations = [],
      ac_canAllocate = True, ac_activeReleases = 0, ac_slabReleaseAllocMap = Map.empty\<rparr>"
    and "0 \<le> sint cid" "5 \<le> unat asize" "unat asize \<le> kSize"
  using assms by (auto simp: AllocationClass_new_def AllocationClass_checkState_def Let_def sizeof_FreeAlloc_def
      split: if_splits option.splits)

lemma start_inv:
  assumes new: "AllocationClass_new cid pid asize sa = Inr ac" and g: "sa_geometry sa"
    and cl: "\<forall>t \<in> carved sa. \<not> claims ac (header_of sa t)"
  shows "machine_inv (start_machine ac sa)"
proof -
  note N = new_class [OF new]
  have k: "cid \<noteq> kInvalidClassId" using N(2) by (auto simp: kInvalidClassId_def)
  have "ac_shape ac sa {}" by (rule ac_shapeI) (use g N k in \<open>auto simp: owned_slabs_def\<close>)
  then have "ac_ok ac sa [] {} {}" by (rule ac_okI) (auto simp: N(1) owned_slabs_def)
  then have "rel_inv (ac, sa) {} {} NoRelease"
    by (intro rel_invI) (use cl in \<open>auto simp: ac_inv_def held_def thread_ok_def thread_slab_def N(1)\<close>)
  then show ?thesis by (simp add: machine_inv_def start_machine_def)
qed

lemma reach_inv: "reach m \<Longrightarrow> machine_inv m"
  by (induction rule: reach.induct) (blast intro: start_inv step_keeps)+

section \<open>Properties of every interleaving\<close>

lemma class_allocs_apart:
  assumes sh: "ac_shape ac sa orphans" and x: "class_alloc (ac, sa) x" and y: "class_alloc (ac, sa) y" and ne: "x \<noteq> y"
  shows "x + unat (ac_allocationSize ac) \<le> y \<or> y + unat (ac_allocationSize ac) \<le> x"
proof -
  let ?a = "unat (ac_allocationSize ac)" and ?s = "getSlabForMemory x" and ?t = "getSlabForMemory y"
  let ?i = "getAllocIdx ac ?s x" and ?j = "getAllocIdx ac ?t y"
  have X: "x = ?s + ?i * ?a" "?i < getAllocsPerSlab ac" "?s \<in> carved sa"
    and Y: "y = ?t + ?j * ?a" "?j < getAllocsPerSlab ac" "?t \<in> carved sa"
    using x y by (simp_all add: class_alloc_def Let_def alloc_at_def memoryAtOffset_def)
  have fx: "?i * ?a + ?a \<le> kSize" and fy: "?j * ?a + ?a \<le> kSize"
    using alloc_fits [OF ac_shapeD(2) [OF sh]] X(2) Y(2) by blast+
  have dv: "kSize dvd ?s" "kSize dvd ?t" using X(3) Y(3) by (simp_all add: carved_def)
  consider "?s < ?t" | "?t < ?s" | "?s = ?t" by linarith
  then show ?thesis
  proof cases
    case 1
    then show ?thesis using next_multiple [OF dv 1] X(1) Y(1) fx by linarith
  next
    case 2
    then show ?thesis using next_multiple [OF dv(2,1) 2] X(1) Y(1) fy by linarith
  next
    case 3
    have "?i \<noteq> ?j" using ne X(1) Y(1) 3 by metis
    then consider "Suc ?i \<le> ?j" | "Suc ?j \<le> ?i" by linarith
    then show ?thesis using X(1) Y(1) 3 mult_le_mono1 [of "Suc ?i" ?j ?a] mult_le_mono1 [of "Suc ?j" ?i ?a] by cases simp_all
  qed
qed

lemma live_class_alloc:
  assumes "rel_inv (ac, sa) live orphans th" and "x \<in> set (ac_freedAllocations ac @ held th) \<union> live"
  shows "class_alloc (ac, sa) x" and "getSlabForMemory x \<in> owned_slabs ac orphans"
proof -
  note I = rel_invD [OF assms(1)]
  from ac_ok_slab [OF I(5) assms(2)] obtain s i where "s \<in> owned_slabs ac orphans" "x = alloc_at ac s i" "i < getAllocsPerSlab ac"
    "getSlabForMemory x = s" by blast
  then show "class_alloc (ac, sa) x" "getSlabForMemory x \<in> owned_slabs ac orphans" using class_allocI [OF I(6)] by simp_all
qed

text \<open>
  C2. In every state any interleaving of clients, releases and aborts can reach: the free lists,
  including those a pruning thread holds, have no duplicates and no allocation a client holds;
  every allocation a client holds is an aligned piece of a slab whose header names the class, no two
  of them overlap, and none lies in a free slab; freeing one of them succeeds; an allocation that
  is handed out is not held already; and when a release ends (nothing was collected, or all bits
  of its map are set), no client holds an allocation of the slab.
\<close>

theorem release_interleavings_safe:
  assumes "reach m"
  shows "(case m_acs m of (ac, sa) \<Rightarrow>
      distinct (ac_freedAllocations ac @ held (m_thread m)) \<and>
      m_live m \<inter> set (ac_freedAllocations ac @ held (m_thread m)) = {} \<and>
      (\<forall>x \<in> m_live m. class_alloc (ac, sa) x \<and> getSlabForMemory x \<notin> set (ac_freeSlabs ac) \<and>
         (\<exists>s. freeAlloc x (ac, sa) = (Inr (), s))) \<and>
      (\<forall>x \<in> m_live m. \<forall>y \<in> m_live m. x = y \<or> x + unat (ac_allocationSize ac) \<le> y \<or> y + unat (ac_allocationSize ac) \<le> x) \<and>
      (\<forall>x s. allocate (ac, sa) = (Some x, s) \<longrightarrow> x \<notin> m_live m \<and> class_alloc (ac, sa) x) \<and>
      (\<forall>slab. m_thread m = Collected slab [] \<or>
           slab \<in> dom (ac_slabReleaseAllocMap ac) \<and> thread_slab (m_thread m) \<noteq> Some slab \<and> allFreed slab (ac, sa) = Inr True
         \<longrightarrow> (\<forall>x \<in> m_live m. getSlabForMemory x \<noteq> slab)))"
proof -
  obtain ac sa where s: "m_acs m = (ac, sa)" by force
  have inv: "rel_inv (ac, sa) (m_live m) (m_orphans m) (m_thread m)" using reach_inv [OF assms] by (simp add: machine_inv_def s)
  note I = rel_invD [OF inv]
  have live: "class_alloc (ac, sa) x" "getSlabForMemory x \<notin> set (ac_freeSlabs ac)" "\<exists>s. freeAlloc x (ac, sa) = (Inr (), s)"
    if "x \<in> m_live m" for x
  proof -
    show "class_alloc (ac, sa) x" using live_class_alloc(1) [OF inv] that by simp
    have "getSlabForMemory x \<in> owned_slabs ac (m_orphans m)" using live_class_alloc(2) [OF inv] that by simp
    then show "getSlabForMemory x \<notin> set (ac_freeSlabs ac)" using ac_shape_free [OF I(6)] by blast
    show "\<exists>s. freeAlloc x (ac, sa) = (Inr (), s)" using freeAlloc_ok [OF I(1) that] by blast
  qed
  have alloc: "x \<notin> m_live m \<and> class_alloc (ac, sa) x" if run: "allocate (ac, sa) = (Some x, s)" for x s
  proof -
    obtain p ac' where a: "allocateLocked ac = (p, ac')" by force
    then have "p = Some x" using run by (auto simp: allocate_def split: if_splits)
    then show ?thesis using allocateLocked_ok [OF I(1) a] by simp
  qed
  have ended: "getSlabForMemory x \<noteq> slab" if x: "x \<in> m_live m" and
    e: "m_thread m = Collected slab [] \<or> slab \<in> dom (ac_slabReleaseAllocMap ac) \<and>
      thread_slab (m_thread m) \<noteq> Some slab \<and> allFreed slab (ac, sa) = Inr True" for slab x
    using e
  proof
    assume "m_thread m = Collected slab []"
    then show ?thesis using thread_okD(2) [OF I(4) _ x] by auto
  qed (use complete_keeps(2) [OF inv _ _ _ x] in blast)
  have apart: "x = y \<or> x + unat (ac_allocationSize ac) \<le> y \<or> y + unat (ac_allocationSize ac) \<le> x"
    if "x \<in> m_live m" "y \<in> m_live m" for x y
    using class_allocs_apart [OF I(6) live(1) live(1)] that by blast
  show ?thesis unfolding s prod.case
    by (intro conjI ballI allI impI ac_okD(2) [OF I(5)] ac_okD(3) [OF I(5)] live apart alloc [THEN conjunct1]
        alloc [THEN conjunct2] ended; assumption)
qed

text \<open>A run: a class of two megabyte allocations is given a slab and hands out its first half.\<close>

definition example_ac :: AllocationClass where
  "example_ac = \<lparr>ac_classId = 0, ac_poolId = 5, ac_allocationSize = 2097152, ac_currOffset = 0,
      ac_currSlab = 0, ac_allocatedSlabs = [], ac_freeSlabs = [], ac_freedAllocations = [],
      ac_canAllocate = True, ac_activeReleases = 0, ac_slabReleaseAllocMap = Map.empty\<rparr>"

definition example_m1 :: machine where
  "example_m1 = (start_machine example_ac example_sa1)\<lparr>m_acs := addSlab (2 * kSize) (example_ac, example_sa1)\<rparr>"

definition example_m2 :: machine where
  "example_m2 = example_m1\<lparr>m_acs := snd (allocate (m_acs example_m1)), m_live := {2 * kSize}\<rparr>"

lemma example_sa1_facts:
  "sa_geometry example_sa1" "carved example_sa1 = {2 * kSize}" "header_of example_sa1 (2 * kSize) = new_SlabHeader 5"
proof -
  have inv: "sa_inv example_sa {}" using sa_reachable_inv [OF example_reachable(1)] by simp
  note M = makeNewSlab_Some [OF inv example_sa_make]
  have lists: "sa_freeSlabs example_sa1 = [] \<and> sa_advisedSlabs example_sa1 = []"
    by (simp add: example_sa1_def makeNewSlab_def makeNewSlabImpl_def initializeHeader_def add_poolSize_def upd_header_def
        example_sa_def split: option.split)
  show "sa_geometry example_sa1" "header_of example_sa1 (2 * kSize) = new_SlabHeader 5"
    using M sa_invD(1) by auto
  have "sa_inv example_sa1 {2 * kSize}" using M by simp
  then show "carved example_sa1 = {2 * kSize}" using sa_invD(6) lists by fastforce
qed

lemma example_reach: "reach (start_machine example_ac example_sa1)" "reach example_m1" "reach example_m2"
proof -
  have "getSlabHeader_slab example_sa1 0 = None"
    using valid_iff_carved [OF example_sa1_facts(1)] by (simp add: getSlabHeader_slab_def example_sa1_facts(2))
  then have new: "AllocationClass_new 0 5 2097152 example_sa1 = Inr example_ac"
    by (simp add: AllocationClass_new_def AllocationClass_checkState_def example_ac_def sizeof_FreeAlloc_def
        kSize_def kNumSlabBits_def Let_def)
  show r0: "reach (start_machine example_ac example_sa1)"
    by (rule reach.start [OF new]) (simp_all add: example_sa1_facts claims_def example_ac_def new_SlabHeader_def kInvalidClassId_def)
  have "fresh_slab (2 * kSize) (m_acs (start_machine example_ac example_sa1)) (m_orphans (start_machine example_ac example_sa1))"
    by (simp add: fresh_slab_def start_machine_def example_sa1_facts class_slabs_def owned_slabs_def example_ac_def
        new_SlabHeader_def isMarkedForRelease_def SlabHeader_isFlagSet_def)
  from step.adds [OF this] have "step (start_machine example_ac example_sa1) example_m1"
    by (simp add: example_m1_def start_machine_def)
  then show r1: "reach example_m1" by (rule reach.reach_step [OF r0])
  have "allocate (m_acs example_m1) = (Some (2 * kSize), snd (allocate (m_acs example_m1)))"
    by (simp add: example_m1_def start_machine_def addSlab_def addSlabLocked_def allocate_def allocateLocked_def
        canAllocateFromCurrentSlabLocked_def setupCurrentSlabLocked_def allocateFromCurrentSlabLocked_def example_ac_def
        memoryAtOffset_def Let_def)
  from step.allocates [OF this] have "step example_m1 example_m2" by (simp add: example_m2_def example_m1_def start_machine_def)
  then show "reach example_m2" by (rule reach.reach_step [OF r1])
qed

theorem release_interleavings_safe_witness:
  "reach example_m2 \<and> m_live example_m2 = {2 * kSize} \<and>
   (\<exists>s. freeAlloc (2 * kSize) (m_acs example_m2) = (Inr (), s))"
proof -
  obtain ac sa where e: "m_acs example_m2 = (ac, sa)" by force
  have "2 * kSize \<in> m_live example_m2" by (simp add: example_m2_def)
  then have "\<exists>s. freeAlloc (2 * kSize) (ac, sa) = (Inr (), s)"
    using release_interleavings_safe [OF example_reach(3), unfolded e prod.case, THEN conjunct2, THEN conjunct2, THEN conjunct1]
    by blast
  then have "\<exists>s. freeAlloc (2 * kSize) (m_acs example_m2) = (Inr (), s)" by (simp only: e)
  moreover have "m_live example_m2 = {2 * kSize}" by (simp add: example_m2_def)
  ultimately show ?thesis using example_reach(3) by blast
qed

section \<open>The whole of a release\<close>

text \<open>What the other threads may do between the sections: anything that keeps the invariant.\<close>

definition keeps_inv :: "(nat \<Rightarrow> acs \<Rightarrow> acs) \<Rightarrow> addr set \<Rightarrow> bool" where
  "keeps_inv other orphans \<longleftrightarrow>
     (\<forall>i s live th. rel_inv s live orphans th \<longrightarrow> (\<exists>live'. rel_inv (other i s) live' orphans th))"

lemma keeps_invD: "keeps_inv other orphans \<Longrightarrow> rel_inv s live orphans th \<Longrightarrow> \<exists>live'. rel_inv (other i s) live' orphans th"
  unfolding keeps_inv_def by blast

lemma put_result:
  assumes "rel_inv s live orphans (Pruned slab pr)"
  shows "\<exists>s'. prune_put slab pr s = (Inr (pr\<lparr>pr_inSlab := [], pr_notInSlab := []\<rparr>), s') \<and>
     rel_inv s' live orphans (after_put (snd s') slab pr (pr\<lparr>pr_inSlab := [], pr_notInSlab := []\<rparr>))"
proof -
  obtain ac sa where s: "s = (ac, sa)" by force
  note I = rel_invD [OF assms [unfolded s]]
  obtain st where "ac_slabReleaseAllocMap ac slab = Some st"
    using thread_okD(1) [OF I(4), of slab] by (auto simp: thread_slab_def)
  then obtain s' where "prune_put slab pr s = (Inr (pr\<lparr>pr_inSlab := [], pr_notInSlab := []\<rparr>), s')"
    by (cases "pr_notInSlab pr = []") (auto simp: s prune_put_def Let_def)
  then show ?thesis using put_keeps [OF assms [unfolded s]] by (auto simp: s)
qed

lemma prune_loop_ok:
  assumes "keeps_inv other orphans" and "rel_inv s live orphans (Pruned slab pr)"
  shows "\<exists>b j pr' s' live'. prune_loop abort other slab i pr s = (Inr (b, j, pr'), s') \<and>
     rel_inv s' live' orphans (if b then Pruned slab pr' else Looped slab)"
  using assms
proof (induction abort other slab i pr s arbitrary: live rule: prune_loop.induct)
  case (1 abort other slab i pr s)
  show ?case
  proof (cases "abort i")
    case True
    then have "prune_loop abort other slab i pr s = (Inr (True, i, pr), s)" by (subst prune_loop.simps) simp
    then show ?thesis using "1.prems"(2) by (intro exI [of _ True] exI [of _ i] exI [of _ pr] exI [of _ s] exI [of _ live]) simp
  next
    case False
    obtain live1 where "rel_inv (other i s) live1 orphans (Pruned slab pr)" using keeps_invD [OF "1.prems"] by blast
    from put_result [OF this] obtain s1 where
      p: "prune_put slab pr (other i s) = (Inr (pr\<lparr>pr_inSlab := [], pr_notInSlab := []\<rparr>), s1)" and
      inv: "rel_inv s1 live1 orphans (after_put (snd s1) slab pr (pr\<lparr>pr_inSlab := [], pr_notInSlab := []\<rparr>))" by blast
    show ?thesis
    proof (cases "pr_freeAllocs pr = []")
      case True
      then have "prune_loop abort other slab i pr s = (Inr (False, i, pr\<lparr>pr_inSlab := [], pr_notInSlab := []\<rparr>), s1)"
        using False p by (subst prune_loop.simps) simp
      then show ?thesis using inv True
        by (intro exI [of _ False] exI [of _ i] exI [of _ "pr\<lparr>pr_inSlab := [], pr_notInSlab := []\<rparr>"] exI [of _ s1] exI [of _ live1])
          (simp add: after_put_def)
    next
      case nonempty: False
      let ?pr = "partitionFreeAllocs (snd s1) slab kFreeAllocsPruneLimit
        ((pr\<lparr>pr_inSlab := [], pr_notInSlab := []\<rparr>)\<lparr>pr_freeAllocs := pr_freeAllocs pr\<rparr>)"
      have "prune_loop abort other slab i pr s = prune_loop abort other slab (Suc i) ?pr s1"
        using False p nonempty by (subst prune_loop.simps) simp
      moreover have "rel_inv s1 live1 orphans (Pruned slab ?pr)" using inv nonempty by (simp add: after_put_def)
      ultimately show ?thesis using "1.IH" [OF False p [symmetric] refl nonempty "1.prems"(1)] by simp
    qed
  qed
qed

lemma pruneFreeAllocs_ok:
  assumes k: "keeps_inv other orphans" and inv: "rel_inv s live orphans (Selected slab)"
  shows "\<exists>b j active s' live'. pruneFreeAllocs abort other slab s = (Inr (b, j, active), s') \<and>
     rel_inv s' live' orphans (if b then Undone slab else Collected slab active)"
proof -
  obtain pr s1 where b: "prune_begin slab s = (pr, s1)" by (rule prod.exhaust)
  have "rel_inv s1 live orphans (Pruned slab pr)" using begin_keeps [of "fst s" "snd s"] inv b by simp
  from prune_loop_ok [OF k this] obtain a j pr' s2 live2 where
    l: "prune_loop abort other slab 1 pr s1 = (Inr (a, j, pr'), s2)" and
    inv2: "rel_inv s2 live2 orphans (if a then Pruned slab pr' else Looped slab)" by blast
  show ?thesis
  proof (cases a)
    case True
    then obtain live3 where "rel_inv (other j s2) live3 orphans (Pruned slab pr')" using keeps_invD [OF k] inv2 by fastforce
    then have "rel_inv (prune_undo pr' (other j s2)) live3 orphans (Undone slab)"
      using undo_keeps [of "fst (other j s2)" "snd (other j s2)"] by simp
    moreover have "pruneFreeAllocs abort other slab s = (Inr (True, Suc j, []), prune_undo pr' (other j s2))"
      using b l True by (simp add: pruneFreeAllocs_def)
    ultimately show ?thesis
      by (intro exI [of _ True] exI [of _ "Suc j"] exI [of _ "[]"] exI [of _ "prune_undo pr' (other j s2)"] exI [of _ live3]) simp
  next
    case False
    define s3 where "s3 = other (Suc j) s2"
    obtain live3 where inv3: "rel_inv s3 live3 orphans (Looped slab)" using keeps_invD [OF k] inv2 False s3_def by fastforce
    obtain ac sa where s3: "s3 = (ac, sa)" by force
    have "slab \<in> dom (ac_slabReleaseAllocMap ac)"
      using thread_okD(1) [OF rel_invD(4) [OF inv3 [unfolded s3]]] by (simp add: thread_slab_def)
    from collect_live [OF inv3 [unfolded s3] this] obtain active where c: "prune_collect slab s3 = Inr active"
      by (auto simp: unsettled_def s3)
    have "rel_inv s3 live3 orphans (Collected slab active)" using collect_keeps [OF inv3 [unfolded s3]] c by (simp add: s3)
    moreover have "pruneFreeAllocs abort other slab s = (Inr (False, Suc (Suc j), active), s3)"
      using b l False c by (simp add: pruneFreeAllocs_def s3_def)
    ultimately show ?thesis
      by (intro exI [of _ False] exI [of _ "Suc (Suc j)"] exI [of _ active] exI [of _ s3] exI [of _ live3]) simp
  qed
qed

definition release_outcome :: "acs \<Rightarrow> addr set \<Rightarrow> exn + SlabReleaseContext \<Rightarrow> acs \<Rightarrow> bool" where
  "release_outcome s orphans r s' \<longleftrightarrow> (case r of
     Inl e \<Rightarrow> e = invalid_argument \<and> s' = s \<or>
       e = SlabReleaseAborted \<and> (\<exists>slab \<in> set (ac_allocatedSlabs (fst s)). \<exists>live. rel_inv s' live (insert slab orphans) NoRelease)
   | Inr ctx \<Rightarrow> \<exists>live. rel_inv s' live orphans NoRelease \<and>
       (\<forall>x \<in> live. getSlabForMemory x = ctx_slab ctx \<longrightarrow> x \<in> set (ctx_activeAllocations ctx)) \<and>
       (if isReleased ctx then ctx_slab ctx \<notin> class_slabs (fst s') orphans
        else ctx_slab ctx \<in> dom (ac_slabReleaseAllocMap (fst s'))))"

lemma finish_result:
  assumes inv: "rel_inv s live orphans (Collected slab active)"
    and run: "startSlabRelease_finish zero mode slab False active s = (r, s')"
  shows "release_outcome s0 orphans r s'"
proof -
  obtain ac sa where s: "s = (ac, sa)" by force
  note I = rel_invD [OF inv [unfolded s]]
  have inv': "rel_inv s' live orphans NoRelease" by (rule finish_keeps [OF inv [unfolded s] run [unfolded s]])
  have m: "slab \<in> dom (ac_slabReleaseAllocMap ac)" using thread_okD(1) [OF I(4)] by (simp add: thread_slab_def)
  then have "slab \<notin> set (ac_allocatedSlabs ac)" "slab \<notin> orphans" "slab \<notin> set (ac_freeSlabs ac)"
    using ac_shape_sets(3,4) [OF I(6)] by blast+
  then have R: "\<exists>ctx. r = Inr ctx \<and> ctx_slab ctx = slab \<and> ctx_activeAllocations ctx = active \<and>
      (if active = [] then slab \<notin> class_slabs (fst s') orphans else slab \<in> dom (ac_slabReleaseAllocMap (fst s')))"
    using run m by (auto simp: s startSlabRelease_finish_def Let_def SlabReleaseContext_mode_def erase_release_def
        class_slabs_def owned_slabs_def split: if_splits)
  then obtain ctx where r: "r = Inr ctx" "ctx_slab ctx = slab" "ctx_activeAllocations ctx = active"
      "if active = [] then slab \<notin> class_slabs (fst s') orphans else slab \<in> dom (ac_slabReleaseAllocMap (fst s'))" by blast
  have "\<forall>x \<in> live. getSlabForMemory x = slab \<longrightarrow> x \<in> set active" using thread_okD(2) [OF I(4) refl] by blast
  then show ?thesis using inv' r unfolding release_outcome_def by (auto simp: isReleased_def intro!: exI [of _ live])
qed



section \<open>Running dry\<close>

definition available :: "AllocationClass \<Rightarrow> bool" where
  "available ac \<longleftrightarrow> ac_freedAllocations ac \<noteq> [] \<or> ac_freeSlabs ac \<noteq> [] \<or> canAllocateFromCurrentSlabLocked ac"

text \<open>No release has been aborted while pruning.\<close>

definition never_aborted :: "machine \<Rightarrow> bool" where
  "never_aborted m \<longleftrightarrow> m_orphans m = {} \<and> (\<forall>s. m_thread m \<noteq> Undone s)"

lemma allocateLocked_available:
  "allocateLocked ac = (p, ac') \<Longrightarrow> ac_canAllocate ac \<Longrightarrow> (available ac' \<longrightarrow> ac_canAllocate ac') \<and> (p = None \<longleftrightarrow> \<not> available ac)"
  by (auto simp: allocateLocked_def allocateFromCurrentSlabLocked_def setupCurrentSlabLocked_def available_def Let_def
      canAllocateFromCurrentSlabLocked_def split: if_splits)

lemma swap_remove_Nil: "swap_remove x [] = []"
  by (simp add: swap_remove_def)

lemma select_available:
  assumes run: "startSlabRelease_select rnd zero mode hint (ac, sa) = (r, s)"
  shows "available (fst s) \<longrightarrow> available ac" and "ac_canAllocate (fst s) = ac_canAllocate ac"
proof -
  define slab where "slab = (case hint of None \<Rightarrow> getSlabForReleaseLocked rnd ac | Some p \<Rightarrow> getSlabForMemory p)"
  note run' = run [unfolded startSlabRelease_select_def prod.case Let_def, folded slab_def]
  have u: "available (uncarved_as_free slab a) \<longrightarrow> available a" "ac_canAllocate (uncarved_as_free slab a) = ac_canAllocate a" for a
    by (auto simp: available_def uncarved_as_free_def canAllocateFromCurrentSlabLocked_def)
  have "(available (fst s) \<longrightarrow> available ac) \<and> ac_canAllocate (fst s) = ac_canAllocate ac"
    using run' u [of "ac\<lparr>ac_slabReleaseAllocMap := (ac_slabReleaseAllocMap ac)(slab \<mapsto> replicate (getAllocsPerSlab ac) False),
      ac_allocatedSlabs := swap_remove slab (ac_allocatedSlabs ac)\<rparr>"]
    by (auto simp: createSlabReleaseAllocMapLocked_def available_def canAllocateFromCurrentSlabLocked_def swap_remove_Nil
        split: if_splits option.splits sum.splits)
  then show "available (fst s) \<longrightarrow> available ac" "ac_canAllocate (fst s) = ac_canAllocate ac" by blast+
qed

text \<open>Each section of a client or of the releasing thread keeps the flag right; only undoing the pruning does not.\<close>

definition flag_ok :: "AllocationClass \<Rightarrow> bool" where
  "flag_ok ac \<longleftrightarrow> (available ac \<longrightarrow> ac_canAllocate ac)"

lemmas flag_defs = flag_ok_def available_def canAllocateFromCurrentSlabLocked_def

lemma flag_ok_map [simp]:
  "flag_ok (ac\<lparr>ac_slabReleaseAllocMap := m\<rparr>) = flag_ok ac" "flag_ok (ac\<lparr>ac_activeReleases := n\<rparr>) = flag_ok ac"
  "flag_ok (erase_release slab ac) = flag_ok ac"
  by (simp_all add: flag_defs erase_release_def)

lemma allocate_flag: "allocate (ac, sa) = (p, s) \<Longrightarrow> flag_ok ac \<Longrightarrow> flag_ok (fst s)"
  using allocateLocked_available [of ac "fst (allocateLocked ac)" "snd (allocateLocked ac)"]
  by (cases "allocateLocked ac") (auto simp: allocate_def flag_ok_def split: if_splits)

lemma add_allocate_flag: "addSlabAndAllocate slab (ac, sa) = (p, s) \<Longrightarrow> flag_ok (fst s)"
  using allocateLocked_available [of "fst (addSlabLocked slab (ac, sa))"]
  by (auto simp: addSlabAndAllocate_def addSlabLocked_def flag_ok_def split: prod.splits)

lemma free_flag: "freeAlloc x (ac, sa) = (r, s) \<Longrightarrow> flag_ok ac \<Longrightarrow> flag_ok (fst s)"
  by (auto simp: freeAlloc_def Let_def split: option.splits if_splits) (simp_all add: flag_defs)

lemma put_flag: "prune_put slab pr (ac, sa) = (r, s) \<Longrightarrow> flag_ok ac \<Longrightarrow> flag_ok (fst s)"
  by (auto simp: prune_put_def Let_def split: option.splits if_splits) (simp_all add: flag_defs)

lemma finish_flag: "startSlabRelease_finish zero mode slab False active (ac, sa) = (r, s) \<Longrightarrow> flag_ok ac \<Longrightarrow> flag_ok (fst s)"
  by (auto simp: startSlabRelease_finish_def Let_def split: if_splits)

lemma abort_flag: "abortSlabRelease ctx (ac, sa) = (r, s) \<Longrightarrow> flag_ok ac \<Longrightarrow> flag_ok (fst s)"
  by (auto simp: abortSlabRelease_def Let_def erase_release_def flag_defs split: if_splits)

lemma step_flag:
  "step m m' \<Longrightarrow> (never_aborted m \<longrightarrow> flag_ok (fst (m_acs m))) \<Longrightarrow> never_aborted m' \<longrightarrow> flag_ok (fst (m_acs m'))"
proof (induction rule: step.induct)
  case (allocates m p s)
  then show ?case using allocate_flag [of "fst (m_acs m)" "snd (m_acs m)"] by (simp add: never_aborted_def)
next
  case (adds_allocates slab m p s)
  then show ?case using add_allocate_flag [of slab "fst (m_acs m)" "snd (m_acs m)"] by simp
next
  case (frees x m r s)
  then show ?case using free_flag [of x "fst (m_acs m)" "snd (m_acs m)"] by (simp add: never_aborted_def)
next
  case (adds slab m)
  then show ?case by (cases "m_acs m") (simp add: addSlab_def addSlabLocked_def flag_ok_def)
next
  case (selects m rnd hint zero mode r s)
  then show ?case using select_available [of rnd zero mode hint "fst (m_acs m)" "snd (m_acs m)" r s]
    by (auto simp: never_aborted_def flag_ok_def)
next
  case (begins m slab pr s)
  then show ?case by (cases "m_acs m") (auto simp: prune_begin_def never_aborted_def flag_defs)
next
  case (puts m slab pr pr1 s)
  then show ?case using put_flag [of slab pr "fst (m_acs m)" "snd (m_acs m)"] by (simp add: never_aborted_def)
next
  case (finishes m slab active zero mode r s)
  then show ?case using finish_flag [of zero mode slab active "fst (m_acs m)" "snd (m_acs m)"] by (simp add: never_aborted_def)
next
  case (completes slab m)
  then show ?case by (cases "m_acs m") (simp add: completeSlabRelease_finish_def never_aborted_def)
next
  case (aborts ctx m r s)
  then show ?case using abort_flag [of ctx "fst (m_acs m)" "snd (m_acs m)"] by (simp add: never_aborted_def)
qed (simp_all add: never_aborted_def)

text \<open>
  C20. A class refuses an allocation only when it has none to give: in every reachable state in
  which no release has been aborted during pruning, a class with a freed allocation, a free slab or
  room in the slab being carved answers with an allocation. (The flag \<open>canAllocate_\<close>, read without
  looking at the lists, is never wrong.)
\<close>

theorem allocate_when_available:
  assumes "reach m" and "never_aborted m" and "available (fst (m_acs m))"
  shows "\<exists>x s. allocate (m_acs m) = (Some x, s)"
proof -
  obtain ac sa where e: "m_acs m = (ac, sa)" by force
  obtain q ac' where q: "allocateLocked ac = (q, ac')" by force
  from assms(1) have "never_aborted m \<longrightarrow> flag_ok (fst (m_acs m))"
  proof induction
    case (start cid pid asize sa ac)
    then show ?case using new_class(1) [OF start(1)] by (simp add: start_machine_def flag_ok_def)
  qed (rule step_flag)
  then have "ac_canAllocate ac" using assms(2,3) by (simp add: e flag_ok_def)
  then show ?thesis using allocateLocked_available [OF q] q assms(3) by (cases q) (auto simp: e allocate_def)
qed

theorem allocate_when_available_witness:
  "reach example_m1 \<and> available (fst (m_acs example_m1)) \<and> (\<exists>x s. allocate (m_acs example_m1) = (Some x, s))"
proof -
  have n: "never_aborted example_m1" by (simp add: never_aborted_def example_m1_def start_machine_def)
  have a: "available (fst (m_acs example_m1))"
    by (simp add: available_def example_m1_def start_machine_def addSlab_def addSlabLocked_def)
  show ?thesis using allocate_when_available [OF example_reach(2) n a] example_reach(2) a by blast
qed

text \<open>
  C36. Aborting a release can make a class refuse allocations it could serve. While the freed
  allocations are offline, an allocation finds the class empty and clears \<open>canAllocate_\<close>; undoing
  the pruning puts the allocations back but leaves the flag, so that afterwards the class has freed
  allocations and still answers every request with null, until something else is freed or added.
\<close>

theorem aborted_release_hides_free_allocations:
  assumes "m_thread m = Pruned slab pr" and "held (m_thread m) \<noteq> []"
    and "\<not> available (fst (m_acs m))" and "ac_canAllocate (fst (m_acs m))"
  shows "\<exists>m1 m2 m3. fst (allocate (m_acs m)) = None \<and> m_acs m1 = snd (allocate (m_acs m)) \<and> step m m1 \<and>
      step m1 m2 \<and> step m2 m3 \<and> m_thread m3 = NoRelease \<and>
      ac_freedAllocations (fst (m_acs m3)) \<noteq> [] \<and> fst (allocate (m_acs m3)) = None"
proof -
  obtain ac sa where e: "m_acs m = (ac, sa)" by force
  define ac1 where "ac1 = ac\<lparr>ac_canAllocate := False\<rparr>"
  have a: "allocate (ac, sa) = (None, (ac1, sa))"
    using assms(3,4) by (simp add: e allocate_def allocateLocked_def available_def ac1_def)
  define m1 where "m1 = m\<lparr>m_acs := (ac1, sa)\<rparr>"
  have s1: "step m m1" using step.allocates [of m None "(ac1, sa)"] a by (simp add: e m1_def)
  define m2 where "m2 = m1\<lparr>m_acs := prune_undo pr (ac1, sa), m_thread := Undone slab\<rparr>"
  have s2: "step m1 m2" using step.undoes [of m1 slab pr] assms(1) by (simp add: m1_def m2_def)
  define s3 where "s3 = snd (startSlabRelease_finish False kRebalance slab True [] (m_acs m2))"
  define m3 where "m3 = m2\<lparr>m_acs := s3, m_orphans := insert slab (m_orphans m2), m_thread := NoRelease\<rparr>"
  have "step m2 m3"
    using step.gives_up [of m2 slab False kRebalance "fst (startSlabRelease_finish False kRebalance slab True [] (m_acs m2))" s3]
    by (simp add: m3_def s3_def m2_def)
  moreover have "ac_freedAllocations (fst s3) \<noteq> []" "\<not> ac_canAllocate (fst s3)"
    using assms(1,2) by (auto simp: s3_def m2_def prune_undo_def startSlabRelease_finish_def erase_release_def ac1_def held_def)
  then have "ac_freedAllocations (fst (m_acs m3)) \<noteq> []" "fst (allocate (m_acs m3)) = None" "m_thread m3 = NoRelease"
    by (auto simp: m3_def allocate_def split: prod.splits)
  ultimately show ?thesis using s1 s2 a by (intro exI [of _ m1] exI [of _ m2] exI [of _ m3]) (simp add: e m1_def)
qed

text \<open>The run goes on: the second half is handed out, the first is freed, and the slab is to be released.\<close>

definition example_saC :: SlabAllocator where
  "example_saC = write_header (2 * kSize) (\<lambda>h. h\<lparr>classId := 0, allocSize := 2097152\<rparr>) example_sa1"

definition example_class :: "u32 \<Rightarrow> FreeList \<Rightarrow> AllocationClass" where
  "example_class off freed = example_ac\<lparr>ac_currOffset := off, ac_currSlab := 2 * kSize, ac_allocatedSlabs := [2 * kSize],
     ac_freedAllocations := freed\<rparr>"

lemma example_saC_facts:
  "sa_geometry example_saC" "carved example_saC = {2 * kSize}"
  "getSlabHeader_slab example_saC (2 * kSize) = Some (slabIdx example_saC (2 * kSize))"
  "getSlabHeader_memory example_saC (2 * kSize) = Some (slabIdx example_saC (2 * kSize))"
  "sa_headers example_saC (slabIdx example_saC (2 * kSize)) = \<lparr>poolId = 5, classId = 0, flags = 0, allocSize = 2097152\<rparr>"
  "getSlabForMemory (2 * kSize) = 2 * kSize"
proof -
  have c: "2 * kSize \<in> carved example_sa1" by (simp add: example_sa1_facts)
  note W = write_header_carved [OF example_sa1_facts(1) c, where f = "\<lambda>h. h\<lparr>classId := 0, allocSize := 2097152\<rparr>", folded example_saC_def]
  show g: "sa_geometry example_saC" by (rule W(2))
  show c2: "carved example_saC = {2 * kSize}" by (simp add: W(3) example_sa1_facts)
  show s: "getSlabForMemory (2 * kSize) = 2 * kSize" using slab_index_memory [OF g, of "2 * kSize" 0] by (simp add: c2)
  show h: "getSlabHeader_slab example_saC (2 * kSize) = Some (slabIdx example_saC (2 * kSize))" by (rule header_lookup [OF g]) (simp add: c2)
  then show "getSlabHeader_memory example_saC (2 * kSize) = Some (slabIdx example_saC (2 * kSize))"
    using slab_index(5) [OF g, of "2 * kSize"] by (simp add: getSlabHeader_memory_def getSlabHeader_slab_def s c2 split: if_splits)
  show "sa_headers example_saC (slabIdx example_saC (2 * kSize)) = \<lparr>poolId = 5, classId = 0, flags = 0, allocSize = 2097152\<rparr>"
    using W(4) [OF c] example_sa1_facts(3) by (simp add: header_of_def new_SlabHeader_def)
qed

definition example_m4 :: machine where
  "example_m4 = \<lparr>m_acs = (example_class 4194304 [2 * kSize], example_saC), m_live = {2 * kSize + 2097152}, m_orphans = {},
     m_thread = NoRelease\<rparr>"

lemma example_m4_reach: "reach example_m4"
proof -
  have m2: "example_m2 = \<lparr>m_acs = (example_class 2097152 [], example_saC), m_live = {2 * kSize}, m_orphans = {}, m_thread = NoRelease\<rparr>"
    by (simp add: example_m2_def example_m1_def start_machine_def addSlab_def addSlabLocked_def allocate_def allocateLocked_def
        canAllocateFromCurrentSlabLocked_def setupCurrentSlabLocked_def allocateFromCurrentSlabLocked_def example_class_def
        example_ac_def example_saC_def Let_def)
  have "allocate (m_acs example_m2) = (Some (2 * kSize + 2097152), (example_class 4194304 [], example_saC))"
    by (simp add: m2 allocate_def allocateLocked_def canAllocateFromCurrentSlabLocked_def allocateFromCurrentSlabLocked_def
        example_class_def example_ac_def memoryAtOffset_def kSize_def kNumSlabBits_def)
  from reach_step [OF example_reach(3) step.allocates [OF this]]
  have r3: "reach \<lparr>m_acs = (example_class 4194304 [], example_saC), m_live = {2 * kSize, 2 * kSize + 2097152}, m_orphans = {}, m_thread = NoRelease\<rparr>"
    by (simp add: m2)
  have "freeAlloc (2 * kSize) (example_class 4194304 [], example_saC) = (Inr (), (example_class 4194304 [2 * kSize], example_saC))"
    by (simp add: freeAlloc_def example_saC_facts example_class_def example_ac_def isMarkedForRelease_def SlabHeader_isFlagSet_def Let_def)
  from reach_step [OF r3 step.frees [of "2 * kSize"]] this show ?thesis by (simp add: example_m4_def)
qed

definition example_m5 :: machine where
  "example_m5 = example_m4\<lparr>m_acs := snd (startSlabRelease_select (\<lambda>_. 0) False kRebalance None (m_acs example_m4)),
     m_thread := Selected (2 * kSize)\<rparr>"
definition example_m6 :: machine where
  "example_m6 = example_m5\<lparr>m_acs := snd (prune_begin (2 * kSize) (m_acs example_m5)),
     m_thread := Pruned (2 * kSize) (fst (prune_begin (2 * kSize) (m_acs example_m5)))\<rparr>"

lemma example_m6_reach:
  "reach example_m6" "fst (m_acs example_m5) = (example_class 0 [2 * kSize])\<lparr>ac_currSlab := 0, ac_allocatedSlabs := [],
     ac_slabReleaseAllocMap := [2 * kSize \<mapsto> [False, False]]\<rparr>"
proof -
  have two: "replicate (getAllocsPerSlab (example_class off freed)) False = [False, False]" for off freed
  proof -
    have "getAllocsPerSlab (example_class off freed) = 2"
      by (simp add: getAllocsPerSlab_def example_class_def example_ac_def kSize_def kNumSlabBits_def)
    then show ?thesis by (simp add: numeral_2_eq_2)
  qed
  have fields: "ac_allocatedSlabs (example_class off freed) = [2 * kSize]" "ac_freeSlabs (example_class off freed) = []"
    "ac_classId (example_class off freed) = 0" "ac_poolId (example_class off freed) = 5"
    "ac_slabReleaseAllocMap (example_class off freed) = Map.empty" for off freed
    by (simp_all add: example_class_def example_ac_def)
  have sel: "startSlabRelease_select (\<lambda>_. 0) False kRebalance None (m_acs example_m4) =
     (Inr (Pruning (2 * kSize)), ((example_class 0 [2 * kSize])\<lparr>ac_currSlab := 0, ac_allocatedSlabs := [],
     ac_slabReleaseAllocMap := [2 * kSize \<mapsto> [False, False]]\<rparr>,
     upd_header (slabIdx example_saC (2 * kSize)) (setMarkedForRelease True) example_saC))"
    by (simp add: startSlabRelease_select_def example_m4_def getSlabForReleaseLocked_def example_saC_facts fields
        createSlabReleaseAllocMapLocked_def two Let_def isMarkedForRelease_def SlabHeader_isFlagSet_def)
      (simp add: example_class_def example_ac_def uncarved_as_free_def swap_remove_def)
  then show "fst (m_acs example_m5) = (example_class 0 [2 * kSize])\<lparr>ac_currSlab := 0, ac_allocatedSlabs := [],
     ac_slabReleaseAllocMap := [2 * kSize \<mapsto> [False, False]]\<rparr>" by (simp add: example_m5_def)
  have "reach (example_m4\<lparr>m_acs := snd (startSlabRelease_select (\<lambda>_. 0) False kRebalance None (m_acs example_m4)),
      m_thread := after_select (Inr (Pruning (2 * kSize)))\<rparr>)"
    by (rule reach_step [OF example_m4_reach], rule step.selects [where rnd = "\<lambda>_. 0" and hint = None and zero = False and mode = kRebalance])
      (simp_all add: sel hint_ok_def, simp add: example_m4_def)
  then have "reach example_m5" by (simp add: example_m5_def after_select_def)
  from reach_step [OF this step.begins [where slab = "2 * kSize"]] show "reach example_m6"
    by (simp add: example_m6_def) (simp add: example_m5_def)
qed

theorem aborted_release_hides_free_allocations_witness:
  "reach example_m6 \<and> (\<exists>m1 m2 m3. step example_m6 m1 \<and> step m1 m2 \<and> step m2 m3 \<and>
     ac_freedAllocations (fst (m_acs m3)) \<noteq> [] \<and> fst (allocate (m_acs m3)) = None)"
proof -
  let ?pr = "fst (prune_begin (2 * kSize) (m_acs example_m5))"
  obtain ac sa where e: "m_acs example_m5 = (ac, sa)" by force
  have ac: "ac = (example_class 0 [2 * kSize])\<lparr>ac_currSlab := 0, ac_allocatedSlabs := [],
     ac_slabReleaseAllocMap := [2 * kSize \<mapsto> [False, False]]\<rparr>" using example_m6_reach(2) by (simp add: e)
  have th: "m_thread example_m6 = Pruned (2 * kSize) ?pr" by (simp add: example_m6_def)
  obtain n where n: "kFreeAllocsPruneLimit = Suc (Suc n)"
    by (rule that [of 4094]) (simp add: kFreeAllocsPruneLimit_def)
  have "held (m_thread example_m6) \<noteq> []" by (simp add: th held_def e prune_begin_def ac example_class_def n)
  moreover have "\<not> available (fst (m_acs example_m6))" "ac_canAllocate (fst (m_acs example_m6))"
    by (simp_all add: example_m6_def e prune_begin_def ac example_class_def example_ac_def available_def canAllocateFromCurrentSlabLocked_def)
  ultimately show ?thesis using aborted_release_hides_free_allocations [OF th] example_m6_reach(1) by blast
qed

section \<open>Freeing, and the end of a release\<close>



text \<open>The steps of clients and of other components, while no release is being started.\<close>

inductive client :: "machine \<Rightarrow> machine \<Rightarrow> bool" where
  "allocate (m_acs m) = (p, s) \<Longrightarrow> client m (m\<lparr>m_acs := s, m_live := set_option p \<union> m_live m\<rparr>)"
| "x \<in> m_live m \<Longrightarrow> freeAlloc x (m_acs m) = (r, s) \<Longrightarrow> client m (m\<lparr>m_acs := s, m_live := m_live m - {x}\<rparr>)"
| "fresh_slab slab (m_acs m) (m_orphans m) \<Longrightarrow> client m (m\<lparr>m_acs := addSlab slab (m_acs m)\<rparr>)"
| "elsewhere (m_acs m) (m_orphans m) sa \<Longrightarrow> client m (m\<lparr>m_acs := (fst (m_acs m), sa)\<rparr>)"

lemma client_step: "client m m' \<Longrightarrow> step m m'"
  by (induction rule: client.induct) (blast intro: step.intros)+

definition drained :: "addr \<Rightarrow> machine \<Rightarrow> bool" where
  "drained slab m \<longleftrightarrow> (\<forall>x \<in> m_live m. getSlabForMemory x \<noteq> slab)"

definition pending :: "addr \<Rightarrow> machine \<Rightarrow> bool" where
  "pending slab m \<longleftrightarrow> machine_inv m \<and> m_thread m = NoRelease \<and> slab \<in> dom (ac_slabReleaseAllocMap (fst (m_acs m)))"

lemma pendingD: "pending slab m \<Longrightarrow> m_acs m = (ac, sa) \<Longrightarrow> rel_inv (ac, sa) (m_live m) (m_orphans m) NoRelease"
  by (auto simp: pending_def machine_inv_def)

lemma freeAlloc_dom: "freeAlloc x (ac, sa) = (r, s) \<Longrightarrow> dom (ac_slabReleaseAllocMap (fst s)) = dom (ac_slabReleaseAllocMap ac)"
  by (auto simp: freeAlloc_def Let_def split: option.splits if_splits)

lemma client_pending:
  assumes "client m m'" and p: "pending slab m"
  shows "pending slab m' \<and> m_orphans m' = m_orphans m \<and> (drained slab m \<longrightarrow> drained slab m')"
proof -
  have inv': "machine_inv m'" using step_keeps [OF client_step [OF assms(1)]] p by (simp add: pending_def)
  obtain ac sa where e: "m_acs m = (ac, sa)" by force
  have inv: "rel_inv (ac, sa) (m_live m) (m_orphans m) NoRelease" by (rule pendingD [OF p e])
  note I = rel_invD [OF inv]
  have d: "slab \<in> dom (ac_slabReleaseAllocMap ac)" using p by (simp add: pending_def e)
  from assms(1) show ?thesis
  proof cases
    case (1 q s)
    obtain q' ac' where a: "allocateLocked ac = (q', ac')" by force
    have s: "q = None \<and> s = (ac, sa) \<or> q = q' \<and> s = (ac', sa)"
      using 1(2) a by (auto simp: e allocate_def split: if_splits)
    have "getSlabForMemory x \<noteq> slab" if "q = Some x" for x
    proof -
      have "q' = Some x" using s that by auto
      then have "x \<in> set (ac_freedAllocations ac) \<or> getSlabForMemory x \<in> set (ac_allocatedSlabs ac) \<union> set (ac_freeSlabs ac)"
        using allocateLocked_ok [OF I(1) a] by simp
      then show ?thesis using I(3) [of x] d ac_shape_sets(3) [OF I(6)] by (auto simp: unsettled_def)
    qed
    moreover have "ac_slabReleaseAllocMap (fst s) = ac_slabReleaseAllocMap ac" using s allocateLocked_frame(1) [OF a] by auto
    ultimately show ?thesis using p inv' d 1(1) by (auto simp: pending_def drained_def)
  next
    case (2 x r s)
    then show ?thesis using p inv' d freeAlloc_dom [of x ac sa r s] by (auto simp: pending_def drained_def e)
  next
    case (3 slab')
    then show ?thesis using p inv' d by (auto simp: pending_def drained_def e addSlab_def addSlabLocked_def)
  next
    case (4 sa')
    then show ?thesis using p inv' d by (auto simp: pending_def drained_def e)
  qed
qed

lemma clients_pending:
  "client\<^sup>*\<^sup>* m m' \<Longrightarrow> pending slab m \<Longrightarrow> pending slab m' \<and> m_orphans m' = m_orphans m \<and> (drained slab m \<longrightarrow> drained slab m')"
  by (induction rule: rtranclp_induct) (use client_pending in auto)

lemma allFreed_drained:
  assumes "pending slab m"
  shows "allFreed slab (m_acs m) = Inr (drained slab m)"
proof -
  obtain ac sa where e: "m_acs m = (ac, sa)" by force
  have inv: "rel_inv (ac, sa) (m_live m) (m_orphans m) NoRelease" by (rule pendingD [OF assms e])
  obtain st where st: "ac_slabReleaseAllocMap ac slab = Some st" using assms by (auto simp: pending_def e)
  have un: "unsettled NoRelease \<noteq> Some slab" by (simp add: unsettled_def)
  note B = settled_bits [OF inv st un]
  have own: "slab \<in> owned_slabs ac (m_orphans m)" using st by (auto simp: owned_slabs_def)
  have "list_all id st \<longleftrightarrow> drained slab m"
  proof
    assume "list_all id st"
    then show "drained slab m" using B(1,4) by (auto simp: drained_def list_all_length)
  next
    assume "drained slab m"
    then show "list_all id st"
      using B(1,2) class_alloc_place [OF rel_invD(6) [OF inv] own] by (auto simp: drained_def list_all_length)
  qed
  then show ?thesis by (simp add: allFreed_def e st)
qed

lemma wait_returns:
  assumes run: "\<And>j. client\<^sup>*\<^sup>* (run j) (run (Suc j))" "\<And>j. other j (m_acs (run j)) = m_acs (run (Suc j))"
    and p: "pending slab (run i)" and n: "i \<le> n" "drained slab (run n)"
  shows "\<exists>k. waitUntilAllFreed other slab i (m_acs (run i)) = Some (Inr k, m_acs (run k)) \<and> pending slab (run k) \<and>
     drained slab (run k) \<and> m_orphans (run k) = m_orphans (run i)"
  using n(1) p
proof (induction rule: inc_induct)
  case base
  then show ?case using n(2) by (subst waitUntilAllFreed.simps) (auto simp: allFreed_drained)
next
  case (step j)
  show ?case
  proof (cases "drained slab (run j)")
    case True
    then show ?thesis using step.prems by (subst waitUntilAllFreed.simps) (auto simp: allFreed_drained)
  next
    case False
    have q: "pending slab (run (Suc j))" "m_orphans (run (Suc j)) = m_orphans (run j)"
      using clients_pending [OF run(1) step.prems] by blast+
    show ?thesis using step.IH [OF q(1)] False step.prems q(2)
      by (subst waitUntilAllFreed.simps) (simp add: allFreed_drained run(2))
  qed
qed

text \<open>
  C21. \<open>completeSlabRelease\<close> returns: if clients allocate, free and add slabs meanwhile and at some
  point none holds an allocation of the slab, the polling loop ends, and the slab has left the class.
\<close>

theorem completeSlabRelease_returns:
  assumes run: "\<And>j. client\<^sup>*\<^sup>* (run j) (run (Suc j))" "\<And>j. other j (m_acs (run j)) = m_acs (run (Suc j))"
    and p: "pending (ctx_slab ctx) (run 0)" and ctx: "\<not> isReleased ctx" and d: "drained (ctx_slab ctx) (run n)"
  shows "\<exists>s k. completeSlabRelease other ctx (m_acs (run 0)) = Some (Inr (), s) \<and>
     rel_inv s (m_live (run k)) (m_orphans (run 0)) NoRelease \<and> ctx_slab ctx \<notin> class_slabs (fst s) (m_orphans (run 0))"
proof -
  let ?slab = "ctx_slab ctx"
  obtain ac sa where e: "m_acs (run 0) = (ac, sa)" by force
  note I = rel_invD [OF pendingD [OF p e]]
  have own: "?slab \<in> owned_slabs ac (m_orphans (run 0))" and dm: "?slab \<in> dom (ac_slabReleaseAllocMap ac)"
    using p by (auto simp: pending_def owned_slabs_def e)
  have chk: "completeSlabRelease_check ?slab (m_acs (run 0)) = Inr ()"
    using header_lookup [OF ac_shapeD(1) [OF I(6)] ac_shapeD(7) [OF I(6) own]] ac_shapeD(9) [OF I(6) own] dm
    by (simp add: completeSlabRelease_check_def e class_header_def header_of_def)
  have p1: "pending ?slab (run 1)" "m_orphans (run 1) = m_orphans (run 0)"
    using clients_pending [OF run(1) [of 0] p] by auto
  have "\<exists>n'. 1 \<le> n' \<and> drained ?slab (run n')"
    using d clients_pending [OF run(1) [of 0] p] by (cases n) auto
  then obtain n' where "1 \<le> n'" "drained ?slab (run n')" by blast
  from wait_returns [where run = run and other = other and i = 1, OF run p1(1) this] obtain k where
    w: "waitUntilAllFreed other ?slab 1 (m_acs (run 1)) = Some (Inr k, m_acs (run k))" and
    k: "pending ?slab (run k)" "drained ?slab (run k)" "m_orphans (run k) = m_orphans (run 1)" by blast
  have K: "pending ?slab (run (Suc k))" "drained ?slab (run (Suc k))" "m_orphans (run (Suc k)) = m_orphans (run 0)"
    using clients_pending [OF run(1) [of k] k(1)] k(2,3) p1(2) by auto
  define s where "s = completeSlabRelease_finish ?slab (m_acs (run (Suc k)))"
  have "completeSlabRelease other ctx (m_acs (run 0)) = Some (Inr (), s)"
    using ctx chk w run(2) [of 0] run(2) [of k] by (simp add: completeSlabRelease_def s_def)
  moreover obtain ac' sa' where e': "m_acs (run (Suc k)) = (ac', sa')" by force
  note I' = pendingD [OF K(1) e']
  have dm': "?slab \<in> dom (ac_slabReleaseAllocMap ac')" using K(1) by (simp add: pending_def e')
  have "rel_inv s (m_live (run (Suc k))) (m_orphans (run 0)) NoRelease"
    using complete_keeps(1) [OF I' dm'] allFreed_drained [OF K(1)] K(2,3) by (simp add: s_def e' thread_slab_def)
  moreover have "?slab \<notin> class_slabs (fst s) (m_orphans (run 0))"
    using dm' ac_shape_sets(3,4) [OF rel_invD(6) [OF I']] K(3)
    by (auto simp: s_def e' completeSlabRelease_finish_def erase_release_def class_slabs_def owned_slabs_def)
  ultimately show ?thesis by blast
qed

lemma example_pending:
  "\<exists>m. pending (2 * kSize) m \<and> m_live m = {2 * kSize + 2097152}"
proof -
  let ?pr = "fst (prune_begin (2 * kSize) (m_acs example_m5))" and ?slab = "2 * kSize"
  have live: "m_live example_m6 = {2 * kSize + 2097152}" "m_orphans example_m6 = {}"
    by (simp_all add: example_m6_def example_m5_def example_m4_def)
  have th: "m_thread example_m6 = Pruned ?slab ?pr" by (simp add: example_m6_def)
  have "rel_inv (m_acs example_m6) (m_live example_m6) {} (Pruned ?slab ?pr)"
    using reach_inv [OF example_m6_reach(1)] by (simp add: machine_inv_def th live)
  from put_result [OF this] obtain s1 where
    i1: "rel_inv s1 (m_live example_m6) {} (after_put (snd s1) ?slab ?pr (?pr\<lparr>pr_inSlab := [], pr_notInSlab := []\<rparr>))" by blast
  obtain ac5 sa5 where e5: "m_acs example_m5 = (ac5, sa5)" by force
  have "ac_freedAllocations ac5 = [2 * kSize]" using example_m6_reach(2) by (simp add: e5 example_class_def)
  then have "length (pr_freeAllocs ?pr) = 0"
    by (simp add: e5 prune_begin_def partition_shrinks kFreeAllocsPruneLimit_def del: length_0_conv)
  then have i1: "rel_inv s1 (m_live example_m6) {} (Looped ?slab)" using i1 by (simp add: after_put_def)
  obtain ac sa where s1: "s1 = (ac, sa)" by force
  note J = rel_invD [OF i1 [unfolded s1]]
  have dm: "?slab \<in> dom (ac_slabReleaseAllocMap ac)" using thread_okD(1) [OF J(4)] by (simp add: thread_slab_def)
  have own: "?slab \<in> carved sa" using ac_shapeD(7) [OF J(6)] dm by (auto simp: owned_slabs_def)
  obtain active where c: "prune_collect ?slab (ac, sa) = Inr active" "set active = {x \<in> m_live example_m6. getSlabForMemory x = ?slab}"
    using collect_live [OF i1 [unfolded s1] dm] by (auto simp: unsettled_def)
  have "getSlabForMemory (2 * kSize + 2097152) = ?slab"
    using slab_index_memory [OF ac_shapeD(1) [OF J(6)] own, of 2097152] by (simp add: kSize_def kNumSlabBits_def)
  then have ne: "active \<noteq> []" using c(2) live by (metis (mono_tags, lifting) empty_iff empty_set insertI1 mem_Collect_eq)
  have i2: "rel_inv (ac, sa) (m_live example_m6) {} (Collected ?slab active)" by (rule collect_keeps [OF i1 [unfolded s1] c(1)])
  obtain r s' where f: "startSlabRelease_finish False kRebalance ?slab False active (ac, sa) = (r, s')" by (rule prod.exhaust)
  have "rel_inv s' (m_live example_m6) {} NoRelease" by (rule finish_keeps [OF i2 f])
  moreover have "?slab \<in> dom (ac_slabReleaseAllocMap (fst s'))" using f ne dm by (auto simp: startSlabRelease_finish_def)
  ultimately have "pending ?slab \<lparr>m_acs = s', m_live = m_live example_m6, m_orphans = {}, m_thread = NoRelease\<rparr>"
    by (simp add: pending_def machine_inv_def)
  then show ?thesis using live by (intro exI [of _ "\<lparr>m_acs = s', m_live = m_live example_m6, m_orphans = {}, m_thread = NoRelease\<rparr>"]) simp
qed

theorem completeSlabRelease_returns_witness:
  "\<exists>m m' other ctx s. pending (2 * kSize) m \<and> \<not> drained (2 * kSize) m \<and> client m m' \<and>
     completeSlabRelease other ctx (m_acs m) = Some (Inr (), s)"
proof -
  let ?slab = "2 * kSize" and ?x = "2 * kSize + 2097152"
  obtain m where m: "pending ?slab m" "m_live m = {?x}" using example_pending by blast
  obtain r s1 where f: "freeAlloc ?x (m_acs m) = (r, s1)" by (rule prod.exhaust)
  define m' where "m' = m\<lparr>m_acs := s1, m_live := {}\<rparr>"
  have c: "client m m'" using client.intros(2) [OF _ f] m(2) by (simp add: m'_def)
  define run where "run = (\<lambda>j::nat. if j = 0 then m else m')"
  define other where "other = (\<lambda>j::nat. \<lambda>s::acs. if j = 0 then s1 else s)"
  define ctx where "ctx = SlabReleaseContext_mode False ?slab 5 0 [?x] kRebalance"
  have run: "client\<^sup>*\<^sup>* (run j) (run (Suc j))" "other j (m_acs (run j)) = m_acs (run (Suc j))" for j
    using c by (auto simp: run_def other_def m'_def)
  have "\<exists>s k. completeSlabRelease other ctx (m_acs (run 0)) = Some (Inr (), s) \<and>
     rel_inv s (m_live (run k)) (m_orphans (run 0)) NoRelease \<and> ctx_slab ctx \<notin> class_slabs (fst s) (m_orphans (run 0))"
    by (rule completeSlabRelease_returns [where run = run and other = other and n = 1])
      (use run m in \<open>auto simp: ctx_def SlabReleaseContext_mode_def isReleased_def run_def drained_def m'_def\<close>)
  moreover have "\<not> drained ?slab m"
  proof -
    obtain ac sa where e: "m_acs m = (ac, sa)" by force
    note J = rel_invD [OF pendingD [OF m(1) e]]
    have "?slab \<in> carved sa" using ac_shapeD(7) [OF J(6), of ?slab] m(1) by (auto simp: owned_slabs_def pending_def e)
    then have "getSlabForMemory ?x = ?slab"
      using slab_index_memory [OF ac_shapeD(1) [OF J(6)], of ?slab 2097152] by (simp add: kSize_def kNumSlabBits_def)
    then show ?thesis using m(2) by (simp add: drained_def)
  qed
  moreover have "m_acs (run 0) = m_acs m" by (simp add: run_def)
  ultimately show ?thesis using m(1) c by metis
qed

section \<open>Saving and restoring a class\<close>

lemma slab_index_or_null:
  "sa_geometry sa \<Longrightarrow> s \<in> carved sa \<or> s = 0 \<Longrightarrow> getSlabForIdx sa (slabIdx sa s) = s"
  using slab_index(3) [of sa s] by (auto simp: slabIdx_def getSlabForIdx_def)

lemma u32_through_u64: "ucast (ucast (x :: u32) :: u64) = x"
  by transfer simp



end
