(* ===== verification/MemoryPool.thy ===== *)
theory MemoryPool
  imports SlabRelease
begin

text \<open>
  Memory pools (\<open>MemoryPool.h\<close>, \<open>MemoryPool.cpp\<close>): a pool has a size limit and one allocation class
  per allocation size; it gets slabs from the slab allocator, keeps slabs of its own that no class
  uses, and moves slabs between classes, back to the allocator or out of memory. The state of a pool
  comes with the slab allocator it shares with the other pools. The file defines the operations and
  shows how a class is chosen for a size and how the pool accounts for its slabs and allocations.
\<close>

section \<open>The pool\<close>

record MemoryPool =
  mp_id :: PoolId
  mp_maxSize :: size_t
  mp_currSlabAllocSize :: size_t
  mp_currAllocSize :: size_t
  mp_freeSlabs :: "addr list"
  mp_acSizes :: "u32 list"
  mp_ac :: "AllocationClass list"
  mp_curSlabsAdvised :: u64
  mp_nSlabResize :: u32
  mp_nSlabRebalance :: u32
  mp_nSlabReleaseAborted :: u32

type_synonym mps = "MemoryPool \<times> SlabAllocator"

text \<open>The class ids count up from 0; an \<open>int8_t\<close> wraps.\<close>

fun createAllocationClasses :: "PoolId \<Rightarrow> SlabAllocator \<Rightarrow> ClassId \<Rightarrow> u32 list \<Rightarrow> exn + AllocationClass list" where
  "createAllocationClasses pid sa cid [] = Inr []"
| "createAllocationClasses pid sa cid (sz # sizes) =
     (if unat sz < kMinAllocSize \<or> unat sz > kSize then Inl invalid_argument
      else ebind (AllocationClass_new cid pid sz sa) (\<lambda>ac.
           ebind (createAllocationClasses pid sa (cid + 1) sizes) (\<lambda>acs. Inr (ac # acs))))"

fun adjacent_equal :: "u32 list \<Rightarrow> bool" where
  "adjacent_equal (x # y # xs) = (x = y \<or> adjacent_equal (y # xs))"
| "adjacent_equal _ = False"

definition MemoryPool_checkState :: "mps \<Rightarrow> exn + unit" where
  "MemoryPool_checkState = (\<lambda>(mp, sa).
     if sint (mp_id mp) < 0 then Inl invalid_argument
     else if mp_currAllocSize mp > mp_currSlabAllocSize mp then Inl invalid_argument
     else if mp_acSizes mp = [] \<or> mp_ac mp = [] then Inl invalid_argument
     else if length (mp_acSizes mp) \<noteq> length (mp_ac mp) then Inl invalid_argument
     else if \<not> sorted (mp_acSizes mp) then Inl invalid_argument
     else if adjacent_equal (mp_acSizes mp) then Inl invalid_argument
     else if \<not> list_all (\<lambda>(sz, ac). sz = ac_allocationSize ac \<and> unat sz \<ge> kMinAllocSize \<and> unat sz \<le> kSize)
                 (zip (mp_acSizes mp) (mp_ac mp)) then Inl invalid_argument
     else if \<not> list_all (isValidSlab sa) (mp_freeSlabs mp) then Inl invalid_argument
     else Inr ())"

definition MemoryPool_new :: "PoolId \<Rightarrow> size_t \<Rightarrow> u32 set \<Rightarrow> SlabAllocator \<Rightarrow> exn + MemoryPool" where
  "MemoryPool_new pid poolSize allocSizes sa =
     ebind (createAllocationClasses pid sa 0 (sorted_list_of_set allocSizes)) (\<lambda>acs.
       let mp = \<lparr>mp_id = pid, mp_maxSize = poolSize, mp_currSlabAllocSize = 0, mp_currAllocSize = 0, mp_freeSlabs = [],
                 mp_acSizes = sorted_list_of_set allocSizes, mp_ac = acs, mp_curSlabsAdvised = 0,
                 mp_nSlabResize = 0, mp_nSlabRebalance = 0, mp_nSlabReleaseAborted = 0\<rparr>
       in ebind (MemoryPool_checkState (mp, sa)) (\<lambda>_. Inr mp))"

section \<open>Sizes\<close>

definition getPoolAdvisedSize :: "MemoryPool \<Rightarrow> size_t" where
  "getPoolAdvisedSize mp = mp_curSlabsAdvised mp * sizeof_Slab"

definition getPoolUsableSize :: "MemoryPool \<Rightarrow> size_t" where
  "getPoolUsableSize mp = (if mp_maxSize mp \<le> getPoolAdvisedSize mp then 0 else mp_maxSize mp - getPoolAdvisedSize mp)"

definition getCurrentUsedSize :: "MemoryPool \<Rightarrow> size_t" where
  "getCurrentUsedSize mp = mp_currSlabAllocSize mp + of_nat (length (mp_freeSlabs mp)) * sizeof_Slab"

definition overLimit :: "MemoryPool \<Rightarrow> bool" where
  "overLimit mp \<longleftrightarrow> getCurrentUsedSize mp + getPoolAdvisedSize mp > mp_maxSize mp"

definition getUnAllocatedSlabMemory :: "MemoryPool \<Rightarrow> size_t" where
  "getUnAllocatedSlabMemory mp =
     (let totalAllocSize = mp_currSlabAllocSize mp + getPoolAdvisedSize mp
      in if totalAllocSize > mp_maxSize mp then 0 else mp_maxSize mp - totalAllocSize)"

definition mp_allSlabsAllocated :: "MemoryPool \<Rightarrow> bool" where
  "mp_allSlabsAllocated mp \<longleftrightarrow> mp_currSlabAllocSize mp + getPoolAdvisedSize mp + sizeof_Slab > mp_maxSize mp"

definition resize :: "size_t \<Rightarrow> MemoryPool \<Rightarrow> MemoryPool" where
  "resize sz mp = mp\<lparr>mp_maxSize := sz\<rparr>"

section \<open>Choosing a class\<close>

text \<open>\<open>std::lower_bound\<close> on a sorted vector: the position of the first element not below the value.\<close>

definition lower_bound :: "u32 list \<Rightarrow> u32 \<Rightarrow> nat" where
  "lower_bound xs v = length (takeWhile (\<lambda>x. x < v) xs)"

definition getAllocationClassId_size :: "u32 \<Rightarrow> MemoryPool \<Rightarrow> exn + ClassId" where
  "getAllocationClassId_size sz mp =
     (if sz > last (mp_acSizes mp) \<or> sz = 0 then Inl invalid_argument
      else Inr (of_nat (lower_bound (mp_acSizes mp) sz)))"

definition getAllocationClassId_memory :: "addr \<Rightarrow> mps \<Rightarrow> exn + ClassId" where
  "getAllocationClassId_memory memory = (\<lambda>(mp, sa).
     case getSlabHeader_memory sa memory of
       None \<Rightarrow> Inl invalid_argument
     | Some h \<Rightarrow>
         let header = sa_headers sa h
         in if poolId header \<noteq> mp_id mp then Inl invalid_argument
            else if classId header = kInvalidClassId then Inl invalid_argument
            else if sint (classId header) < 0 \<or> nat (sint (classId header)) \<ge> length (mp_ac mp) then Inl runtime_error
            else Inr (classId header))"

text \<open>A reference to a class is its position in the vector.\<close>

definition getAllocationClassFor :: "ClassId \<Rightarrow> MemoryPool \<Rightarrow> exn + nat" where
  "getAllocationClassFor cid mp =
     (if sint cid \<ge> 0 \<and> nat (sint cid) < length (mp_ac mp) then Inr (nat (sint cid)) else Inl invalid_argument)"

definition getAllocationClassFor_size :: "u32 \<Rightarrow> MemoryPool \<Rightarrow> exn + nat" where
  "getAllocationClassFor_size sz mp = ebind (getAllocationClassId_size sz mp) (\<lambda>cid. Inr (nat (sint cid)))"

definition getAllocationClassFor_memory :: "addr \<Rightarrow> mps \<Rightarrow> exn + nat" where
  "getAllocationClassFor_memory memory s = ebind (getAllocationClassId_memory memory s) (\<lambda>cid. Inr (nat (sint cid)))"

definition on_ac :: "nat \<Rightarrow> (acs \<Rightarrow> 'r \<times> acs) \<Rightarrow> mps \<Rightarrow> 'r \<times> mps" where
  "on_ac i f = (\<lambda>(mp, sa). case f (mp_ac mp ! i, sa) of (r, (ac, sa')) \<Rightarrow> (r, (mp\<lparr>mp_ac := (mp_ac mp)[i := ac]\<rparr>, sa')))"

section \<open>Allocating and freeing\<close>

definition getSlabLocked :: "mps \<Rightarrow> ptr \<times> mps" where
  "getSlabLocked = (\<lambda>(mp, sa).
     if mp_allSlabsAllocated mp then (None, (mp, sa))
     else
       (let mp1 = mp\<lparr>mp_currSlabAllocSize := mp_currSlabAllocSize mp + sizeof_Slab\<rparr>
        in if mp_freeSlabs mp1 \<noteq> []
           then (Some (last (mp_freeSlabs mp1)), (mp1\<lparr>mp_freeSlabs := butlast (mp_freeSlabs mp1)\<rparr>, sa))
           else (case makeNewSlab (mp_id mp1) sa of
                   (None, sa') \<Rightarrow> (None, (mp1\<lparr>mp_currSlabAllocSize := mp_currSlabAllocSize mp1 - sizeof_Slab\<rparr>, sa'))
                 | (Some slab, sa') \<Rightarrow> (Some slab, (mp1, sa')))))"

definition add_currAllocSize :: "size_t \<Rightarrow> mps \<Rightarrow> mps" where
  "add_currAllocSize n = (\<lambda>(mp, sa). (mp\<lparr>mp_currAllocSize := mp_currAllocSize mp + n\<rparr>, sa))"

text \<open>\<open>other\<close> is what other threads do before the pool lock is taken for the slow path.\<close>

definition MemoryPool_allocate :: "(mps \<Rightarrow> mps) \<Rightarrow> u32 \<Rightarrow> mps \<Rightarrow> (exn + ptr) \<times> mps" where
  "MemoryPool_allocate other sz s =
     (case getAllocationClassFor_size sz (fst s) of
        Inl e \<Rightarrow> (Inl e, s)
      | Inr i \<Rightarrow>
          (let (alloc, s1) = on_ac i allocate s;
               allocSize = ucast (ac_allocationSize (mp_ac (fst s1) ! i))
           in if alloc \<noteq> None then (Inr alloc, add_currAllocSize allocSize s1)
              else if mp_allSlabsAllocated (fst s1) then (Inr None, s1)
              else
                (let (alloc2, s2) = on_ac i allocate (other s1)
                 in if alloc2 \<noteq> None then (Inr alloc2, add_currAllocSize allocSize s2)
                    else (case getSlabLocked s2 of
                            (None, s3) \<Rightarrow> (Inr None, s3)
                          | (Some slab, s3) \<Rightarrow>
                              (let (alloc3, s4) = on_ac i (addSlabAndAllocate slab) s3
                               in (Inr alloc3, add_currAllocSize allocSize s4))))))"

definition allocateZeroedSlab :: "(mps \<Rightarrow> mps) \<Rightarrow> mps \<Rightarrow> (exn + ptr) \<times> mps" where
  "allocateZeroedSlab other = MemoryPool_allocate other (of_nat kSize)"

definition MemoryPool_free :: "addr \<Rightarrow> mps \<Rightarrow> (exn + unit) \<times> mps" where
  "MemoryPool_free alloc s =
     (case getAllocationClassFor_memory alloc s of
        Inl e \<Rightarrow> (Inl e, s)
      | Inr i \<Rightarrow>
          (case on_ac i (freeAlloc alloc) s of
             (Inl e, s1) \<Rightarrow> (Inl e, s1)
           | (Inr _, s1) \<Rightarrow> (Inr (), add_currAllocSize (- ucast (ac_allocationSize (mp_ac (fst s1) ! i))) s1)))"

section \<open>Provisioning\<close>

fun provision_take :: "nat \<Rightarrow> addr list \<Rightarrow> mps \<Rightarrow> (bool \<times> addr list) \<times> mps" where
  "provision_take 0 slabs s = ((True, slabs), s)"
| "provision_take (Suc n) slabs s =
     (case getSlabLocked s of
        (None, s') \<Rightarrow> ((False, slabs), s')
      | (Some slab, s') \<Rightarrow> provision_take n (slabs @ [slab]) s')"

fun freeAllSlabs :: "addr list \<Rightarrow> mps \<Rightarrow> (exn + unit) \<times> mps" where
  "freeAllSlabs [] s = (Inr (), s)"
| "freeAllSlabs (slab # slabs) (mp, sa) =
     (case freeSlab slab sa of
        Inl e \<Rightarrow> (Inl e, (mp, sa))
      | Inr sa' \<Rightarrow> freeAllSlabs slabs (mp\<lparr>mp_currSlabAllocSize := mp_currSlabAllocSize mp - sizeof_Slab\<rparr>, sa'))"

fun provision_class :: "nat \<Rightarrow> nat \<Rightarrow> addr list \<Rightarrow> mps \<Rightarrow> (exn + addr list) \<times> mps" where
  "provision_class i 0 slabs s = (Inr slabs, s)"
| "provision_class i (Suc n) [] s = (Inl undefined_behaviour, s)"
| "provision_class i (Suc n) (slab # slabs) s =
     provision_class i n slabs (snd (on_ac i (\<lambda>a. ((), addSlab slab a)) s))"

fun provision_classes :: "nat \<Rightarrow> u32 list \<Rightarrow> addr list \<Rightarrow> mps \<Rightarrow> (exn + unit) \<times> mps" where
  "provision_classes i [] slabs s = (Inr (), s)"
| "provision_classes i (n # ns) slabs s =
     (case provision_class i (unat n) slabs s of
        (Inl e, s') \<Rightarrow> (Inl e, s')
      | (Inr slabs', s') \<Rightarrow> provision_classes (Suc i) ns slabs' s')"

definition provision :: "u32 list \<Rightarrow> mps \<Rightarrow> (exn + bool) \<times> mps" where
  "provision slabsDistribution s =
     (if length slabsDistribution \<noteq> length (mp_ac (fst s)) then (Inl invalid_argument, s)
      else (case provision_take (unat (sum_list slabsDistribution)) [] s of
              ((False, slabs), s1) \<Rightarrow>
                (case freeAllSlabs slabs s1 of (Inl e, s2) \<Rightarrow> (Inl e, s2) | (Inr _, s2) \<Rightarrow> (Inr False, s2))
            | ((True, slabs), s1) \<Rightarrow>
                (case provision_classes 0 slabsDistribution slabs s1 of
                   (Inl e, s2) \<Rightarrow> (Inl e, s2) | (Inr _, s2) \<Rightarrow> (Inr True, s2))))"

section \<open>Releasing slabs\<close>

text \<open>\<open>madvise_ok\<close> is the outcome of the system call; zeroing the memory of the slab is left out.\<close>

definition releaseSlab :: "bool \<Rightarrow> SlabReleaseMode \<Rightarrow> addr \<Rightarrow> ClassId \<Rightarrow> mps \<Rightarrow> (exn + unit) \<times> mps" where
  "releaseSlab madvise_ok mode slab receiver = (\<lambda>(mp, sa).
     case mode of
       kResize \<Rightarrow>
         (case freeSlab slab sa of
            Inl e \<Rightarrow> (Inl e, (mp, sa))
          | Inr sa' \<Rightarrow> (Inr (), (mp\<lparr>mp_currSlabAllocSize := mp_currSlabAllocSize mp - sizeof_Slab,
                                   mp_nSlabResize := mp_nSlabResize mp + 1\<rparr>, sa')))
     | kAdvise \<Rightarrow>
         (case adviseSlab madvise_ok slab sa of
            Inl e \<Rightarrow> (Inl e, (mp, sa))
          | Inr (advised, sa') \<Rightarrow>
              (let mp1 = (if advised then mp\<lparr>mp_curSlabsAdvised := mp_curSlabsAdvised mp + 1\<rparr>
                          else mp\<lparr>mp_freeSlabs := mp_freeSlabs mp @ [slab]\<rparr>)
               in (Inr (), (mp1\<lparr>mp_currSlabAllocSize := mp_currSlabAllocSize mp1 - sizeof_Slab\<rparr>, sa'))))
     | kRebalance \<Rightarrow>
         (if receiver \<noteq> kInvalidClassId then
            (case getAllocationClassFor receiver mp of
               Inl e \<Rightarrow> (Inl e, (mp, sa))
             | Inr i \<Rightarrow>
                 (let (mp1, sa1) = snd (on_ac i (\<lambda>a. ((), addSlab slab a)) (mp, sa))
                  in (Inr (), (mp1\<lparr>mp_nSlabRebalance := mp_nSlabRebalance mp1 + 1\<rparr>, sa1))))
          else
            (Inr (), (mp\<lparr>mp_freeSlabs := mp_freeSlabs mp @ [slab],
                         mp_currSlabAllocSize := mp_currSlabAllocSize mp - sizeof_Slab,
                         mp_nSlabRebalance := mp_nSlabRebalance mp + 1\<rparr>, sa))))"

text \<open>The count of reclaimed slabs is an \<open>unsigned int\<close>.\<close>

fun reclaimSlabsAndGrow :: "nat \<Rightarrow> mps \<Rightarrow> u32 \<times> mps" where
  "reclaimSlabsAndGrow 0 s = (0, s)"
| "reclaimSlabsAndGrow (Suc n) (mp, sa) =
     (case reclaimSlab (mp_id mp) sa of
        (None, sa') \<Rightarrow> (0, (mp, sa'))
      | (Some slab, sa') \<Rightarrow>
          (let (k, s) = reclaimSlabsAndGrow n (mp\<lparr>mp_freeSlabs := mp_freeSlabs mp @ [slab],
                 mp_curSlabsAdvised := mp_curSlabsAdvised mp - 1\<rparr>, sa')
           in (k + 1, s)))"

definition releaseFromFreeSlabs :: "bool \<Rightarrow> mps \<Rightarrow> (exn + SlabReleaseContext) \<times> mps" where
  "releaseFromFreeSlabs zero = (\<lambda>(mp, sa).
     if mp_freeSlabs mp = [] then (Inl invalid_argument, (mp, sa))
     else (Inr (SlabReleaseContext_mode zero (last (mp_freeSlabs mp)) (mp_id mp) kInvalidClassId [] kResize),
           (mp\<lparr>mp_freeSlabs := butlast (mp_freeSlabs mp)\<rparr>, sa)))"

text \<open>
  \<open>other\<close> is what other threads do to the class between its locked sections, \<open>meanwhile\<close> what they do
  to the pool before the slab is handed on.
\<close>

definition MemoryPool_startSlabRelease ::
  "(nat \<Rightarrow> nat) \<Rightarrow> (nat \<Rightarrow> bool) \<Rightarrow> (nat \<Rightarrow> acs \<Rightarrow> acs) \<Rightarrow> (mps \<Rightarrow> mps) \<Rightarrow> bool \<Rightarrow> ClassId \<Rightarrow> ClassId \<Rightarrow> SlabReleaseMode \<Rightarrow> ptr \<Rightarrow> bool \<Rightarrow>
     mps \<Rightarrow> (exn + SlabReleaseContext) \<times> mps" where
  "MemoryPool_startSlabRelease rnd abort other meanwhile madvise_ok victim receiver mode hint zeroOnRelease s =
     (if receiver \<noteq> kInvalidClassId \<and> mode \<noteq> kRebalance then (Inl invalid_argument, s)
      else if victim = kInvalidClassId \<and> mode \<noteq> kResize then (Inl invalid_argument, s)
      else
        (let (r, s1) = (if victim = kInvalidClassId then releaseFromFreeSlabs zeroOnRelease s
                        else case getAllocationClassFor victim (fst s) of
                               Inl e \<Rightarrow> (Inl e, s)
                             | Inr i \<Rightarrow> on_ac i (startSlabRelease rnd abort other zeroOnRelease mode hint) s)
         in case r of
              Inl e \<Rightarrow> (Inl e, s1)
            | Inr ctx \<Rightarrow>
                (let context = setZeroOnRelease zeroOnRelease (setReceiver receiver ctx)
                 in if isReleased context
                    then (case releaseSlab madvise_ok (ctx_mode context) (ctx_slab context) receiver (meanwhile s1) of
                            (Inl e, s2) \<Rightarrow> (Inl e, s2)
                          | (Inr _, s2) \<Rightarrow> (Inr context, s2))
                    else (Inr context, s1))))"

definition MemoryPool_abortSlabRelease :: "SlabReleaseContext \<Rightarrow> mps \<Rightarrow> (exn + unit) \<times> mps" where
  "MemoryPool_abortSlabRelease context s =
     (case getAllocationClassFor (ctx_victim context) (fst s) of
        Inl e \<Rightarrow> (Inl e, s)
      | Inr i \<Rightarrow>
          (case on_ac i (abortSlabRelease context) s of
             (Inl e, s1) \<Rightarrow> (Inl e, s1)
           | (Inr _, (mp, sa)) \<Rightarrow> (Inr (), (mp\<lparr>mp_nSlabReleaseAborted := mp_nSlabReleaseAborted mp + 1\<rparr>, sa))))"

definition MemoryPool_completeSlabRelease ::
  "(nat \<Rightarrow> acs \<Rightarrow> acs) \<Rightarrow> (mps \<Rightarrow> mps) \<Rightarrow> bool \<Rightarrow> SlabReleaseContext \<Rightarrow> mps \<Rightarrow> ((exn + unit) \<times> mps) option" where
  "MemoryPool_completeSlabRelease other meanwhile madvise_ok context s =
     (if isReleased context then Some (Inr (), s)
      else if ctx_receiver context \<noteq> kInvalidClassId \<and> ctx_mode context \<noteq> kRebalance then Some (Inl invalid_argument, s)
      else (case getAllocationClassFor (ctx_victim context) (fst s) of
              Inl e \<Rightarrow> Some (Inl e, s)
            | Inr i \<Rightarrow>
                (case completeSlabRelease other context (mp_ac (fst s) ! i, snd s) of
                   None \<Rightarrow> None
                 | Some (Inl e, (ac, sa)) \<Rightarrow> Some (Inl e, ((fst s)\<lparr>mp_ac := (mp_ac (fst s))[i := ac]\<rparr>, sa))
                 | Some (Inr _, (ac, sa)) \<Rightarrow>
                     Some (releaseSlab madvise_ok (ctx_mode context) (ctx_slab context) (ctx_receiver context)
                             (meanwhile ((fst s)\<lparr>mp_ac := (mp_ac (fst s))[i := ac]\<rparr>, sa))))))"

definition MemoryPool_forEachAllocation ::
  "bool \<Rightarrow> ClassId \<Rightarrow> addr \<Rightarrow> (addr \<Rightarrow> AllocInfo \<Rightarrow> 'b \<Rightarrow> bool \<times> 'b) \<Rightarrow> mps \<Rightarrow> 'b \<Rightarrow> exn + SlabIterationStatus \<times> 'b" where
  "MemoryPool_forEachAllocation locked cid slab callback s b =
     ebind (getAllocationClassFor cid (fst s)) (\<lambda>i. Inr (forEachAllocation locked slab callback (mp_ac (fst s) ! i, snd s) b))"

section \<open>Saving, restoring, statistics\<close>

record MemoryPoolObject =
  po_id :: PoolId
  po_maxSize :: u64
  po_currSlabAllocSize :: u64
  po_currAllocSize :: u64
  po_acSizes :: "u64 list"
  po_ac :: "AllocationClassObject list"
  po_numSlabResize :: u64
  po_numSlabRebalance :: u64
  po_freeSlabIdxs :: "SlabIdx list"
  po_numSlabsAdvised :: u64

fun save_classes :: "SlabAllocator \<Rightarrow> AllocationClass list \<Rightarrow> exn + AllocationClassObject list" where
  "save_classes sa [] = Inr []"
| "save_classes sa (ac # acs) =
     ebind (AllocationClass_saveState (ac, sa)) (\<lambda>object. ebind (save_classes sa acs) (\<lambda>objects. Inr (object # objects)))"

definition MemoryPool_saveState :: "mps \<Rightarrow> exn + MemoryPoolObject" where
  "MemoryPool_saveState = (\<lambda>(mp, sa).
     if \<not> isRestorable sa then Inl logic_error
     else ebind (save_classes sa (mp_ac mp)) (\<lambda>objects.
       Inr \<lparr>po_id = mp_id mp, po_maxSize = mp_maxSize mp, po_currSlabAllocSize = mp_currSlabAllocSize mp,
            po_currAllocSize = mp_currAllocSize mp, po_acSizes = map ucast (mp_acSizes mp), po_ac = objects,
            po_numSlabResize = ucast (mp_nSlabResize mp), po_numSlabRebalance = ucast (mp_nSlabRebalance mp),
            po_freeSlabIdxs = map (slabIdx sa) (mp_freeSlabs mp), po_numSlabsAdvised = mp_curSlabsAdvised mp\<rparr>))"

definition createMcSizesFromSerialized :: "MemoryPoolObject \<Rightarrow> u32 list" where
  "createMcSizesFromSerialized object = map ucast (po_acSizes object)"

fun createMcFromSerialized :: "AllocationClassObject list \<Rightarrow> PoolId \<Rightarrow> SlabAllocator \<Rightarrow> exn + AllocationClass list" where
  "createMcFromSerialized [] pid sa = Inr []"
| "createMcFromSerialized (object # objects) pid sa =
     ebind (AllocationClass_restore object pid sa) (\<lambda>ac. ebind (createMcFromSerialized objects pid sa) (\<lambda>acs. Inr (ac # acs)))"

definition MemoryPool_restore :: "MemoryPoolObject \<Rightarrow> SlabAllocator \<Rightarrow> exn + MemoryPool" where
  "MemoryPool_restore object sa =
     ebind (createMcFromSerialized (po_ac object) (po_id object) sa) (\<lambda>acs.
       if \<not> isRestorable sa then Inl logic_error
       else
         (let mp = \<lparr>mp_id = po_id object, mp_maxSize = po_maxSize object, mp_currSlabAllocSize = po_currSlabAllocSize object,
                    mp_currAllocSize = po_currAllocSize object, mp_freeSlabs = map (getSlabForIdx sa) (po_freeSlabIdxs object),
                    mp_acSizes = createMcSizesFromSerialized object, mp_ac = acs, mp_curSlabsAdvised = po_numSlabsAdvised object,
                    mp_nSlabResize = ucast (po_numSlabResize object), mp_nSlabRebalance = ucast (po_numSlabRebalance object),
                    mp_nSlabReleaseAborted = 0\<rparr>
          in ebind (MemoryPool_checkState (mp, sa)) (\<lambda>_. Inr mp)))"

record MPStats =
  ms_classIds :: "ClassId set"
  ms_acStats :: "(ClassId \<times> ACStats) list"
  ms_freeSlabs :: u64
  ms_slabsUnAllocated :: u64
  ms_numSlabResize :: u32
  ms_numSlabRebalance :: u32
  ms_numSlabAdvise :: u64

text \<open>Insertion into the hash map keeps the entry that is there.\<close>

definition insert_stats :: "(ClassId \<times> ACStats) list \<Rightarrow> AllocationClass \<Rightarrow> (ClassId \<times> ACStats) list" where
  "insert_stats m ac = (if ac_classId ac \<in> fst ` set m then m else m @ [(ac_classId ac, AllocationClass_getStats ac)])"

definition MemoryPool_getStats :: "MemoryPool \<Rightarrow> MPStats" where
  "MemoryPool_getStats mp =
     (let availableMemory = getUnAllocatedSlabMemory mp;
          free = of_nat (length (mp_freeSlabs mp))
      in \<lparr>ms_classIds = ac_classId ` set (mp_ac mp), ms_acStats = foldl insert_stats [] (mp_ac mp), ms_freeSlabs = free,
          ms_slabsUnAllocated = (if availableMemory > 0 then availableMemory div sizeof_Slab - free else 0),
          ms_numSlabResize = mp_nSlabResize mp, ms_numSlabRebalance = mp_nSlabRebalance mp,
          ms_numSlabAdvise = mp_curSlabsAdvised mp\<rparr>)"

definition totalSlabs :: "ACStats \<Rightarrow> u64" where
  "totalSlabs st = st_freeSlabs st + st_usedSlabs st"

definition getTotalFreeMemory :: "ACStats \<Rightarrow> size_t" where
  "getTotalFreeMemory st = sizeof_Slab * st_freeSlabs st + st_freeAllocs st * ucast (st_allocSize st)"

definition ACStats_add :: "ACStats \<Rightarrow> ACStats \<Rightarrow> ACStats" where
  "ACStats_add st other =
     (let st1 = (if st_allocSize st \<noteq> st_allocSize other
                 then st\<lparr>st_allocSize := st_allocSize other, st_allocsPerSlab := st_allocsPerSlab other\<rparr> else st)
      in st1\<lparr>st_usedSlabs := st_usedSlabs st1 + st_usedSlabs other, st_freeSlabs := st_freeSlabs st1 + st_freeSlabs other,
             st_freeAllocs := st_freeAllocs st1 + st_freeAllocs other, st_activeAllocs := st_activeAllocs st1 + st_activeAllocs other,
             st_full := (st_full st1 \<or> st_full other)\<rparr>)"

definition allocatedSlabs :: "MPStats \<Rightarrow> u64" where
  "allocatedSlabs ms = sum_list (map (\<lambda>a. totalSlabs (snd a)) (ms_acStats ms)) + ms_freeSlabs ms"

definition numFreeAllocs :: "MPStats \<Rightarrow> u64" where
  "numFreeAllocs ms = sum_list (map (\<lambda>a. st_freeAllocs (snd a)) (ms_acStats ms))"

definition freeMemory :: "MPStats \<Rightarrow> size_t" where
  "freeMemory ms = sum_list (map (\<lambda>a. getTotalFreeMemory (snd a)) (ms_acStats ms)) +
     (ms_slabsUnAllocated ms + ms_freeSlabs ms) * sizeof_Slab"

section \<open>The class for a size\<close>

text \<open>What the constructor establishes and nothing changes: sorted sizes, one class for each.\<close>

definition pool_shape :: "MemoryPool \<Rightarrow> bool" where
  "pool_shape mp \<longleftrightarrow> mp_acSizes mp \<noteq> [] \<and> sorted (mp_acSizes mp) \<and> length (mp_ac mp) \<le> 128 \<and>
     map ac_allocationSize (mp_ac mp) = mp_acSizes mp"

text \<open>The reference: the first class, in the order of the vector, whose allocations hold the size.\<close>

fun first_fit :: "u32 \<Rightarrow> AllocationClass list \<Rightarrow> nat \<Rightarrow> nat option" where
  "first_fit sz [] i = None"
| "first_fit sz (ac # acs) i = (if sz \<le> ac_allocationSize ac then Some i else first_fit sz acs (Suc i))"

lemma first_fit_bound:
  "first_fit sz acs i = (if lower_bound (map ac_allocationSize acs) sz < length acs
     then Some (i + lower_bound (map ac_allocationSize acs) sz) else None)"
  by (induction acs arbitrary: i) (auto simp: lower_bound_def not_less)

lemma lower_bound_last:
  assumes "sorted xs" and "xs \<noteq> []"
  shows "lower_bound xs v < length xs \<longleftrightarrow> v \<le> last xs"
proof
  assume "lower_bound xs v < length xs"
  then have "\<not> xs ! lower_bound xs v < v" unfolding lower_bound_def by (rule nth_length_takeWhile)
  moreover have "xs ! lower_bound xs v \<le> last xs"
    using assms \<open>lower_bound xs v < length xs\<close> by (simp add: last_conv_nth sorted_nth_mono)
  ultimately show "v \<le> last xs" by (simp add: not_less)
next
  assume v: "v \<le> last xs"
  show "lower_bound xs v < length xs"
  proof (rule ccontr)
    assume "\<not> lower_bound xs v < length xs"
    then have "takeWhile (\<lambda>x. x < v) xs = xs" unfolding lower_bound_def
      by (metis length_takeWhile_le linorder_not_le order_antisym takeWhile_eq_all_conv takeWhile_eq_take take_all order_refl)
    then have "last xs < v" using assms(2) by (metis last_in_set set_takeWhileD)
    then show False using v by simp
  qed
qed

lemma sint_of_nat_byte: "n \<le> 127 \<Longrightarrow> nat (sint (of_nat n :: 8 word)) = n"
  by (simp add: signed_of_nat signed_take_bit_int_eq_self)

text \<open>
  C24. The class a pool uses for a size is the first one, hence the smallest, whose allocations are
  large enough; sizes of zero or above the largest class are refused. (The library's binary search
  agrees with a scan of the classes.)
\<close>

theorem class_for_size:
  assumes "pool_shape mp"
  shows "getAllocationClassFor_size sz mp =
    (case (if sz = 0 then None else first_fit sz (mp_ac mp) 0) of None \<Rightarrow> Inl invalid_argument | Some i \<Rightarrow> Inr i)"
proof -
  have S: "mp_acSizes mp \<noteq> []" "sorted (mp_acSizes mp)" "length (mp_ac mp) \<le> 128"
    "map ac_allocationSize (mp_ac mp) = mp_acSizes mp" using assms by (auto simp: pool_shape_def)
  have len: "length (mp_acSizes mp) = length (mp_ac mp)" by (simp add: S(4) [symmetric])
  have b: "lower_bound (mp_acSizes mp) sz < length (mp_ac mp) \<longleftrightarrow> sz \<le> last (mp_acSizes mp)"
    using lower_bound_last [OF S(2,1)] len by simp
  then show ?thesis
    using S(3) by (auto simp: getAllocationClassFor_size_def getAllocationClassId_size_def first_fit_bound S(4) not_less
        sint_of_nat_byte not_le [symmetric])
qed

definition example_pool :: MemoryPool where
  "example_pool = \<lparr>mp_id = 5, mp_maxSize = 2 * sizeof_Slab, mp_currSlabAllocSize = 0, mp_currAllocSize = 0, mp_freeSlabs = [],
     mp_acSizes = [64, 2097152], mp_ac = [example_ac\<lparr>ac_allocationSize := 64\<rparr>, example_ac\<lparr>ac_classId := 1\<rparr>],
     mp_curSlabsAdvised = 0, mp_nSlabResize = 0, mp_nSlabRebalance = 0, mp_nSlabReleaseAborted = 0\<rparr>"

theorem class_for_size_witness:
  "getAllocationClassFor_size 64 example_pool = Inr 0 \<and> getAllocationClassFor_size 65 example_pool = Inr 1 \<and>
   getAllocationClassFor_size 2097153 example_pool = Inl invalid_argument"
proof -
  have "pool_shape example_pool" by (simp add: pool_shape_def example_pool_def example_ac_def)
  from class_for_size [OF this] show ?thesis by (simp add: example_pool_def example_ac_def)
qed

end
