(* ===== verification/PoolAccounting.thy ===== *)
theory PoolAccounting
  imports MemoryPool
begin

text \<open>
  The accounts of a memory pool (\<open>MemoryPool.cpp\<close>): the two size counters of a pool against the slabs
  its classes own and the allocations its clients hold. The invariant composes the invariant of the
  slab allocator with those of all classes of the pool; an operation on one class is a change
  elsewhere for the others.
\<close>

section \<open>What an operation of the slab allocator touches\<close>

definition touches :: "SlabAllocator \<Rightarrow> addr \<Rightarrow> SlabAllocator \<Rightarrow> bool" where
  "touches sa s sa' \<longleftrightarrow> sa_geometry sa' \<and> carved sa \<subseteq> carved sa' \<and> carved sa' \<subseteq> insert s (carved sa) \<and>
     (\<forall>t \<in> carved sa. t \<noteq> s \<longrightarrow> header_of sa' t = header_of sa t)"

lemma touchesD:
  assumes "touches sa s sa'"
  shows "sa_geometry sa'" "t \<in> carved sa \<Longrightarrow> t \<in> carved sa'" "t \<in> carved sa' \<Longrightarrow> t \<noteq> s \<Longrightarrow> t \<in> carved sa"
    "t \<in> carved sa \<Longrightarrow> t \<noteq> s \<Longrightarrow> header_of sa' t = header_of sa t"
  using assms by (auto simp: touches_def)

lemma touches_write: "sa_geometry sa \<Longrightarrow> s \<in> carved sa \<Longrightarrow> touches sa s (write_header s f sa)"
  unfolding touches_def using write_header_carved [of sa s] by auto

lemma touches_upd: "sa_geometry sa \<Longrightarrow> s \<in> carved sa \<Longrightarrow> touches sa s (upd_header (slabIdx sa s) f sa)"
  using touches_write [of sa s f] write_header_carved(1) [of sa s f] by simp

lemma touches_trans: "touches sa s sa1 \<Longrightarrow> touches sa1 s sa2 \<Longrightarrow> touches sa s sa2"
  unfolding touches_def by auto

lemma touches_same: "sa_geometry sa \<Longrightarrow> touches sa s (add_poolSize pid n sa)" "sa_geometry sa \<Longrightarrow> touches sa s (sa\<lparr>sa_freeSlabs := fs\<rparr>)"
  "sa_geometry sa \<Longrightarrow> touches sa s (sa\<lparr>sa_advisedSlabs := fs\<rparr>)" "sa_geometry sa \<Longrightarrow> touches sa s (sa\<lparr>sa_canAllocate := b\<rparr>)"
  "sa_geometry sa \<Longrightarrow> touches sa s (sa\<lparr>sa_freeSlabs := fs, sa_canAllocate := b\<rparr>)"
  by (auto simp: touches_def)

lemma touches_carve:
  "sa_geometry sa \<Longrightarrow> \<not> allMemorySlabbed sa \<Longrightarrow>
   touches sa (sa_nextSlabAllocation sa) (sa\<lparr>sa_nextSlabAllocation := sa_nextSlabAllocation sa + kSize\<rparr>)"
  using carve_next [of sa] by (auto simp: touches_def)

lemma touches_init: "sa_geometry sa \<Longrightarrow> s \<in> carved sa \<Longrightarrow> touches sa s (initializeHeader s pid (add_poolSize pid n sa))"
  using touches_upd [of "add_poolSize pid n sa" s] touches_same(1) [of sa s pid n]
  by (auto simp: initializeHeader_carved intro: touches_trans)

lemma makeNewSlab_touches:
  assumes inv: "sa_inv sa used" and run: "makeNewSlab pid sa = (Some s, sa')"
  shows "touches sa s sa'"
proof -
  note I = sa_invD [OF inv]
  consider (free) "sa_freeSlabs sa \<noteq> []" "s = last (sa_freeSlabs sa)"
      "sa' = initializeHeader s pid (add_poolSize pid sizeof_Slab (sa\<lparr>sa_freeSlabs := butlast (sa_freeSlabs sa)\<rparr>))"
    | (carve) "\<not> allMemorySlabbed sa" "s = sa_nextSlabAllocation sa"
      "sa' = initializeHeader s pid (add_poolSize pid sizeof_Slab (sa\<lparr>sa_nextSlabAllocation := s + kSize\<rparr>))"
    using run by (auto simp: makeNewSlab_def makeNewSlabImpl_def split: if_splits)
  then show ?thesis
  proof cases
    case free
    then have "s \<in> carved sa" using I(6) last_in_set [of "sa_freeSlabs sa"] by blast
    then show ?thesis unfolding free(3) using I(1) touches_same(2) [OF I(1)] by (intro touches_trans [OF _ touches_init]) auto
  next
    case carve
    note C = carve_next [OF I(1) carve(1), folded carve(2)]
    show ?thesis unfolding carve(3)
      using touches_carve [OF I(1) carve(1), folded carve(2)] C by (intro touches_trans [OF _ touches_init]) auto
  qed
qed

lemma makeNewSlab_None_same:
  "makeNewSlab pid sa = (None, sa') \<Longrightarrow> sa' = sa \<or> sa' = sa\<lparr>sa_canAllocate := False\<rparr>"
  by (auto simp: makeNewSlab_def makeNewSlabImpl_def split: if_splits)

lemma freeSlab_touches:
  assumes "sa_geometry sa" and "s \<in> carved sa" and "freeSlab s sa = Inr sa'"
  shows "touches sa s sa'" and "header_of sa' s = resetAllocInfo (header_of sa s)"
proof -
  define pid where "pid = poolId (sa_headers sa (slabIdx sa s))"
  define sb where "sb = (add_poolSize pid (- sizeof_Slab) sa)\<lparr>sa_freeSlabs := sa_freeSlabs sa @ [s], sa_canAllocate := True\<rparr>"
  have sb: "sa_geometry sb" "s \<in> carved sb" "slabIdx sb = slabIdx sa" "header_of sb = header_of sa"
    using assms(1,2) by (simp_all add: sb_def)
  have sa': "sa' = upd_header (slabIdx sb s) resetAllocInfo sb"
    unfolding sb(3) using assms by (auto simp: freeSlab_def header_lookup Let_def sb_def pid_def add_poolSize_def)
  have t: "touches sa s sb"
    unfolding sb_def using touches_same(1) [OF assms(1)] by (rule touches_trans) (rule touches_same(5), simp add: assms(1))
  show "touches sa s sa'" unfolding sa' by (rule touches_trans [OF t touches_upd [OF sb(1,2)]])
  show "header_of sa' s = resetAllocInfo (header_of sa s)"
    unfolding sa' by (subst header_of_upd [OF sb(1,2,2)]) (simp add: sb(4))
qed

lemma reclaimSlab_touches:
  assumes inv: "sa_inv sa used" and run: "reclaimSlab pid sa = (Some s, sa')"
  shows "touches sa s sa'"
proof -
  note I = sa_invD [OF inv]
  obtain rest where r: "sa_advisedSlabs sa = s # rest"
    and sa': "sa' = initializeHeader s pid (add_poolSize pid sizeof_Slab (sa\<lparr>sa_advisedSlabs := rest\<rparr>))"
    using run by (auto simp: reclaimSlab_def split: list.splits)
  have "s \<in> carved sa" using I(6) r by auto
  then show ?thesis unfolding sa' using I(1) touches_same(3) [OF I(1)] by (intro touches_trans [OF _ touches_init]) auto
qed

lemma adviseSlab_touches:
  assumes "sa_geometry sa" and "s \<in> carved sa" and run: "adviseSlab ok s sa = Inr (b, sa')"
  shows "touches sa s sa'"
    and "classId (header_of sa' s) = (if b then kInvalidClassId else classId (header_of sa s))"
    and "\<not> b \<Longrightarrow> poolId (header_of sa' s) = poolId (header_of sa s) \<and> isMarkedForRelease (header_of sa' s) = isMarkedForRelease (header_of sa s)"
proof -
  define sa1 where "sa1 = upd_header (slabIdx sa s) (setAdvised True) sa"
  have t1: "touches sa s sa1" unfolding sa1_def by (rule touches_upd [OF assms(1,2)])
  have h1: "header_of sa1 s = setAdvised True (header_of sa s)" unfolding sa1_def by (simp add: header_of_upd assms(1,2))
  have i1: "slabIdx sa1 = slabIdx sa" "sa_geometry sa1" "s \<in> carved sa1" using assms by (simp_all add: sa1_def)
  consider (yes) "b" "sa' = upd_header (slabIdx sa s) resetAllocInfo (sa1\<lparr>sa_advisedSlabs := sa_advisedSlabs sa1 @ [s]\<rparr>)"
    | (no) "\<not> b" "sa' = upd_header (slabIdx sa s) (setAdvised False) sa1"
    using run assms by (auto simp: adviseSlab_def header_lookup Let_def sa1_def split: if_splits)
  then have "touches sa s sa' \<and> classId (header_of sa' s) = (if b then kInvalidClassId else classId (header_of sa s)) \<and>
     (\<not> b \<longrightarrow> poolId (header_of sa' s) = poolId (header_of sa s) \<and> isMarkedForRelease (header_of sa' s) = isMarkedForRelease (header_of sa s))"
  proof cases
    case yes
    let ?sb = "sa1\<lparr>sa_advisedSlabs := sa_advisedSlabs sa1 @ [s]\<rparr>"
    have i: "slabIdx ?sb = slabIdx sa" "sa_geometry ?sb" "s \<in> carved ?sb" "header_of ?sb = header_of sa1" using i1 by simp_all
    have "touches sa s ?sb" by (rule touches_trans [OF t1 touches_same(3) [OF i1(2)]])
    then have "touches sa s sa'" unfolding yes(2) i(1) [symmetric] by (rule touches_trans) (rule touches_upd [OF i(2,3)])
    moreover have "header_of sa' s = resetAllocInfo (header_of sa1 s)"
      unfolding yes(2) i(1) [symmetric] by (subst header_of_upd [OF i(2,3,3)]) (simp add: i(4))
    ultimately show ?thesis using yes(1) by (simp add: resetAllocInfo_def)
  next
    case no
    have "touches sa s sa'" unfolding no(2) i1(1) [symmetric] by (rule touches_trans [OF t1 touches_upd [OF i1(2,3)]])
    moreover have "header_of sa' s = setAdvised False (header_of sa1 s)"
      unfolding no(2) i1(1) [symmetric] by (subst header_of_upd [OF i1(2,3,3)]) simp
    ultimately show ?thesis using no(1) h1 by simp
  qed
  then show "touches sa s sa'" "classId (header_of sa' s) = (if b then kInvalidClassId else classId (header_of sa s))"
    "\<not> b \<Longrightarrow> poolId (header_of sa' s) = poolId (header_of sa s) \<and> isMarkedForRelease (header_of sa' s) = isMarkedForRelease (header_of sa s)"
    by blast+
qed

section \<open>The accounts\<close>

text \<open>A slab of the pool that no class uses.\<close>

definition idle_header :: "PoolId \<Rightarrow> SlabHeader \<Rightarrow> bool" where
  "idle_header pid h \<longleftrightarrow> poolId h = pid \<and> classId h = kInvalidClassId \<and> \<not> isMarkedForRelease h"

definition slabs_of :: "MemoryPool \<Rightarrow> (nat \<Rightarrow> addr set) \<Rightarrow> nat" where
  "slabs_of mp orphans = (\<Sum>i<length (mp_ac mp). card (class_slabs (mp_ac mp ! i) (orphans i)))"

definition live_bytes :: "MemoryPool \<Rightarrow> (nat \<Rightarrow> addr set) \<Rightarrow> nat" where
  "live_bytes mp live = (\<Sum>i<length (mp_ac mp). card (live i) * unat (ac_allocationSize (mp_ac mp ! i)))"

definition class_part :: "MemoryPool \<Rightarrow> SlabAllocator \<Rightarrow> (nat \<Rightarrow> addr set) \<Rightarrow> (nat \<Rightarrow> addr set) \<Rightarrow> addr set \<Rightarrow> nat \<Rightarrow> bool" where
  "class_part mp sa live orphans used i \<longleftrightarrow>
     ac_classId (mp_ac mp ! i) = of_nat i \<and> ac_poolId (mp_ac mp ! i) = mp_id mp \<and>
     rel_inv (mp_ac mp ! i, sa) (live i) (orphans i) NoRelease \<and> class_slabs (mp_ac mp ! i) (orphans i) \<subseteq> used"

text \<open>
  \<open>live i\<close> are the allocations of class \<open>i\<close> in use, \<open>orphans i\<close> slabs aborted releases have lost,
  \<open>used\<close> the slabs the allocator has handed out (to this pool and others), and \<open>fl\<close> slabs of the
  pool that are counted as used but on their way from one owner to the next.
\<close>

definition pool_inv :: "mps \<Rightarrow> (nat \<Rightarrow> addr set) \<Rightarrow> (nat \<Rightarrow> addr set) \<Rightarrow> addr set \<Rightarrow> addr list \<Rightarrow> bool" where
  "pool_inv = (\<lambda>(mp, sa) live orphans used fl.
     pool_shape mp \<and> sa_inv sa used \<and> (\<forall>i < length (mp_ac mp). class_part mp sa live orphans used i) \<and>
     distinct (fl @ mp_freeSlabs mp) \<and>
     (\<forall>s \<in> set (fl @ mp_freeSlabs mp). s \<in> used \<and> idle_header (mp_id mp) (header_of sa s)) \<and>
     mp_currSlabAllocSize mp = of_nat (kSize * (slabs_of mp orphans + length fl)) \<and>
     mp_currAllocSize mp = of_nat (live_bytes mp live))"

lemma pool_invD:
  assumes "pool_inv (mp, sa) live orphans used fl"
  shows "pool_shape mp" "sa_inv sa used" "\<And>i. i < length (mp_ac mp) \<Longrightarrow> class_part mp sa live orphans used i"
    "distinct (fl @ mp_freeSlabs mp)" "\<And>s. s \<in> set fl \<union> set (mp_freeSlabs mp) \<Longrightarrow> s \<in> used"
    "\<And>s. s \<in> set fl \<union> set (mp_freeSlabs mp) \<Longrightarrow> idle_header (mp_id mp) (header_of sa s)"
    "mp_currSlabAllocSize mp = of_nat (kSize * (slabs_of mp orphans + length fl))"
    "mp_currAllocSize mp = of_nat (live_bytes mp live)"
  using assms unfolding pool_inv_def by auto

lemma pool_invI:
  assumes "pool_shape mp" "sa_inv sa used" "\<And>i. i < length (mp_ac mp) \<Longrightarrow> class_part mp sa live orphans used i"
    "distinct (fl @ mp_freeSlabs mp)" "\<And>s. s \<in> set fl \<union> set (mp_freeSlabs mp) \<Longrightarrow> s \<in> used"
    "\<And>s. s \<in> set fl \<union> set (mp_freeSlabs mp) \<Longrightarrow> idle_header (mp_id mp) (header_of sa s)"
    "mp_currSlabAllocSize mp = of_nat (kSize * (slabs_of mp orphans + length fl))"
    "mp_currAllocSize mp = of_nat (live_bytes mp live)"
  shows "pool_inv (mp, sa) live orphans used fl"
  unfolding pool_inv_def using assms by auto

lemma of_nat_class_inj: "i \<le> 127 \<Longrightarrow> j \<le> 127 \<Longrightarrow> (of_nat i :: ClassId) = of_nat j \<longleftrightarrow> i = j"
  using sint_of_nat_byte by metis

lemma of_nat_class_valid: "i \<le> 127 \<Longrightarrow> (of_nat i :: ClassId) \<noteq> kInvalidClassId"
proof
  assume i: "i \<le> 127" and eq: "(of_nat i :: ClassId) = kInvalidClassId"
  have "sint (of_nat i :: ClassId) = int i" using i by (simp add: signed_of_nat signed_take_bit_int_eq_self)
  then show False by (simp add: eq kInvalidClassId_def)
qed

lemma rel_inv_touches:
  assumes inv: "rel_inv (ac, sa) live orphans th" and t: "touches sa s sa'" and s: "s \<notin> class_slabs ac orphans"
    and c: "\<not> claims ac (header_of sa' s)"
  shows "rel_inv (ac, sa') live orphans th"
proof (rule others_keep [OF inv])
  note I = rel_invD [OF inv] and T = touchesD [OF t]
  have sub: "u \<in> carved sa" if "u \<in> class_slabs ac orphans" for u
    using that ac_shapeD(7,8) [OF I(6), of u] by (auto simp: class_slabs_def)
  show "elsewhere (ac, sa) orphans sa'"
    unfolding elsewhere_def prod.case
  proof (intro conjI ballI impI subsetI)
    show "header_of sa' u = header_of sa u" if "u \<in> class_slabs ac orphans" for u
      by (rule T(4)) (use sub that s in auto)
    show "u \<in> class_slabs ac orphans" if "u \<in> carved sa'" "claims ac (header_of sa' u)" for u
      using I(2) [of u] T(3,4) [of u] that c by (cases "u = s") auto
  qed (use T(1,2) in blast)+
qed

lemma class_slabs_finite: "rel_inv (ac, sa) live orphans th \<Longrightarrow> finite (class_slabs ac orphans)"
proof -
  assume inv: "rel_inv (ac, sa) live orphans th"
  note I = rel_invD [OF inv]
  have "class_slabs ac orphans \<subseteq> carved sa" using ac_shapeD(7,8) [OF I(6)] by (auto simp: class_slabs_def)
  then show ?thesis using carved_image [OF ac_shapeD(1) [OF I(6)]] by (metis finite_imageI finite_lessThan finite_subset)
qed

lemma live_finite: "rel_inv (ac, sa) live orphans th \<Longrightarrow> finite live"
proof -
  assume inv: "rel_inv (ac, sa) live orphans th"
  note I = rel_invD [OF inv]
  have "live \<subseteq> (\<Union>s \<in> owned_slabs ac orphans. carved_allocs ac s)" using ac_okD(4) [OF I(5)] by blast
  moreover have "finite (owned_slabs ac orphans)" using class_slabs_finite [OF inv] by (simp add: class_slabs_def)
  then have "finite (\<Union>s \<in> owned_slabs ac orphans. carved_allocs ac s)" by (simp add: carved_allocs_def)
  ultimately show ?thesis by (rule finite_subset)
qed

text \<open>A slab that no class uses stays out of the way of all of them.\<close>

lemma idle_not_claimed: "i \<le> 127 \<Longrightarrow> ac_classId ac = of_nat i \<Longrightarrow> idle_header pid h \<Longrightarrow> \<not> claims ac h"
  using of_nat_class_valid [of i] by (auto simp: idle_header_def claims_def)

lemma idle_not_in_class:
  assumes "class_part mp sa live orphans used i" and "i \<le> 127" and "idle_header pid (header_of sa s)"
  shows "s \<notin> class_slabs (mp_ac mp ! i) (orphans i)"
proof
  assume s: "s \<in> class_slabs (mp_ac mp ! i) (orphans i)"
  have "rel_inv (mp_ac mp ! i, sa) (live i) (orphans i) NoRelease" using assms(1) by (simp add: class_part_def)
  from ac_shape_sets(5) [OF rel_invD(6) [OF this], of s] s
  have "classId (header_of sa s) = of_nat i" using assms(1) by (auto simp: class_slabs_def class_header_def class_part_def)
  then show False using assms(2,3) of_nat_class_valid by (simp add: idle_header_def)
qed

lemma class_part_touches:
  assumes "class_part mp sa live orphans used i" and "i \<le> 127" and "touches sa s sa'"
    and "s \<notin> class_slabs (mp_ac mp ! i) (orphans i)" "\<not> claims (mp_ac mp ! i) (header_of sa' s)"
    and "used - {s} \<subseteq> used'" and "mp_ac mp' ! i = mp_ac mp ! i" "mp_id mp' = mp_id mp"
  shows "class_part mp' sa' live orphans used' i"
  using assms rel_inv_touches [of "mp_ac mp ! i" sa "live i" "orphans i" NoRelease s sa'] unfolding class_part_def by auto


section \<open>One class changes\<close>

lemma sum_change:
  fixes f g :: "nat \<Rightarrow> nat"
  assumes "i < n" and "\<And>j. j < n \<Longrightarrow> j \<noteq> i \<Longrightarrow> f j = g j"
  shows "(\<Sum>j<n. f j) + g i = (\<Sum>j<n. g j) + f i"
proof -
  have "(\<Sum>j<n. h j) = h i + (\<Sum>j\<in>{..<n} - {i}. h j)" for h :: "nat \<Rightarrow> nat"
    using assms(1) by (simp add: sum.remove)
  moreover have "(\<Sum>j\<in>{..<n} - {i}. f j) = (\<Sum>j\<in>{..<n} - {i}. g j)" using assms(2) by (intro sum.cong) auto
  ultimately show ?thesis by simp
qed

lemma word_change: "(a :: nat) + b = c + d \<Longrightarrow> (of_nat a :: u64) = of_nat c + of_nat d - of_nat b"
  by (metis add_diff_cancel_right' of_nat_add)

text \<open>Same class, same sizes.\<close>

definition same_class :: "AllocationClass \<Rightarrow> AllocationClass \<Rightarrow> bool" where
  "same_class ac' ac \<longleftrightarrow> ac_classId ac' = ac_classId ac \<and> ac_poolId ac' = ac_poolId ac \<and> ac_allocationSize ac' = ac_allocationSize ac"

lemma pool_shape_class: "pool_shape mp \<Longrightarrow> i < length (mp_ac mp) \<Longrightarrow> same_class ac' (mp_ac mp ! i) \<Longrightarrow>
  pool_shape (mp\<lparr>mp_ac := (mp_ac mp)[i := ac']\<rparr>)"
  by (auto simp: pool_shape_def same_class_def map_update) (metis length_map list_update_id nth_map)

lemma pool_shape_length: "pool_shape mp \<Longrightarrow> length (mp_ac mp) \<le> 128"
  by (simp add: pool_shape_def)

lemma pool_inv_class:
  assumes inv: "pool_inv (mp, sa) live orphans used fl" and i: "i < length (mp_ac mp)"
    and same: "same_class ac' (mp_ac mp ! i)" and cs: "class_slabs ac' (orphans i) = class_slabs (mp_ac mp ! i) (orphans i)"
    and rel: "rel_inv (ac', sa) live' (orphans i) NoRelease"
    and n: "n = of_nat (card live' * unat (ac_allocationSize ac')) - of_nat (card (live i) * unat (ac_allocationSize ac'))"
  shows "pool_inv (mp\<lparr>mp_ac := (mp_ac mp)[i := ac'], mp_currAllocSize := mp_currAllocSize mp + n\<rparr>, sa) (live(i := live')) orphans used fl"
    (is "pool_inv (?mp, sa) ?live _ _ _")
proof (rule pool_invI)
  note I = pool_invD [OF inv] and S = same [unfolded same_class_def]
  have ac: "mp_ac ?mp ! j = (if j = i then ac' else mp_ac mp ! j)" for j using i by simp
  have "pool_shape (mp\<lparr>mp_ac := (mp_ac mp)[i := ac']\<rparr>)" by (rule pool_shape_class [OF I(1) i same])
  then show "pool_shape ?mp" by (simp add: pool_shape_def)
  show "class_part ?mp sa ?live orphans used j" if "j < length (mp_ac ?mp)" for j
    using I(3) [of j] that rel S cs i by (cases "j = i") (auto simp: class_part_def)
  have "slabs_of ?mp orphans = slabs_of mp orphans" unfolding slabs_of_def using i cs by (intro sum.cong) (auto simp: nth_list_update)
  then show "mp_currSlabAllocSize ?mp = of_nat (kSize * (slabs_of ?mp orphans + length fl))" using I(7) by simp
  have "live_bytes ?mp ?live + card (live i) * unat (ac_allocationSize (mp_ac mp ! i)) =
      live_bytes mp live + card live' * unat (ac_allocationSize ac')"
    using sum_change [OF i, of "\<lambda>j. card (?live j) * unat (ac_allocationSize (mp_ac ?mp ! j))"
        "\<lambda>j. card (live j) * unat (ac_allocationSize (mp_ac mp ! j))"] i
    by (simp add: live_bytes_def ac)
  from word_change [OF this] show "mp_currAllocSize ?mp = of_nat (live_bytes ?mp ?live)"
    using S n I(8) by simp
qed (use pool_invD [OF inv] in auto)

lemma allocate_frame:
  assumes "rel_inv (ac, sa) live orphans NoRelease" and "allocate (ac, sa) = (p, s)"
  shows "\<exists>ac'. s = (ac', sa) \<and> same_class ac' ac \<and> class_slabs ac' orphans = class_slabs ac orphans \<and>
    rel_inv (ac', sa) (set_option p \<union> live) orphans NoRelease \<and> set_option p \<inter> live = {}"
proof (cases "ac_canAllocate ac")
  case True
  obtain ac' where r: "allocateLocked ac = (p, ac')" "s = (ac', sa)"
    using True assms(2) by (auto simp: allocate_def split: prod.splits)
  have "same_class ac' ac" using r(1)
    by (auto simp: allocateLocked_def allocateFromCurrentSlabLocked_def setupCurrentSlabLocked_def same_class_def Let_def split: if_splits)
  moreover have "set_option p \<inter> live = {}"
    using allocateLocked_ok [OF rel_invD(1) [OF assms(1)] r(1)] by (cases p) auto
  ultimately show ?thesis using r alloc_keeps [OF assms(1) r(1)] allocateLocked_frame(3) [OF r(1)] by blast
next
  case False
  then show ?thesis using assms by (auto simp: allocate_def same_class_def)
qed

lemma add_alloc_card:
  assumes "finite live" and "set_option p \<inter> live = {}"
  shows "card (set_option p \<union> live) * n = card live * n + (if p = None then 0 else n)"
  using assms by (cases p) auto

lemma allocate_pool:
  assumes inv: "pool_inv s live orphans used fl" and i: "i < length (mp_ac (fst s))"
    and run: "on_ac i allocate s = (p, s')"
    and n: "n = (if p = None then 0 else ucast (ac_allocationSize (mp_ac (fst s) ! i)))"
  shows "pool_inv (add_currAllocSize n s') (live(i := set_option p \<union> live i)) orphans used fl"
    and "set_option p \<inter> live i = {}" and "ac_allocationSize (mp_ac (fst s') ! i) = ac_allocationSize (mp_ac (fst s) ! i)"
    and "length (mp_ac (fst s')) = length (mp_ac (fst s))" and "mp_id (fst s') = mp_id (fst s)"
proof -
  obtain mp sa where s: "s = (mp, sa)" by force
  note I = pool_invD [OF inv [unfolded s]]
  have i': "i < length (mp_ac mp)" using i s by simp
  have rel: "rel_inv (mp_ac mp ! i, sa) (live i) (orphans i) NoRelease" using I(3) [OF i'] by (simp add: class_part_def)
  obtain q t where q: "allocate (mp_ac mp ! i, sa) = (q, t)" by (rule prod.exhaust)
  from allocate_frame [OF rel q] obtain ac' where A: "t = (ac', sa)" "same_class ac' (mp_ac mp ! i)"
    "class_slabs ac' (orphans i) = class_slabs (mp_ac mp ! i) (orphans i)"
    "rel_inv (ac', sa) (set_option q \<union> live i) (orphans i) NoRelease" "set_option q \<inter> live i = {}" by blast
  have R: "p = q" "s' = (mp\<lparr>mp_ac := (mp_ac mp)[i := ac']\<rparr>, sa)" using run q A(1) by (auto simp: on_ac_def s)
  have "n = of_nat (card (set_option q \<union> live i) * unat (ac_allocationSize ac')) - of_nat (card (live i) * unat (ac_allocationSize ac'))"
    using n A(2) by (simp add: s R(1) same_class_def add_alloc_card [OF live_finite [OF rel] A(5)] of_nat_unat)
  from pool_inv_class [OF inv [unfolded s] i' A(2-4) this]
  show "pool_inv (add_currAllocSize n s') (live(i := set_option p \<union> live i)) orphans used fl"
    by (simp add: R add_currAllocSize_def)
  show "set_option p \<inter> live i = {}" using A(5) R by simp
  show "ac_allocationSize (mp_ac (fst s') ! i) = ac_allocationSize (mp_ac (fst s) ! i)" "length (mp_ac (fst s')) = length (mp_ac (fst s))"
    "mp_id (fst s') = mp_id (fst s)"
    using A(2) i' by (simp_all add: R s same_class_def)
qed


section \<open>Slabs on their way\<close>

lemma idle_apart:
  assumes "pool_inv (mp, sa) live orphans used fl" and "i < length (mp_ac mp)" and "idle_header pid (header_of sa s)"
  shows "s \<notin> class_slabs (mp_ac mp ! i) (orphans i)"
  using idle_not_in_class [OF pool_invD(3) [OF assms(1,2)] _ assms(3)] pool_shape_length [OF pool_invD(1) [OF assms(1)]] assms(2) by simp

lemma unclaimed:
  assumes "pool_inv (mp, sa) live orphans used fl" and "i < length (mp_ac mp)"
    and "classId h = kInvalidClassId \<or> (\<exists>j < length (mp_ac mp). j \<noteq> i \<and> classId h = of_nat j)"
  shows "\<not> claims (mp_ac mp ! i) h"
proof -
  have "j \<le> 127" if "j < length (mp_ac mp)" for j using that pool_shape_length [OF pool_invD(1) [OF assms(1)]] by simp
  then show ?thesis using assms(2,3) pool_invD(3) [OF assms(1,2)] of_nat_class_valid [of i] of_nat_class_inj
    by (auto simp: claims_def class_part_def)
qed

lemma pool_inv_touches:
  assumes inv: "pool_inv (mp, sa) live orphans used fl" and t: "touches sa s sa'"
    and s: "\<And>i. i < length (mp_ac mp) \<Longrightarrow> s \<notin> class_slabs (mp_ac mp ! i) (orphans i)"
    and h: "classId (header_of sa' s) = kInvalidClassId"
    and sa': "sa_inv sa' used'" "used - {s} \<subseteq> used'"
    and mp: "mp_ac mp' = mp_ac mp" "mp_id mp' = mp_id mp" "mp_acSizes mp' = mp_acSizes mp" "mp_currAllocSize mp' = mp_currAllocSize mp"
      "mp_currSlabAllocSize mp' = of_nat (kSize * (slabs_of mp orphans + length fl'))"
    and f: "distinct (fl' @ mp_freeSlabs mp')" "set fl' \<union> set (mp_freeSlabs mp') - {s} \<subseteq> set fl \<union> set (mp_freeSlabs mp)"
      "s \<in> set fl' \<union> set (mp_freeSlabs mp') \<Longrightarrow> s \<in> used' \<and> idle_header (mp_id mp) (header_of sa' s)"
  shows "pool_inv (mp', sa') live orphans used' fl'"
proof (rule pool_invI)
  note I = pool_invD [OF inv]
  show "pool_shape mp'" using I(1) mp by (simp add: pool_shape_def)
  show "class_part mp' sa' live orphans used' i" if "i < length (mp_ac mp')" for i
    by (rule class_part_touches [OF I(3) _ t s unclaimed [OF inv] sa'(2)])
       (use that mp h pool_shape_length [OF I(1)] in auto)
  have old: "u \<in> used' \<and> idle_header (mp_id mp') (header_of sa' u)" if "u \<in> set fl' \<union> set (mp_freeSlabs mp')" for u
  proof (cases "u = s")
    case False
    then have u: "u \<in> set fl \<union> set (mp_freeSlabs mp)" using f(2) that by blast
    have "u \<in> carved sa" using I(5) [OF u] sa_invD(6) [OF I(2)] by blast
    then show ?thesis using I(5,6) [OF u] touchesD(4) [OF t _ False] sa'(2) False mp by auto
  qed (use f(3) that mp in auto)
  then show "\<And>u. u \<in> set fl' \<union> set (mp_freeSlabs mp') \<Longrightarrow> u \<in> used'"
    "\<And>u. u \<in> set fl' \<union> set (mp_freeSlabs mp') \<Longrightarrow> idle_header (mp_id mp') (header_of sa' u)" by blast+
  show "mp_currAllocSize mp' = of_nat (live_bytes mp' live)" using I(8) mp by (simp add: live_bytes_def)
  show "mp_currSlabAllocSize mp' = of_nat (kSize * (slabs_of mp' orphans + length fl'))" using mp by (simp add: slabs_of_def)
qed (use sa' f in auto)

text \<open>The pool's own lists change.\<close>

lemma pool_inv_lists:
  assumes inv: "pool_inv (mp, sa) live orphans used fl"
    and mp: "mp_ac mp' = mp_ac mp" "mp_id mp' = mp_id mp" "mp_acSizes mp' = mp_acSizes mp" "mp_currAllocSize mp' = mp_currAllocSize mp"
      "mp_currSlabAllocSize mp' = of_nat (kSize * (slabs_of mp orphans + length fl'))"
    and f: "distinct (fl' @ mp_freeSlabs mp')" "set fl' \<union> set (mp_freeSlabs mp') \<subseteq> set fl \<union> set (mp_freeSlabs mp)"
  shows "pool_inv (mp', sa) live orphans used fl'"
  by (rule pool_invI) (use pool_invD [OF inv] mp f in \<open>auto simp: class_part_def pool_shape_def slabs_of_def live_bytes_def\<close>)

lemma new_header_idle: "idle_header pid (new_SlabHeader pid)"
  by (simp add: idle_header_def new_SlabHeader_def isMarkedForRelease_def SlabHeader_isFlagSet_def)


lemma getSlabLocked_pool:
  assumes inv: "pool_inv s live orphans used fl" and run: "getSlabLocked s = (p, s')"
  shows "\<exists>used'. used \<subseteq> used' \<and> pool_inv s' live orphans used' (case p of None \<Rightarrow> fl | Some slab \<Rightarrow> slab # fl)"
proof -
  obtain mp sa where s: "s = (mp, sa)" by force
  note inv' = inv [unfolded s]
  note I = pool_invD [OF inv']
  let ?mp1 = "mp\<lparr>mp_currSlabAllocSize := mp_currSlabAllocSize mp + sizeof_Slab\<rparr>"
  consider (full) "p = None" "s' = s"
    | (own) "mp_freeSlabs mp \<noteq> []" "p = Some (last (mp_freeSlabs mp))" "s' = (?mp1\<lparr>mp_freeSlabs := butlast (mp_freeSlabs mp)\<rparr>, sa)"
    | (none) sa' where "makeNewSlab (mp_id mp) sa = (None, sa')" "p = None" "s' = (mp, sa')"
    | (new) slab sa' where "makeNewSlab (mp_id mp) sa = (Some slab, sa')" "p = Some slab" "s' = (?mp1, sa')"
    using run by (auto simp: getSlabLocked_def s Let_def split: if_splits prod.splits option.splits)
  then show ?thesis
  proof cases
    case full
    then show ?thesis using inv by auto
  next
    case own
    obtain xs x where fs: "mp_freeSlabs mp = xs @ [x]" using own(1) by (metis rev_exhaust)
    have "pool_inv s' live orphans used (x # fl)" unfolding own(3)
      by (rule pool_inv_lists [OF inv']) (use I(4,7) in \<open>auto simp: fs sizeof_Slab_def\<close>)
    then show ?thesis using own(2) fs by auto
  next
    case none
    have "elsewhere (mp_ac mp ! i, sa) (orphans i) sa'" if "i < length (mp_ac mp)" for i
      using makeNewSlab_None_same [OF none(1)] rel_invD(2) [of "mp_ac mp ! i" sa "live i" "orphans i" NoRelease] I(3) [OF that] sa_invD(1) [OF I(2)]
      by (auto simp: elsewhere_def class_part_def)
    then have "class_part mp sa' live orphans used i" if "i < length (mp_ac mp)" for i
      using I(3) [OF that] others_keep [of "mp_ac mp ! i" sa "live i" "orphans i" NoRelease sa'] that by (simp add: class_part_def)
    moreover have "header_of sa' = header_of sa" using makeNewSlab_None_same [OF none(1)] by auto
    ultimately have "pool_inv (mp, sa') live orphans used fl"
      using I makeNewSlab_None [OF I(2) none(1)] by (intro pool_invI) auto
    then show ?thesis using none by auto
  next
    case new
    note N = makeNewSlab_Some [OF I(2) new(1)] and t = makeNewSlab_touches [OF I(2) new(1)]
    have h: "idle_header (mp_id mp) (header_of sa' slab)" using N new_header_idle by simp
    have out: "slab \<notin> set fl \<union> set (mp_freeSlabs mp)" using N I(5) by blast
    have "pool_inv (?mp1, sa') live orphans (insert slab used) (slab # fl)"
    proof (rule pool_inv_touches [OF inv' t])
      show "slab \<notin> class_slabs (mp_ac mp ! i) (orphans i)" if "i < length (mp_ac mp)" for i
        using I(3) [OF that] N by (auto simp: class_part_def)
      show "mp_currSlabAllocSize ?mp1 = of_nat (kSize * (slabs_of mp orphans + length (slab # fl)))"
        using I(7) by (simp add: sizeof_Slab_def)
    qed (use N h out I(4) in \<open>auto simp: idle_header_def\<close>)
    then show ?thesis using new by auto
  qed
qed

lemma addSlab_pool:
  assumes inv: "pool_inv (mp, sa) live orphans used (slab # fl)" and i: "i < length (mp_ac mp)"
    and run: "addSlabLocked slab (mp_ac mp ! i, sa) = (ac', sa')"
  shows "pool_inv (mp\<lparr>mp_ac := (mp_ac mp)[i := ac']\<rparr>, sa') live orphans used fl" (is "pool_inv (?mp, sa') _ _ _ _")
    and "available ac'" "same_class ac' (mp_ac mp ! i)"
proof -
  note I = pool_invD [OF inv]
  let ?ac = "mp_ac mp ! i" and ?f = "\<lambda>h. h\<lparr>classId := ac_classId (mp_ac mp ! i), allocSize := ac_allocationSize (mp_ac mp ! i)\<rparr>"
  have C: "ac_classId ?ac = of_nat i" "ac_poolId ?ac = mp_id mp" "rel_inv (?ac, sa) (live i) (orphans i) NoRelease"
    "class_slabs ?ac (orphans i) \<subseteq> used" using I(3) [OF i] by (auto simp: class_part_def)
  have slab: "slab \<in> used" "idle_header (mp_id mp) (header_of sa slab)" using I(5,6) [of slab] by auto
  have car: "slab \<in> carved sa" and g: "sa_geometry sa" using slab(1) sa_invD(1,6) [OF I(2)] by blast+
  have out: "slab \<notin> class_slabs (mp_ac mp ! j) (orphans j)" if "j < length (mp_ac mp)" for j by (rule idle_apart [OF inv that slab(2)])
  have same: "same_class ac' ?ac" and av: "available ac'" and cs: "class_slabs ac' (orphans i) = insert slab (class_slabs ?ac (orphans i))"
    and sa': "sa' = write_header slab ?f sa"
    using run by (auto simp: addSlabLocked_def same_class_def available_def class_slabs_def owned_slabs_def)
  show "available ac'" "same_class ac' ?ac" by (fact av same)+
  note W = write_header_carved [OF g car, where f = ?f, folded sa'] and t = touches_write [OF g car, where f = ?f, folded sa']
  have inv1: "sa_inv sa' used"
    by (rule sa_step_inv [OF _ I(2)]) (unfold W(1), rule sa_step.header [OF slab(1)], simp add: isAdvised_def SlabHeader_isFlagSet_def)
  have "rel_inv (ac', sa') (live i) (orphans i) NoRelease"
    using add_keeps [OF C(3), of slab] run out [OF i] slab(2) car C(2) by (simp add: fresh_slab_def idle_header_def)
  then have ci: "class_part ?mp sa' live orphans used i" using C same cs slab(1) i by (auto simp: class_part_def same_class_def)
  have cj: "class_part ?mp sa' live orphans used j" if "j < length (mp_ac mp)" "j \<noteq> i" for j
  proof (rule class_part_touches [OF I(3) [OF that(1)] _ t out [OF that(1)]])
    show "\<not> claims (mp_ac mp ! j) (header_of sa' slab)"
      by (rule unclaimed [OF inv that(1)]) (use W(4) [of slab] car C(1) i that(2) in auto)
  qed (use that pool_shape_length [OF I(1)] in auto)
  have "slabs_of ?mp orphans + card (class_slabs ?ac (orphans i)) = slabs_of mp orphans + card (class_slabs ac' (orphans i))"
    using sum_change [OF i, of "\<lambda>j. card (class_slabs (mp_ac ?mp ! j) (orphans j))" "\<lambda>j. card (class_slabs (mp_ac mp ! j) (orphans j))"] i
    by (simp add: slabs_of_def)
  then have n: "slabs_of ?mp orphans = Suc (slabs_of mp orphans)"
    using cs out [OF i] class_slabs_finite [OF C(3)] by simp
  show "pool_inv (?mp, sa') live orphans used fl"
  proof (rule pool_invI)
    show "pool_shape ?mp" by (rule pool_shape_class [OF I(1) i same])
    show "class_part ?mp sa' live orphans used j" if "j < length (mp_ac ?mp)" for j using ci cj that by (cases "j = i") auto
    have "live_bytes ?mp live = live_bytes mp live"
      unfolding live_bytes_def using same i by (intro sum.cong) (auto simp: nth_list_update same_class_def)
    then show "mp_currAllocSize ?mp = of_nat (live_bytes ?mp live)" using I(8) by simp
    show "mp_currSlabAllocSize ?mp = of_nat (kSize * (slabs_of ?mp orphans + length fl))" using I(7) n by simp
    show "u \<in> used" if "u \<in> set fl \<union> set (mp_freeSlabs ?mp)" for u using I(5) [of u] that by auto
    show "idle_header (mp_id ?mp) (header_of sa' u)" if "u \<in> set fl \<union> set (mp_freeSlabs ?mp)" for u
    proof -
      have "u \<noteq> slab" "u \<in> used" "idle_header (mp_id mp) (header_of sa u)" using I(4) I(5,6) [of u] that by auto
      moreover have "u \<in> carved sa" using \<open>u \<in> used\<close> sa_invD(6) [OF I(2)] by blast
      ultimately show ?thesis using W(4) [of u] by simp
    qed
  qed (use inv1 I(4) in auto)
qed


section \<open>The operations keep the accounts\<close>

lemma addSlabAndAllocate_split:
  assumes "addSlabLocked slab (mp_ac mp ! i, sa) = (ac1, sa1)" and "i < length (mp_ac mp)" and "ac_canAllocate ac1"
  shows "on_ac i (addSlabAndAllocate slab) (mp, sa) = on_ac i allocate (mp\<lparr>mp_ac := (mp_ac mp)[i := ac1]\<rparr>, sa1)"
  using assms by (simp add: on_ac_def addSlabAndAllocate_def allocate_def split: prod.splits)

lemma addSlabAndAllocate_pool:
  assumes inv: "pool_inv s live orphans used (slab # fl)" and i: "i < length (mp_ac (fst s))"
    and run: "on_ac i (addSlabAndAllocate slab) s = (p, s')"
  shows "\<exists>x. p = Some x \<and> x \<notin> live i \<and>
    pool_inv (add_currAllocSize (ucast (ac_allocationSize (mp_ac (fst s) ! i))) s') (live(i := insert x (live i))) orphans used fl"
proof -
  obtain mp sa where s: "s = (mp, sa)" by force
  obtain ac1 sa1 where a: "addSlabLocked slab (mp_ac mp ! i, sa) = (ac1, sa1)" by (rule prod.exhaust)
  have i': "i < length (mp_ac mp)" using i s by simp
  note A = addSlab_pool [OF inv [unfolded s] i' a]
  have can: "ac_canAllocate ac1" using a by (auto simp: addSlabLocked_def)
  have run': "on_ac i allocate (mp\<lparr>mp_ac := (mp_ac mp)[i := ac1]\<rparr>, sa1) = (p, s')"
    using run addSlabAndAllocate_split [OF a i' can] s by simp
  obtain q ac2 where q: "allocateLocked ac1 = (q, ac2)" by (rule prod.exhaust)
  have "p = q" using run' q i' can by (simp add: on_ac_def allocate_def)
  then obtain x where p: "p = Some x" using allocateLocked_available [OF q can] A(2) by auto
  have sz: "ac_allocationSize ac1 = ac_allocationSize (mp_ac mp ! i)" using A(3) by (simp add: same_class_def)
  have i'': "i < length (mp_ac (fst (mp\<lparr>mp_ac := (mp_ac mp)[i := ac1]\<rparr>, sa1)))" using i' by simp
  note B = allocate_pool(1,2) [OF A(1) i'' run' refl]
  show ?thesis using B p i' sz by (auto simp: s)
qed

text \<open>What allocating may do to the accounts: at most one allocation is added, to the class of the size.\<close>

definition allocated :: "ptr \<Rightarrow> nat \<Rightarrow> mps \<Rightarrow> (nat \<Rightarrow> addr set) \<Rightarrow> (nat \<Rightarrow> addr set) \<Rightarrow> addr set \<Rightarrow> addr list \<Rightarrow> bool" where
  "allocated p i s live orphans used fl \<longleftrightarrow> set_option p \<inter> live i = {} \<and>
     (\<exists>used'. used \<subseteq> used' \<and> pool_inv s (live(i := set_option p \<union> live i)) orphans used' fl)"

lemma allocatedI: "set_option p \<inter> live i = {} \<Longrightarrow> pool_inv s (live(i := set_option p \<union> live i)) orphans used fl \<Longrightarrow> allocated p i s live orphans used fl"
  unfolding allocated_def by blast

lemma add_zero [simp]: "add_currAllocSize 0 s = s"
  by (cases s) (simp add: add_currAllocSize_def)

lemma class_index:
  "pool_shape mp \<Longrightarrow> getAllocationClassFor_size sz mp = Inr i \<Longrightarrow> i < length (mp_ac mp) \<and> sz \<le> ac_allocationSize (mp_ac mp ! i)"
proof -
  assume S: "pool_shape mp" and g: "getAllocationClassFor_size sz mp = Inr i"
  have i: "i = nat (sint (of_nat (lower_bound (mp_acSizes mp) sz) :: ClassId))" and l: "sz \<le> last (mp_acSizes mp)"
    using g by (auto simp: getAllocationClassFor_size_def getAllocationClassId_size_def not_le split: if_splits)
  have len: "length (mp_acSizes mp) = length (mp_ac mp)" using S by (metis length_map pool_shape_def)
  have b: "lower_bound (mp_acSizes mp) sz < length (mp_acSizes mp)"
    using lower_bound_last [of "mp_acSizes mp" sz] S l by (simp add: pool_shape_def)
  then have "i = lower_bound (mp_acSizes mp) sz" using i sint_of_nat_byte [of "lower_bound (mp_acSizes mp) sz"] pool_shape_length [OF S] len by simp
  moreover have "\<not> mp_acSizes mp ! lower_bound (mp_acSizes mp) sz < sz"
    using b nth_length_takeWhile unfolding lower_bound_def by blast
  moreover have "mp_acSizes mp ! j = ac_allocationSize (mp_ac mp ! j)" if "j < length (mp_ac mp)" for j
    using S that by (metis nth_map pool_shape_def)
  ultimately show ?thesis using b len by (simp add: not_less)
qed

text \<open>Other threads may do what keeps the accounts and the classes' sizes.\<close>

definition pool_other :: "(mps \<Rightarrow> mps) \<Rightarrow> (nat \<Rightarrow> addr set) \<Rightarrow> addr list \<Rightarrow> bool" where
  "pool_other other orphans fl \<longleftrightarrow> (\<forall>s live used. pool_inv s live orphans used fl \<longrightarrow>
     (\<exists>live' used'. pool_inv (other s) live' orphans used' fl) \<and>
     map ac_allocationSize (mp_ac (fst (other s))) = map ac_allocationSize (mp_ac (fst s)))"

text \<open>The slow path: a slab is taken and given to the class.\<close>

lemma slow_path_pool:
  assumes inv: "pool_inv s live orphans used fl" and i: "i < length (mp_ac (fst s))" and g: "getSlabLocked s = (g, s1)"
    and n: "n = ucast (ac_allocationSize (mp_ac (fst s) ! i))"
    and run: "(p, s') = (case g of None \<Rightarrow> (None, s1)
      | Some slab \<Rightarrow> let (p, s2) = on_ac i (addSlabAndAllocate slab) s1 in (p, add_currAllocSize n s2))"
  shows "\<exists>used'. used \<subseteq> used' \<and> allocated p i s' live orphans used' fl"
proof -
  from getSlabLocked_pool [OF inv g] obtain used'
    where sub: "used \<subseteq> used'" and inv1: "pool_inv s1 live orphans used' (case g of None \<Rightarrow> fl | Some slab \<Rightarrow> slab # fl)" by auto
  have ac: "mp_ac (fst s1) = mp_ac (fst s)" using g by (auto simp: getSlabLocked_def Let_def split: prod.splits if_splits option.splits)
  have "allocated p i s' live orphans used' fl"
  proof (cases g)
    case None
    then show ?thesis using inv1 run by (auto intro!: allocatedI)
  next
    case (Some slab)
    obtain r s4 where r: "on_ac i (addSlabAndAllocate slab) s1 = (r, s4)" by (rule prod.exhaust)
    have "pool_inv s1 live orphans used' (slab # fl)" "i < length (mp_ac (fst s1))" using inv1 Some ac i by simp_all
    from addSlabAndAllocate_pool [OF this r] ac show ?thesis using run n Some r by (auto intro!: allocatedI)
  qed
  then show ?thesis using sub by blast
qed

lemma allocate_keeps_pool:
  assumes inv: "pool_inv s live orphans used fl" and other: "pool_other other orphans fl"
    and run: "MemoryPool_allocate other sz s = (Inr p, s')" and gi: "getAllocationClassFor_size sz (fst s) = Inr i"
  shows "\<exists>live' used'. allocated p i s' live' orphans used' fl"
proof -
  have "pool_shape (fst s)" using pool_invD(1) inv by (metis prod.collapse)
  from class_index [OF this gi] have i: "i < length (mp_ac (fst s))" by simp
  obtain q s1 where q: "on_ac i allocate s = (q, s1)" by (rule prod.exhaust)
  note A = allocate_pool [OF inv i q refl]
  show ?thesis
  proof (cases "q \<noteq> None \<or> mp_allSlabsAllocated (fst s1)")
    case True
    then have "allocated p i s' live orphans used fl"
      using run q A by (auto simp: MemoryPool_allocate_def gi intro!: allocatedI split: if_splits)
    then show ?thesis by blast
  next
    case False
    have inv1: "pool_inv s1 live orphans used fl" using A(1) False by simp
    then obtain live2 used2 where inv2: "pool_inv (other s1) live2 orphans used2 fl"
      and m: "map ac_allocationSize (mp_ac (fst (other s1))) = map ac_allocationSize (mp_ac (fst s1))"
      using other unfolding pool_other_def by blast
    have i2: "i < length (mp_ac (fst (other s1)))" using m i A(4) by (metis length_map)
    have sz2: "ac_allocationSize (mp_ac (fst (other s1)) ! i) = ac_allocationSize (mp_ac (fst s1) ! i)"
      using m i2 i A(4) by (metis nth_map)
    obtain q2 s2 where q2: "on_ac i allocate (other s1) = (q2, s2)" by (rule prod.exhaust)
    note B = allocate_pool [OF inv2 i2 q2 refl]
    show ?thesis
    proof (cases "q2 = None")
      case q2n: True
      obtain g s3 where g: "getSlabLocked s2 = (g, s3)" by (rule prod.exhaust)
      have i3: "i < length (mp_ac (fst s2))" and inv3: "pool_inv s2 live2 orphans used2 fl" using B(1,4) i2 q2n by simp_all
      have "(p, s') = (case g of None \<Rightarrow> (None, s3) | Some slab \<Rightarrow>
          let (p, s4) = on_ac i (addSlabAndAllocate slab) s3 in (p, add_currAllocSize (ucast (ac_allocationSize (mp_ac (fst s1) ! i))) s4))"
        using run q False q2 q2n g by (auto simp: MemoryPool_allocate_def gi Let_def split: option.splits prod.splits)
      from slow_path_pool [OF inv3 i3 g _ this] B(3) sz2 show ?thesis by auto
    next
      case q2s: False
      have "allocated p i s' live2 orphans used2 fl"
        using run q False q2 q2s B sz2 by (auto simp: MemoryPool_allocate_def gi Let_def intro!: allocatedI)
      then show ?thesis by blast
    qed
  qed
qed


lemma freeAlloc_frame:
  assumes "freeAlloc x (ac, sa) = (r, s)"
  shows "\<exists>ac'. s = (ac', sa) \<and> same_class ac' ac \<and> class_slabs ac' orphans = class_slabs ac orphans"
proof -
  have "snd s = sa" "same_class (fst s) ac" "ac_allocatedSlabs (fst s) = ac_allocatedSlabs ac" "ac_freeSlabs (fst s) = ac_freeSlabs ac"
    using assms by (auto simp: freeAlloc_def Let_def same_class_def split: option.splits if_splits)
  moreover note freeAlloc_dom [OF assms]
  ultimately show ?thesis by (intro exI [of _ "fst s"]) (auto simp: class_slabs_def owned_slabs_def prod_eq_iff)
qed

lemma class_of_memory:
  assumes inv: "pool_inv (mp, sa) live orphans used fl" and i: "i < length (mp_ac mp)" and x: "x \<in> live i"
  shows "getAllocationClassFor_memory x (mp, sa) = Inr i"
proof -
  note I = pool_invD [OF inv]
  have C: "ac_classId (mp_ac mp ! i) = of_nat i" "ac_poolId (mp_ac mp ! i) = mp_id mp"
    "rel_inv (mp_ac mp ! i, sa) (live i) (orphans i) NoRelease" using I(3) [OF i] by (auto simp: class_part_def)
  note R = rel_invD [OF C(3)]
  from ac_ok_slab [OF R(5), of x] x obtain t where t: "t \<in> owned_slabs (mp_ac mp ! i) (orphans i)"
    "getSlabHeader_memory sa x = Some (slabIdx sa t)" by auto
  have h: "classId (sa_headers sa (slabIdx sa t)) = of_nat i" "poolId (sa_headers sa (slabIdx sa t)) = mp_id mp"
    using ac_shapeD(9) [OF R(6) t(1)] C by (auto simp: class_header_def header_of_def)
  have "i \<le> 127" using i pool_shape_length [OF I(1)] by simp
  then have "sint (of_nat i :: ClassId) = int i" by (simp add: signed_of_nat signed_take_bit_int_eq_self)
  then show ?thesis using i h t of_nat_class_valid [OF \<open>i \<le> 127\<close>]
    by (simp add: getAllocationClassFor_memory_def getAllocationClassId_memory_def Let_def)
qed

lemma free_keeps_pool:
  assumes inv: "pool_inv s live orphans used fl" and i: "i < length (mp_ac (fst s))" and x: "x \<in> live i"
  shows "\<exists>s'. MemoryPool_free x s = (Inr (), s') \<and> pool_inv s' (live(i := live i - {x})) orphans used fl"
proof -
  obtain mp sa where s: "s = (mp, sa)" by force
  have i': "i < length (mp_ac mp)" using i s by simp
  note inv' = inv [unfolded s]
  have rel: "rel_inv (mp_ac mp ! i, sa) (live i) (orphans i) NoRelease"
    using pool_invD(3) [OF inv' i'] by (simp add: class_part_def)
  obtain r t where r: "freeAlloc x (mp_ac mp ! i, sa) = (r, t)" by (rule prod.exhaust)
  from freeAlloc_frame [OF r] obtain ac' where A: "t = (ac', sa)" "same_class ac' (mp_ac mp ! i)"
    "class_slabs ac' (orphans i) = class_slabs (mp_ac mp ! i) (orphans i)" by blast
  note F = free_keeps [OF rel x r]
  have rel': "rel_inv (ac', sa) (live i - {x}) (orphans i) NoRelease" using F A(1) by simp
  have "card (live i) = Suc (card (live i - {x}))" using x live_finite [OF rel] by (metis card_Suc_Diff1)
  then have "- ucast (ac_allocationSize ac') = of_nat (card (live i - {x}) * unat (ac_allocationSize ac')) -
      (of_nat (card (live i) * unat (ac_allocationSize ac')) :: u64)"
    by (simp add: algebra_simps of_nat_unat)
  from pool_inv_class [OF inv' i' A(2,3) rel' this]
  show ?thesis using class_of_memory [OF inv' i' x] r F A(1) i'
    by (simp add: MemoryPool_free_def s on_ac_def add_currAllocSize_def)
qed

text \<open>Handing on a slab that has left its class; the receiver of a rebalancing must exist.\<close>

lemma releaseSlab_pool:
  assumes inv: "pool_inv s live orphans used (slab # fl)" and run: "releaseSlab ok mode slab receiver s = (r, s')"
    and rc: "mode = kRebalance \<Longrightarrow> receiver \<noteq> kInvalidClassId \<Longrightarrow> getAllocationClassFor receiver (fst s) \<noteq> Inl invalid_argument"
  shows "r = Inr () \<and> (\<exists>used'. pool_inv s' live orphans used' fl)"
proof -
  obtain mp sa where s: "s = (mp, sa)" by force
  note inv' = inv [unfolded s]
  note I = pool_invD [OF inv']
  have slab: "slab \<in> used" "idle_header (mp_id mp) (header_of sa slab)" using I(5,6) [of slab] by auto
  have car: "slab \<in> carved sa" and g: "sa_geometry sa" using slab(1) sa_invD(1,6) [OF I(2)] by blast+
  have out: "slab \<notin> class_slabs (mp_ac mp ! j) (orphans j)" if "j < length (mp_ac mp)" for j by (rule idle_apart [OF inv' that slab(2)])
  have sz: "mp_currSlabAllocSize mp - sizeof_Slab = of_nat (kSize * (slabs_of mp orphans + length fl))"
    using I(7) by (simp add: sizeof_Slab_def)
  have d: "slab \<notin> set fl \<union> set (mp_freeSlabs mp)" "distinct (fl @ mp_freeSlabs mp)" using I(4) by auto
  show ?thesis
  proof (cases mode)
    case kResize
    obtain sa' where f: "freeSlab slab sa = Inr sa'" "sa_inv sa' (used - {slab})" using freeSlab_inv [OF I(2) slab(1)] by blast
    note t = freeSlab_touches [OF g car f(1)]
    let ?mp = "mp\<lparr>mp_currSlabAllocSize := mp_currSlabAllocSize mp - sizeof_Slab, mp_nSlabResize := mp_nSlabResize mp + 1\<rparr>"
    have "pool_inv (?mp, sa') live orphans (used - {slab}) fl"
      by (rule pool_inv_touches [OF inv' t(1) out _ f(2)]) (use sz d t(2) in \<open>auto simp: resetAllocInfo_def\<close>)
    then show ?thesis using run f(1) kResize s by (auto simp: releaseSlab_def)
  next
    case kAdvise
    obtain b sa' where f: "adviseSlab ok slab sa = Inr (b, sa')" "sa_inv sa' (if b then used - {slab} else used)"
      using adviseSlab_inv [OF I(2) slab(1)] by blast
    note t = adviseSlab_touches [OF g car f(1)]
    have c: "classId (header_of sa' slab) = kInvalidClassId" using t(2) slab(2) by (simp add: idle_header_def)
    define mp1 where "mp1 = (if b then mp\<lparr>mp_curSlabsAdvised := mp_curSlabsAdvised mp + 1\<rparr> else mp\<lparr>mp_freeSlabs := mp_freeSlabs mp @ [slab]\<rparr>)"
    have "pool_inv (mp1\<lparr>mp_currSlabAllocSize := mp_currSlabAllocSize mp1 - sizeof_Slab\<rparr>, sa') live orphans (if b then used - {slab} else used) fl"
      by (rule pool_inv_touches [OF inv' t(1) out c f(2)])
         (use sz d t(2,3) slab in \<open>auto simp: mp1_def idle_header_def\<close>)
    then show ?thesis using run f(1) kAdvise s by (auto simp: releaseSlab_def Let_def mp1_def)
  next
    case kRebalance
    show ?thesis
    proof (cases "receiver = kInvalidClassId")
      case True
      let ?mp = "mp\<lparr>mp_freeSlabs := mp_freeSlabs mp @ [slab], mp_currSlabAllocSize := mp_currSlabAllocSize mp - sizeof_Slab,
        mp_nSlabRebalance := mp_nSlabRebalance mp + 1\<rparr>"
      have "pool_inv (?mp, sa) live orphans used fl"
        by (rule pool_inv_lists [OF inv']) (use sz d in auto)
      then show ?thesis using run kRebalance True s by (auto simp: releaseSlab_def)
    next
      case False
      then obtain i where i: "getAllocationClassFor receiver mp = Inr i" "i < length (mp_ac mp)"
        using rc kRebalance s by (auto simp: getAllocationClassFor_def split: if_splits)
      obtain ac' sa' where a: "addSlabLocked slab (mp_ac mp ! i, sa) = (ac', sa')" by (rule prod.exhaust)
      let ?mp = "mp\<lparr>mp_ac := (mp_ac mp)[i := ac']\<rparr>"
      have J: "pool_inv (?mp, sa') live orphans used fl" by (rule addSlab_pool [OF inv' i(2) a])
      have "pool_inv (?mp\<lparr>mp_nSlabRebalance := mp_nSlabRebalance mp + 1\<rparr>, sa') live orphans used fl"
        by (rule pool_inv_lists [OF J]) (use pool_invD(4,7) [OF J] in auto)
      then show ?thesis using run kRebalance False i(1) a s by (auto simp: releaseSlab_def on_ac_def addSlab_def)
    qed
  qed
qed

lemma reclaim_pool:
  assumes "pool_inv s live orphans used fl" and "reclaimSlabsAndGrow n s = (k, s')"
  shows "\<exists>used'. pool_inv s' live orphans used' fl"
  using assms
proof (induction n s arbitrary: used k rule: reclaimSlabsAndGrow.induct)
  case (2 n mp sa)
  note I = pool_invD [OF "2.prems"(1)]
  show ?case
  proof (cases "reclaimSlab (mp_id mp) sa")
    case (Pair p sa')
    show ?thesis
    proof (cases p)
      case None
      then have "sa' = sa" using Pair by (auto simp: reclaimSlab_def split: list.splits)
      then show ?thesis using "2.prems" Pair None by auto
    next
      case (Some slab)
      let ?mp = "mp\<lparr>mp_freeSlabs := mp_freeSlabs mp @ [slab], mp_curSlabsAdvised := mp_curSlabsAdvised mp - 1\<rparr>"
      note run = Pair [unfolded Some]
      note N = reclaimSlab_Some [OF I(2) run] and t = reclaimSlab_touches [OF I(2) run]
      have h: "idle_header (mp_id mp) (header_of sa' slab)" using N new_header_idle by simp
      have out: "slab \<notin> set fl \<union> set (mp_freeSlabs mp)" using N I(5) by blast
      have J: "pool_inv (?mp, sa') live orphans (insert slab used) fl"
      proof (rule pool_inv_touches [OF "2.prems"(1) t])
        show "slab \<notin> class_slabs (mp_ac mp ! i) (orphans i)" if "i < length (mp_ac mp)" for i
          using I(3) [OF that] N by (auto simp: class_part_def)
      qed (use N h out I(4,7) in \<open>auto simp: idle_header_def\<close>)
      obtain k2 s2 where r: "reclaimSlabsAndGrow n (?mp, sa') = (k2, s2)" by (rule prod.exhaust)
      have "s2 = s'" using "2.prems"(2) run r by simp
      then show ?thesis using "2.IH" [OF run [symmetric] refl J] r by blast
    qed
  qed
qed auto


section \<open>A new pool\<close>

lemma createAllocationClasses_ok:
  assumes "createAllocationClasses pid sa (of_nat k) sizes = Inr acs" and "k \<le> 128"
  shows "length acs = length sizes \<and> k + length sizes \<le> 128 \<and>
    (\<forall>j < length sizes. AllocationClass_new (of_nat (k + j)) pid (sizes ! j) sa = Inr (acs ! j))"
  using assms
proof (induction sizes arbitrary: k acs)
  case (Cons sz sizes)
  from Cons.prems(1) obtain ac acs' where n: "AllocationClass_new (of_nat k) pid sz sa = Inr ac"
    and c: "createAllocationClasses pid sa (of_nat k + 1) sizes = Inr acs'" and acs: "acs = ac # acs'"
    by (auto simp: ebind_Inr_iff split: if_splits)
  have "k \<noteq> 128" using new_class(2) [OF n] by auto
  then have "Suc k \<le> 128" using Cons.prems(2) by simp
  have "createAllocationClasses pid sa (of_nat (Suc k)) sizes = Inr acs'" using c by (simp add: add.commute)
  from Cons.IH [OF this \<open>Suc k \<le> 128\<close>] n show ?case by (auto simp: acs nth_Cons ac_simps split: nat.splits)
qed auto

lemma new_pool_inv:
  assumes inv: "sa_inv sa used" and new: "MemoryPool_new pid poolSize sizes sa = Inr mp"
    and fresh: "\<forall>t \<in> carved sa. poolId (header_of sa t) \<noteq> pid"
  shows "pool_inv (mp, sa) (\<lambda>_. {}) (\<lambda>_. {}) used []"
proof -
  from new obtain acs where c: "createAllocationClasses pid sa (of_nat 0) (sorted_list_of_set sizes) = Inr acs"
    and mp: "mp_id mp = pid" "mp_ac mp = acs" "mp_acSizes mp = sorted_list_of_set sizes" "mp_freeSlabs mp = []"
      "mp_currSlabAllocSize mp = 0" "mp_currAllocSize mp = 0"
    and ck: "MemoryPool_checkState (mp, sa) = Inr ()"
    by (auto simp: MemoryPool_new_def Let_def ebind_Inr_iff)
  note C = createAllocationClasses_ok [OF c]
  have new_ac: "AllocationClass_new (of_nat j) pid (sorted_list_of_set sizes ! j) sa = Inr (acs ! j)" if "j < length acs" for j
    using C that by simp
  have part: "class_part mp sa (\<lambda>_. {}) (\<lambda>_. {}) used j" and none: "class_slabs (acs ! j) {} = {}" if j: "j < length acs" for j
  proof -
    note N = new_class(1) [OF new_ac [OF j]]
    have "machine_inv (start_machine (acs ! j) sa)"
      by (rule start_inv [OF new_ac [OF j] sa_invD(1) [OF inv]]) (use fresh in \<open>auto simp: claims_def N\<close>)
    then show "class_slabs (acs ! j) {} = {}" "class_part mp sa (\<lambda>_. {}) (\<lambda>_. {}) used j"
      by (auto simp: class_part_def machine_inv_def start_machine_def N mp class_slabs_def owned_slabs_def)
  qed
  have "map ac_allocationSize acs = sorted_list_of_set sizes"
    using C new_class(1) [OF new_ac] by (intro nth_equalityI) auto
  then have "pool_shape mp" using ck C by (auto simp: pool_shape_def mp MemoryPool_checkState_def split: if_splits)
  then show ?thesis
    using inv part by (intro pool_invI) (auto simp: mp slabs_of_def live_bytes_def none)
qed

section \<open>Properties\<close>


definition new_example_pool :: MemoryPool where
  "new_example_pool = \<lparr>mp_id = 5, mp_maxSize = 2 * sizeof_Slab, mp_currSlabAllocSize = 0, mp_currAllocSize = 0, mp_freeSlabs = [],
     mp_acSizes = [2097152], mp_ac = [example_ac], mp_curSlabsAdvised = 0, mp_nSlabResize = 0, mp_nSlabRebalance = 0,
     mp_nSlabReleaseAborted = 0\<rparr>"

lemma example_sa_facts: "sa_inv example_sa {}" "carved example_sa = {}" "getSlabHeader_slab example_sa 0 = None"
proof -
  show i: "sa_inv example_sa {}" using sa_reachable_inv [OF example_reachable(1)] by simp
  show c: "carved example_sa = {}" using sa_invD(6) [OF i] by (simp add: example_sa_def)
  show "getSlabHeader_slab example_sa 0 = None"
    using valid_iff_carved [OF sa_invD(1) [OF i]] by (simp add: getSlabHeader_slab_def c)
qed

lemma new_example: "MemoryPool_new 5 (2 * sizeof_Slab) {2097152} example_sa = Inr new_example_pool"
proof -
  have "AllocationClass_new 0 5 2097152 example_sa = Inr example_ac"
    by (simp add: AllocationClass_new_def AllocationClass_checkState_def example_ac_def sizeof_FreeAlloc_def
        kSize_def kNumSlabBits_def Let_def example_sa_facts)
  then show ?thesis
    by (simp add: MemoryPool_new_def new_example_pool_def MemoryPool_checkState_def Let_def kMinAllocSize_def kMinAllocPower_def kSize_def kNumSlabBits_def)
       (simp add: example_ac_def)
qed


text \<open>
  C37. Releasing a slab of the pool that no class uses (a resize without a victim class) gives the slab
  back but also takes it off the counter of slab memory, which had not counted it: the counter is
  one slab short of what the classes own. When they own none, it wraps around to one slab below zero.
\<close>

theorem resize_from_free_slabs_miscounts:
  assumes inv: "pool_inv s live orphans used []" and fs: "mp_freeSlabs (fst s) \<noteq> []"
  shows "\<exists>ctx s' used'. MemoryPool_startSlabRelease rnd abort other id ok kInvalidClassId kInvalidClassId kResize hint zero s = (Inr ctx, s') \<and>
     ctx_slab ctx = last (mp_freeSlabs (fst s)) \<and> sa_inv (snd s') used' \<and> used' = used - {last (mp_freeSlabs (fst s))} \<and>
     mp_ac (fst s') = mp_ac (fst s) \<and>
     mp_currSlabAllocSize (fst s') = of_nat (kSize * slabs_of (fst s') orphans) - sizeof_Slab \<and>
     \<not> pool_inv s' live orphans used' [] \<and>
     (slabs_of (fst s) orphans = 0 \<longrightarrow> mp_currSlabAllocSize (fst s') = - sizeof_Slab)"
proof -
  obtain mp sa where s: "s = (mp, sa)" by force
  note I = pool_invD [OF inv [unfolded s]]
  obtain xs x where x: "mp_freeSlabs mp = xs @ [x]" using fs s by (metis fst_conv rev_exhaust)
  have "x \<in> used" using I(5) [of x] x by simp
  from freeSlab_inv [OF I(2) this] obtain sa' where f: "freeSlab x sa = Inr sa'" "sa_inv sa' (used - {x})" by blast
  let ?mp = "mp\<lparr>mp_freeSlabs := xs, mp_currSlabAllocSize := mp_currSlabAllocSize mp - sizeof_Slab, mp_nSlabResize := mp_nSlabResize mp + 1\<rparr>"
  let ?ctx = "setZeroOnRelease zero (setReceiver kInvalidClassId (SlabReleaseContext_mode zero x (mp_id mp) kInvalidClassId [] kResize))"
  have run: "MemoryPool_startSlabRelease rnd abort other id ok kInvalidClassId kInvalidClassId kResize hint zero s = (Inr ?ctx, (?mp, sa'))"
    using f(1) by (simp add: MemoryPool_startSlabRelease_def releaseFromFreeSlabs_def s x Let_def releaseSlab_def setZeroOnRelease_def
        setReceiver_def SlabReleaseContext_mode_def isReleased_def)
  have n: "mp_currSlabAllocSize ?mp = of_nat (kSize * slabs_of ?mp orphans) - sizeof_Slab" using I(7) by (simp add: slabs_of_def)
  have "sizeof_Slab \<noteq> 0" by (simp add: sizeof_Slab_def kSize_def kNumSlabBits_def)
  then have "\<not> pool_inv (?mp, sa') live orphans (used - {x}) []" using pool_invD(7) [of ?mp sa' live orphans "used - {x}" "[]"] n by auto
  then show ?thesis
    using run n f(2) by (intro exI [of _ ?ctx] exI [of _ "(?mp, sa')"] exI [of _ "used - {x}"])
      (auto simp: s x setZeroOnRelease_def setReceiver_def SlabReleaseContext_mode_def slabs_of_def)
qed

text \<open>A pool whose only slab has left its class for the free slabs.\<close>

definition example_pool2 :: MemoryPool where
  "example_pool2 = new_example_pool\<lparr>mp_freeSlabs := [2 * kSize], mp_nSlabRebalance := 1\<rparr>"

lemma example_pool2_inv: "\<exists>used. pool_inv (example_pool2, example_sa1) (\<lambda>_. {}) (\<lambda>_. {}) used []"
proof -
  let ?s = "(new_example_pool\<lparr>mp_currSlabAllocSize := sizeof_Slab\<rparr>, example_sa1)"
  have "pool_inv (new_example_pool, example_sa) (\<lambda>_. {}) (\<lambda>_. {}) {} []"
    by (rule new_pool_inv [OF example_sa_facts(1) new_example]) (simp add: example_sa_facts)
  moreover have "getSlabLocked (new_example_pool, example_sa) = (Some (2 * kSize), ?s)"
    by (simp add: getSlabLocked_def mp_allSlabsAllocated_def getPoolAdvisedSize_def new_example_pool_def example_sa_make sizeof_Slab_def
        kSize_def kNumSlabBits_def)
  ultimately obtain used where u: "pool_inv ?s (\<lambda>_. {}) (\<lambda>_. {}) used [2 * kSize]" using getSlabLocked_pool by fastforce
  have "releaseSlab True kRebalance (2 * kSize) kInvalidClassId ?s = (Inr (), (example_pool2, example_sa1))"
    by (simp add: releaseSlab_def example_pool2_def new_example_pool_def)
  from releaseSlab_pool [OF u this] show ?thesis by simp
qed

theorem resize_from_free_slabs_miscounts_witness:
  "mp_freeSlabs (fst (example_pool2, example_sa1)) \<noteq> [] \<and>
   (\<exists>ctx s'. MemoryPool_startSlabRelease (\<lambda>_. 0) (\<lambda>_. False) (\<lambda>_ s. s) id True kInvalidClassId kInvalidClassId kResize None False
       (example_pool2, example_sa1) = (Inr ctx, s') \<and> mp_currSlabAllocSize (fst s') = - sizeof_Slab)"
proof -
  obtain used where u: "pool_inv (example_pool2, example_sa1) (\<lambda>_. {}) (\<lambda>_. {}) used []" using example_pool2_inv by blast
  have f: "mp_freeSlabs (fst (example_pool2, example_sa1)) \<noteq> []" by (simp add: example_pool2_def)
  have "slabs_of example_pool2 (\<lambda>_. {}) = 0"
    by (simp add: slabs_of_def example_pool2_def new_example_pool_def example_ac_def class_slabs_def owned_slabs_def)
  then show ?thesis
    using resize_from_free_slabs_miscounts [OF u f, of "\<lambda>_. 0" "\<lambda>_. False" "\<lambda>_ s. s" True None False] f by auto
qed

end
