(* ===== verification/MemoryAllocator.thy ===== *)
theory MemoryAllocator
  imports MemoryPoolManager
begin

text \<open>
  The memory allocator (\<open>MemoryAllocator.h\<close>, \<open>MemoryAllocator.cpp\<close>): the interface of the memory
  subsystem, with the slab allocator and the pool manager behind it. The file defines the operations;
  that the pools do not interfere with each other is shown in the theory \<open>PoolIsolation\<close>, and the generators of
  allocation sizes are in the theory \<open>AllocSizes\<close>.
\<close>

section \<open>The allocator\<close>

definition kMaxClasses :: nat where "kMaxClasses = 128"
definition kAlignment :: u32 where "kAlignment = 8"

record MemoryAllocator_Config =
  cf_allocSizes :: "u32 set"
  cf_enableZeroedSlabAllocs :: bool
  cf_disableFullCoredump :: bool
  cf_lockMemory :: bool

record MemoryAllocator =
  ma_config :: MemoryAllocator_Config
  ma_slabAllocator :: SlabAllocator
  ma_memoryPoolManager :: MemoryPoolManager

definition checkConfig :: "MemoryAllocator_Config \<Rightarrow> exn + unit" where
  "checkConfig config = (if card (cf_allocSizes config) > kMaxClasses then Inl invalid_argument else Inr ())"

definition slab_config :: "MemoryAllocator_Config \<Rightarrow> SlabAllocator_Config" where
  "slab_config config = \<lparr>excludeFromCoredump = cf_disableFullCoredump config, lockMemory = cf_lockMemory config\<rparr>"

text \<open>Both constructors: on memory of the caller, or (\<open>owns\<close>) on memory mapped for the allocator.\<close>

definition MemoryAllocator_new ::
  "MemoryAllocator_Config \<Rightarrow> addr \<Rightarrow> size_t \<Rightarrow> bool \<Rightarrow> bool \<Rightarrow> (SlabIdx \<Rightarrow> SlabHeader) \<Rightarrow> exn + MemoryAllocator" where
  "MemoryAllocator_new config memoryStart memSize owns madvise_ok hdrs =
     ebind (SlabAllocator_new memoryStart memSize owns (slab_config config) madvise_ok hdrs) (\<lambda>sa.
     ebind (checkConfig config) (\<lambda>_.
       Inr \<lparr>ma_config = config, ma_slabAllocator = sa, ma_memoryPoolManager = MemoryPoolManager_new\<rparr>))"

definition ma_state :: "MemoryAllocator \<Rightarrow> pms" where
  "ma_state ma = (ma_memoryPoolManager ma, ma_slabAllocator ma)"

definition set_state :: "pms \<Rightarrow> MemoryAllocator \<Rightarrow> MemoryAllocator" where
  "set_state s ma = ma\<lparr>ma_memoryPoolManager := fst s, ma_slabAllocator := snd s\<rparr>"

text \<open>An operation on the pool with an id, which may throw.\<close>

definition with_pool :: "PoolId \<Rightarrow> (mps \<Rightarrow> (exn + 'r) \<times> mps) \<Rightarrow> MemoryAllocator \<Rightarrow> (exn + 'r) \<times> MemoryAllocator" where
  "with_pool pid f ma =
     (case getPoolById pid (ma_memoryPoolManager ma) of
        Inl e \<Rightarrow> (Inl e, ma)
      | Inr i \<Rightarrow> (case on_pool i f (ma_state ma) of (r, s) \<Rightarrow> (r, set_state s ma)))"

definition MemoryAllocator_allocate :: "(mps \<Rightarrow> mps) \<Rightarrow> PoolId \<Rightarrow> u32 \<Rightarrow> MemoryAllocator \<Rightarrow> (exn + ptr) \<times> MemoryAllocator" where
  "MemoryAllocator_allocate other pid sz = with_pool pid (MemoryPool_allocate other sz)"

definition MemoryAllocator_allocateZeroedSlab :: "(mps \<Rightarrow> mps) \<Rightarrow> PoolId \<Rightarrow> MemoryAllocator \<Rightarrow> (exn + ptr) \<times> MemoryAllocator" where
  "MemoryAllocator_allocateZeroedSlab other pid ma =
     (if \<not> cf_enableZeroedSlabAllocs (ma_config ma) then (Inl logic_error, ma) else with_pool pid (allocateZeroedSlab other) ma)"

definition addPool :: "string \<Rightarrow> size_t \<Rightarrow> u32 set \<Rightarrow> bool \<Rightarrow> MemoryAllocator \<Rightarrow> (exn + PoolId) \<times> MemoryAllocator" where
  "addPool name sz allocSizes ensureProvisionable ma =
     (let poolAllocSizes = (if allocSizes = {} then cf_allocSizes (ma_config ma) else allocSizes)
      in if card poolAllocSizes > kMaxClasses then (Inl invalid_argument, ma)
         else if ensureProvisionable \<and> sizeof_Slab * of_nat (card poolAllocSizes) > sz then (Inl invalid_argument, ma)
         else (case createNewPool name sz poolAllocSizes (ma_state ma) of (r, s) \<Rightarrow> (r, set_state s ma)))"

definition getPoolId :: "string \<Rightarrow> MemoryAllocator \<Rightarrow> PoolId" where
  "getPoolId name ma =
     (case getPoolByName name (ma_memoryPoolManager ma) of
        Inl _ \<Rightarrow> kInvalidPoolId
      | Inr i \<Rightarrow> mp_id (pm_pools (ma_memoryPoolManager ma) ! i))"

definition getMemoryPool :: "addr \<Rightarrow> MemoryAllocator \<Rightarrow> exn + nat" where
  "getMemoryPool memory ma =
     (case getSlabHeader_memory (ma_slabAllocator ma) memory of
        None \<Rightarrow> Inl invalid_argument
      | Some h \<Rightarrow> getPoolById (poolId (sa_headers (ma_slabAllocator ma) h)) (ma_memoryPoolManager ma))"

definition MemoryAllocator_free :: "addr \<Rightarrow> MemoryAllocator \<Rightarrow> (exn + unit) \<times> MemoryAllocator" where
  "MemoryAllocator_free memory ma =
     (case getMemoryPool memory ma of
        Inl e \<Rightarrow> (Inl e, ma)
      | Inr i \<Rightarrow> (case on_pool i (MemoryPool_free memory) (ma_state ma) of (r, s) \<Rightarrow> (r, set_state s ma)))"

definition MemoryAllocator_getAllocationClassId :: "PoolId \<Rightarrow> u32 \<Rightarrow> MemoryAllocator \<Rightarrow> exn + ClassId" where
  "MemoryAllocator_getAllocationClassId pid sz ma =
     ebind (getPoolById pid (ma_memoryPoolManager ma)) (\<lambda>i. getAllocationClassId_size sz (pm_pools (ma_memoryPoolManager ma) ! i))"

definition getAllocInfo :: "addr \<Rightarrow> MemoryAllocator \<Rightarrow> exn + AllocInfo" where
  "getAllocInfo memory ma =
     (case getSlabHeader_memory (ma_slabAllocator ma) memory of
        None \<Rightarrow> Inl invalid_argument
      | Some h \<Rightarrow> (let hdr = sa_headers (ma_slabAllocator ma) h
                  in Inr \<lparr>ai_poolId = poolId hdr, ai_classId = classId hdr, ai_allocSize = ucast (allocSize hdr)\<rparr>))"

definition getAllocSize :: "PoolId \<Rightarrow> ClassId \<Rightarrow> MemoryAllocator \<Rightarrow> exn + u32" where
  "getAllocSize pid cid ma =
     ebind (getPoolById pid (ma_memoryPoolManager ma)) (\<lambda>i.
       let mp = pm_pools (ma_memoryPoolManager ma) ! i
       in ebind (getAllocationClassFor cid mp) (\<lambda>j. Inr (ac_allocationSize (mp_ac mp ! j))))"

definition getMemorySize :: "MemoryAllocator \<Rightarrow> size_t" where
  "getMemorySize ma = ucast (getNumUsableSlabs (ma_slabAllocator ma)) * sizeof_Slab"

definition getMemorySizeInclAdvised :: "MemoryAllocator \<Rightarrow> size_t" where
  "getMemorySizeInclAdvised ma = ucast (getNumUsableAndAdvisedSlabs (ma_slabAllocator ma)) * sizeof_Slab"

definition MemoryAllocator_reclaimSlabsAndGrow :: "PoolId \<Rightarrow> nat \<Rightarrow> MemoryAllocator \<Rightarrow> (exn + u32) \<times> MemoryAllocator" where
  "MemoryAllocator_reclaimSlabsAndGrow pid n = with_pool pid (\<lambda>s. let (k, s') = reclaimSlabsAndGrow n s in (Inr k, s'))"

section \<open>Releasing slabs\<close>

definition MemoryAllocator_startSlabRelease ::
  "(nat \<Rightarrow> nat) \<Rightarrow> (nat \<Rightarrow> bool) \<Rightarrow> (nat \<Rightarrow> acs \<Rightarrow> acs) \<Rightarrow> (mps \<Rightarrow> mps) \<Rightarrow> bool \<Rightarrow> PoolId \<Rightarrow> ClassId \<Rightarrow> ClassId \<Rightarrow> SlabReleaseMode \<Rightarrow> ptr \<Rightarrow>
     MemoryAllocator \<Rightarrow> (exn + SlabReleaseContext) \<times> MemoryAllocator" where
  "MemoryAllocator_startSlabRelease rnd abort other meanwhile madvise_ok pid victim receiver mode hint ma =
     with_pool pid (MemoryPool_startSlabRelease rnd abort other meanwhile madvise_ok victim receiver mode hint
       (cf_enableZeroedSlabAllocs (ma_config ma))) ma"

definition with_class :: "SlabReleaseContext \<Rightarrow> (acs \<Rightarrow> exn + 'r) \<Rightarrow> MemoryAllocator \<Rightarrow> exn + 'r" where
  "with_class ctx f ma =
     ebind (getPoolById (ctx_pid ctx) (ma_memoryPoolManager ma)) (\<lambda>i.
       let mp = pm_pools (ma_memoryPoolManager ma) ! i
       in ebind (getAllocationClassFor (ctx_victim ctx) mp) (\<lambda>j. f (mp_ac mp ! j, ma_slabAllocator ma)))"

definition MemoryAllocator_isAllocFreed :: "SlabReleaseContext \<Rightarrow> addr \<Rightarrow> MemoryAllocator \<Rightarrow> exn + bool" where
  "MemoryAllocator_isAllocFreed ctx memory = with_class ctx (isAllocFreed ctx memory)"

definition allAllocsFreed :: "SlabReleaseContext \<Rightarrow> MemoryAllocator \<Rightarrow> exn + bool" where
  "allAllocsFreed ctx = with_class ctx (allFreed (ctx_slab ctx))"

definition MemoryAllocator_processAllocForRelease ::
  "SlabReleaseContext \<Rightarrow> addr \<Rightarrow> (addr \<Rightarrow> 'b \<Rightarrow> 'b) \<Rightarrow> MemoryAllocator \<Rightarrow> 'b \<Rightarrow> exn + 'b" where
  "MemoryAllocator_processAllocForRelease ctx memory callback ma b =
     with_class ctx (\<lambda>s. processAllocForRelease ctx memory callback s b) ma"

definition MemoryAllocator_completeSlabRelease ::
  "(nat \<Rightarrow> acs \<Rightarrow> acs) \<Rightarrow> (mps \<Rightarrow> mps) \<Rightarrow> bool \<Rightarrow> SlabReleaseContext \<Rightarrow> MemoryAllocator \<Rightarrow> ((exn + unit) \<times> MemoryAllocator) option" where
  "MemoryAllocator_completeSlabRelease other meanwhile madvise_ok ctx ma =
     (case getPoolById (ctx_pid ctx) (ma_memoryPoolManager ma) of
        Inl e \<Rightarrow> Some (Inl e, ma)
      | Inr i \<Rightarrow>
          (case MemoryPool_completeSlabRelease other meanwhile madvise_ok ctx (pm_pools (ma_memoryPoolManager ma) ! i, ma_slabAllocator ma) of
             None \<Rightarrow> None
           | Some (r, (mp, sa)) \<Rightarrow>
               Some (r, ma\<lparr>ma_memoryPoolManager := (ma_memoryPoolManager ma)\<lparr>pm_pools := (pm_pools (ma_memoryPoolManager ma))[i := mp]\<rparr>,
                           ma_slabAllocator := sa\<rparr>)))"

definition MemoryAllocator_abortSlabRelease :: "SlabReleaseContext \<Rightarrow> MemoryAllocator \<Rightarrow> (exn + unit) \<times> MemoryAllocator" where
  "MemoryAllocator_abortSlabRelease ctx = with_pool (ctx_pid ctx) (MemoryPool_abortSlabRelease ctx)"

text \<open>Iteration over all slabs; \<open>locked\<close> tells for each slab whether the try-lock of its class succeeds.\<close>

fun forEach_slabs ::
  "(nat \<Rightarrow> bool) \<Rightarrow> (addr \<Rightarrow> AllocInfo \<Rightarrow> 'b \<Rightarrow> bool \<times> 'b) \<Rightarrow> MemoryAllocator \<Rightarrow> nat list \<Rightarrow> u64 \<Rightarrow> 'b \<Rightarrow> exn + u64 \<times> 'b" where
  "forEach_slabs locked callback ma [] skipped b = Inr (skipped, b)"
| "forEach_slabs locked callback ma (idx # idxs) skipped b =
     (let sa = ma_slabAllocator ma; slab = getSlabForIdx sa (of_nat idx)
      in case getSlabHeader_slab sa slab of
           None \<Rightarrow> forEach_slabs locked callback ma idxs skipped b
         | Some h \<Rightarrow>
             (let hdr = sa_headers sa h
              in if poolId hdr = kInvalidPoolId \<or> classId hdr = kInvalidClassId \<or> isAdvised hdr \<or> isMarkedForRelease hdr
                 then forEach_slabs locked callback ma idxs (skipped + 1) b
                 else ebind (getPoolById (poolId hdr) (ma_memoryPoolManager ma)) (\<lambda>i.
                      ebind (MemoryPool_forEachAllocation (locked idx) (classId hdr) slab callback
                               (pm_pools (ma_memoryPoolManager ma) ! i, sa) b) (\<lambda>(status, b').
                        case status of
                          kSkippedCurrentSlabAndContinue \<Rightarrow> forEach_slabs locked callback ma idxs (skipped + 1) b'
                        | kAbortIteration \<Rightarrow> Inr (skipped, b')
                        | kFinishedCurrentSlabAndContinue \<Rightarrow> forEach_slabs locked callback ma idxs skipped b'))))"

definition MemoryAllocator_forEachAllocation ::
  "(nat \<Rightarrow> bool) \<Rightarrow> (addr \<Rightarrow> AllocInfo \<Rightarrow> 'b \<Rightarrow> bool \<times> 'b) \<Rightarrow> MemoryAllocator \<Rightarrow> 'b \<Rightarrow> exn + u64 \<times> 'b" where
  "MemoryAllocator_forEachAllocation locked callback ma b =
     forEach_slabs locked callback ma [0..<unat (getNumUsableSlabs (ma_slabAllocator ma))] 0 b"

section \<open>Saving and restoring\<close>

record MemoryAllocatorObject =
  mo_allocSizes :: "u64 set"
  mo_enableZeroedSlabAllocs :: bool
  mo_lockMemory :: bool
  mo_slabAllocator :: SlabAllocatorObject
  mo_memoryPoolManager :: MemoryPoolManagerObject

definition MemoryAllocator_saveState :: "MemoryAllocator \<Rightarrow> exn + MemoryAllocatorObject" where
  "MemoryAllocator_saveState ma =
     ebind (saveState (ma_slabAllocator ma)) (\<lambda>so.
     ebind (MemoryPoolManager_saveState (ma_state ma)) (\<lambda>pmo.
       Inr \<lparr>mo_allocSizes = ucast ` cf_allocSizes (ma_config ma),
            mo_enableZeroedSlabAllocs = cf_enableZeroedSlabAllocs (ma_config ma), mo_lockMemory = cf_lockMemory (ma_config ma),
            mo_slabAllocator = so, mo_memoryPoolManager = pmo\<rparr>))"

definition MemoryAllocator_restore ::
  "MemoryAllocatorObject \<Rightarrow> addr \<Rightarrow> size_t \<Rightarrow> bool \<Rightarrow> bool \<Rightarrow> (SlabIdx \<Rightarrow> SlabHeader) \<Rightarrow> exn + MemoryAllocator" where
  "MemoryAllocator_restore object memoryStart memSize disableCoredump madvise_ok hdrs =
     (let config = \<lparr>cf_allocSizes = ucast ` mo_allocSizes object, cf_enableZeroedSlabAllocs = mo_enableZeroedSlabAllocs object,
                    cf_disableFullCoredump = disableCoredump, cf_lockMemory = mo_lockMemory object\<rparr>
      in ebind (SlabAllocator_restore (mo_slabAllocator object) memoryStart memSize (slab_config config) madvise_ok hdrs) (\<lambda>sa.
         ebind (MemoryPoolManager_restore (mo_memoryPoolManager object) sa) (\<lambda>pm.
         ebind (checkConfig config) (\<lambda>_.
           Inr \<lparr>ma_config = config, ma_slabAllocator = sa, ma_memoryPoolManager = pm\<rparr>))))"

end
