(* ===== verification/AllocSizes.thy ===== *)
theory AllocSizes
  imports MemoryAllocator
begin

text \<open>
  The generators of allocation sizes (\<open>MemoryAllocator.cpp\<close>, \<open>MemoryAllocator.h\<close>, \<open>common/Utils.h\<close>) in
  the 32-bit arithmetic of the code, and that what they generate is valid for a pool.
\<close>

section \<open>The generators\<close>

definition getAlignedSize :: "u32 \<Rightarrow> u32 \<Rightarrow> u32" where
  "getAlignedSize sz alignment = (let r = sz mod alignment in if r = 0 then sz else sz + alignment - r)"

definition getAlignedSizeDown :: "u32 \<Rightarrow> u32 \<Rightarrow> u32" where
  "getAlignedSizeDown sz alignment = sz - sz mod alignment"

definition isValidAllocSize :: "u32 \<Rightarrow> bool" where
  "isValidAllocSize sz \<longleftrightarrow> \<not> unat sz < kMinAllocSize \<and> \<not> unat sz > kSize \<and> sz mod kAlignment = 0"

definition maximizeAllocSize :: "u32 \<Rightarrow> u32 \<Rightarrow> u32 \<Rightarrow> u32" where
  "maximizeAllocSize sz slabSize alignment =
     (let perSlab = slabSize div sz; maxAllocSize = slabSize div perSlab in maxAllocSize - maxAllocSize mod alignment)"

definition slab_size :: u32 where "slab_size = of_nat kSize"

definition validateAndClampItemSizeRange :: "u32 \<Rightarrow> u32 \<Rightarrow> exn + u32 \<times> u32" where
  "validateAndClampItemSizeRange minItemSize maxItemSize =
     (if minItemSize > maxItemSize then Inl invalid_argument
      else if unat maxItemSize > kSize then Inl invalid_argument
      else Inr (max minItemSize (of_nat kMinAllocSize), max maxItemSize (of_nat kMinAllocSize)))"

text \<open>
  \<open>grow\<close> is \<open>static_cast<uint32_t>(size * factor)\<close>, \<open>factor_ok\<close> whether the factor is above 1; dividing
  by a size of zero is undefined.
\<close>

partial_function (option) nextSize_loop :: "(u32 \<Rightarrow> u32) \<Rightarrow> u32 \<Rightarrow> u32 \<Rightarrow> (exn + u32) option" where
  "nextSize_loop grow prevSize tmpPrevSize =
     (let newSize = getAlignedSize (grow tmpPrevSize) kAlignment
      in if newSize = tmpPrevSize then Some (Inl invalid_argument)
         else if unat newSize > kSize then Some (Inr newSize)
         else if newSize = 0 then Some (Inl undefined_behaviour)
         else if slab_size div newSize = slab_size div prevSize then nextSize_loop grow prevSize newSize
         else Some (Inr (maximizeAllocSize newSize slab_size kAlignment)))"

definition nextSize :: "(u32 \<Rightarrow> u32) \<Rightarrow> u32 \<Rightarrow> (exn + u32) option" where
  "nextSize grow prevSize = nextSize_loop grow prevSize prevSize"

partial_function (option) generate_loop :: "(u32 \<Rightarrow> u32) \<Rightarrow> bool \<Rightarrow> u32 \<Rightarrow> u32 \<Rightarrow> u32 set \<Rightarrow> (exn + u32 set) option" where
  "generate_loop grow reduceFragmentation maxSize sz allocSizes =
     (if \<not> sz < maxSize then Some (Inr allocSizes)
      else if sz = 0 then Some (Inl undefined_behaviour)
      else if slab_size div sz \<le> 1 then Some (Inr allocSizes)
      else if reduceFragmentation then
        Option.bind (nextSize grow sz) (\<lambda>r. case r of
           Inl e \<Rightarrow> Some (Inl e)
         | Inr next \<Rightarrow> generate_loop grow reduceFragmentation maxSize next (insert sz allocSizes))
      else
        (let next = getAlignedSize (grow sz) kAlignment
         in if next = sz then Some (Inl invalid_argument)
            else generate_loop grow reduceFragmentation maxSize next (insert sz allocSizes)))"

definition generateAllocSizes :: "bool \<Rightarrow> (u32 \<Rightarrow> u32) \<Rightarrow> u32 \<Rightarrow> u32 \<Rightarrow> bool \<Rightarrow> (exn + u32 set) option" where
  "generateAllocSizes factor_ok grow maxSize minSize reduceFragmentation =
     (if unat maxSize > kSize then Some (Inl invalid_argument)
      else if \<not> factor_ok then Some (Inl invalid_argument)
      else Option.bind (generate_loop grow reduceFragmentation maxSize minSize {}) (\<lambda>r. Some (case r of
             Inl e \<Rightarrow> Inl e
           | Inr allocSizes \<Rightarrow> Inr (insert (getAlignedSize maxSize kAlignment) allocSizes))))"

definition optimal_size :: "u32 \<Rightarrow> u32 \<Rightarrow> u32 \<Rightarrow> u32 \<Rightarrow> u32" where
  "optimal_size minItemSize maxItemSize minAllocsPerSlab i =
     (let allocSize = slab_size div i; alignedSize = getAlignedSizeDown allocSize kAlignment
      in if alignedSize < minItemSize \<or> i = minAllocsPerSlab \<and> maxItemSize > alignedSize
         then maximizeAllocSize (getAlignedSize allocSize kAlignment) slab_size kAlignment
         else alignedSize)"

fun optimal_loop :: "(u32 \<Rightarrow> u32) \<Rightarrow> nat list \<Rightarrow> u32 set \<Rightarrow> exn + u32 set" where
  "optimal_loop f [] allocSizes = Inr allocSizes"
| "optimal_loop f (i # is) allocSizes =
     (let allocSizes' = insert (f (of_nat i)) allocSizes
      in if card allocSizes' > kMaxClasses then Inl runtime_error else optimal_loop f is allocSizes')"

definition generateOptimalAllocSizesForItemRange :: "u32 \<Rightarrow> u32 \<Rightarrow> exn + u32 set" where
  "generateOptimalAllocSizesForItemRange minItemSize maxItemSize =
     ebind (validateAndClampItemSizeRange minItemSize maxItemSize) (\<lambda>(lo, hi).
       let minAllocsPerSlab = slab_size div hi; maxAllocsPerSlab = slab_size div lo
       in optimal_loop (optimal_size lo hi minAllocsPerSlab) [unat minAllocsPerSlab..<Suc (unat maxAllocsPerSlab)] {})"

definition even_size :: "u32 \<Rightarrow> u32 \<Rightarrow> u32 \<Rightarrow> u32 \<Rightarrow> u32" where
  "even_size minItemSize maxItemSize numClassesToAdd i =
     (let rangeSize = maxItemSize - minItemSize; offset = rangeSize * i div numClassesToAdd; itemSize = maxItemSize - offset
      in maximizeAllocSize (getAlignedSize itemSize kAlignment) slab_size kAlignment)"

definition generateEvenlyDistributedAllocSizes :: "u32 \<Rightarrow> u32 \<Rightarrow> u32 \<Rightarrow> exn + u32 set" where
  "generateEvenlyDistributedAllocSizes minItemSize maxItemSize numClassesToAdd =
     ebind (validateAndClampItemSizeRange minItemSize maxItemSize) (\<lambda>(lo, hi).
       if numClassesToAdd < 1 then Inl invalid_argument
       else if unat numClassesToAdd > kMaxClasses then Inl invalid_argument
       else Inr (set (map (\<lambda>i. even_size lo hi numClassesToAdd (of_nat i)) [0..<unat numClassesToAdd])))"

section \<open>Rounding\<close>

text \<open>The rounding functions on natural numbers.\<close>

lemma unat_kAlignment: "unat kAlignment = 8"
  by (simp add: kAlignment_def)

lemma unat_slab_size: "unat slab_size = 4194304"
  by (simp add: slab_size_def kSize_def kNumSlabBits_def)

lemma kSize_val: "kSize = 4194304"
  by (simp add: kSize_def kNumSlabBits_def)

lemma unat_down: "unat (getAlignedSizeDown s kAlignment) = unat s - unat s mod 8"
proof -
  have "unat (s mod kAlignment) = unat s mod 8" by (simp add: unat_mod unat_kAlignment)
  moreover have "s mod kAlignment \<le> s" by (simp add: word_le_nat_alt unat_mod)
  ultimately show ?thesis by (simp add: getAlignedSizeDown_def unat_sub)
qed

definition roundup8 :: "nat \<Rightarrow> nat" where
  "roundup8 n = (if n mod 8 = 0 then n else n + (8 - n mod 8))"

lemma roundup8: "n \<le> roundup8 n" "roundup8 n < n + 8" "n mod 8 = 0 \<Longrightarrow> roundup8 n = n"
  using mod_less_divisor [of 8 n] unfolding roundup8_def by (simp_all del: mod_less_divisor) linarith+

lemma roundup8_mod: "roundup8 n mod 8 = 0"
proof -
  have "n + (8 - n mod 8) = 8 * (n div 8) + 8" using mult_div_mod_eq [of 8 n] mod_less_divisor [of 8 n] by linarith
  then show ?thesis by (simp add: roundup8_def)
qed

lemma roundup8_le: "n \<le> m \<Longrightarrow> m mod 8 = 0 \<Longrightarrow> roundup8 n \<le> m"
proof -
  assume a: "n \<le> m" "m mod 8 = 0"
  obtain k where k: "roundup8 n = 8 * k" using roundup8_mod by (metis mod_0_imp_dvd dvdE)
  obtain l where l: "m = 8 * l" using a(2) by (metis mod_0_imp_dvd dvdE)
  have "8 * k < 8 * l + 8" using roundup8(2) [of n] a(1) k l by linarith
  then show ?thesis using k l by simp
qed

lemma unat_up: "unat s \<le> 2 ^ 32 - 8 \<Longrightarrow> unat (getAlignedSize s kAlignment) = roundup8 (unat s)"
proof -
  assume s: "unat s \<le> 2 ^ 32 - 8"
  have m: "unat (s mod kAlignment) = unat s mod 8" by (simp add: unat_mod unat_kAlignment)
  show ?thesis
  proof (cases "unat s mod 8 = 0")
    case True
    then have "s mod kAlignment = 0" using m by (simp add: unat_eq_zero)
    then show ?thesis using True by (simp add: getAlignedSize_def roundup8_def)
  next
    case False
    have r: "s mod kAlignment \<noteq> 0" using False m by (metis unsigned_0)
    have "unat (s + (kAlignment - s mod kAlignment)) = unat s + (8 - unat s mod 8)"
    proof -
      have "s mod kAlignment \<le> kAlignment" unfolding word_le_nat_alt m unat_kAlignment by simp
      then have d: "unat (kAlignment - s mod kAlignment) = 8 - unat s mod 8" using m unat_kAlignment unat_sub by metis
      have "8 - unat s mod 8 < 8" using False by simp
      then have "unat s + (8 - unat s mod 8) < 2 ^ 32" using s by linarith
      then show ?thesis by (simp add: unat_word_ariths(1) d)
    qed
    moreover have "getAlignedSize s kAlignment = s + (kAlignment - s mod kAlignment)" using r by (simp add: getAlignedSize_def Let_def)
    ultimately show ?thesis using False by (simp add: roundup8_def)
  qed
qed

text \<open>Growing a size to the largest multiple of eight with the same number of allocations per slab.\<close>

lemma maximize:
  assumes "0 < unat s" and "unat s \<le> kSize" and "unat s mod 8 = 0"
  shows "unat s \<le> unat (maximizeAllocSize s slab_size kAlignment)" and "unat (maximizeAllocSize s slab_size kAlignment) \<le> kSize"
    and "unat (maximizeAllocSize s slab_size kAlignment) mod 8 = 0"
    and "kSize div unat (maximizeAllocSize s slab_size kAlignment) = kSize div unat s"
proof -
  let ?n = "kSize div unat s" and ?m = "kSize div (kSize div unat s)"
  have n: "0 < ?n" using assms(1,2) by (simp add: div_greater_zero_iff)
  have u: "unat (maximizeAllocSize s slab_size kAlignment) = ?m - ?m mod 8"
  proof -
    let ?w = "slab_size div (slab_size div s)"
    have w: "unat ?w = ?m" by (simp add: unat_div unat_slab_size kSize_val)
    have "unat (?w mod kAlignment) = ?m mod 8" by (simp add: unat_mod unat_kAlignment w)
    moreover have "?w mod kAlignment \<le> ?w" by (simp add: word_le_nat_alt unat_mod)
    ultimately show ?thesis using w by (simp add: maximizeAllocSize_def Let_def unat_sub)
  qed
  have sm: "unat s \<le> ?m" using n by (simp add: less_eq_div_iff_mult_less_eq)
  have "?m - ?m mod 8 = 8 * (?m div 8)" by (simp add: minus_mod_eq_mult_div)
  moreover have "unat s = 8 * (unat s div 8)" using assms(3) by presburger
  moreover have "unat s div 8 \<le> ?m div 8" using sm by (rule div_le_mono)
  ultimately show ge: "unat s \<le> unat (maximizeAllocSize s slab_size kAlignment)" unfolding u by linarith
  show "unat (maximizeAllocSize s slab_size kAlignment) \<le> kSize" unfolding u using div_le_dividend [of kSize ?n] by linarith
  show "unat (maximizeAllocSize s slab_size kAlignment) mod 8 = 0" unfolding u by (simp add: minus_mod_eq_mult_div)
  show "kSize div unat (maximizeAllocSize s slab_size kAlignment) = ?n"
  proof (rule antisym)
    show "kSize div unat (maximizeAllocSize s slab_size kAlignment) \<le> ?n" by (rule div_le_mono2 [OF assms(1) ge])
    have "?n * ?m \<le> kSize" by simp
    then have "?n * (?m - ?m mod 8) \<le> kSize" by (meson diff_le_self le_trans mult_le_mono2)
    moreover have "0 < ?m - ?m mod 8" using ge assms(1) u by simp
    ultimately show "?n \<le> kSize div unat (maximizeAllocSize s slab_size kAlignment)"
      unfolding u by (simp add: less_eq_div_iff_mult_less_eq)
  qed
qed


section \<open>What is generated is valid\<close>

lemma isValidAllocSize_nat: "isValidAllocSize s \<longleftrightarrow> 64 \<le> unat s \<and> unat s \<le> kSize \<and> unat s mod 8 = 0"
proof -
  have "s mod kAlignment = 0 \<longleftrightarrow> unat (s mod kAlignment) = 0" by (simp add: unat_eq_zero)
  then show ?thesis unfolding isValidAllocSize_def unat_mod unat_kAlignment
    by (auto simp: kMinAllocSize_def kMinAllocPower_def not_less)
qed

lemma maximize_up:
  assumes "64 \<le> unat a" and "unat a \<le> kSize"
  shows "isValidAllocSize (maximizeAllocSize (getAlignedSize a kAlignment) slab_size kAlignment)"
    and "unat a \<le> unat (maximizeAllocSize (getAlignedSize a kAlignment) slab_size kAlignment)"
proof -
  have u: "unat (getAlignedSize a kAlignment) = roundup8 (unat a)" by (rule unat_up) (use assms(2) in \<open>simp add: kSize_val\<close>)
  have "unat (getAlignedSize a kAlignment) \<le> kSize" "0 < unat (getAlignedSize a kAlignment)" "unat (getAlignedSize a kAlignment) mod 8 = 0"
    unfolding u using roundup8_le [OF assms(2)] roundup8(1) [of "unat a"] roundup8_mod assms(1) by (simp_all add: kSize_val)
  note M = maximize [OF this(2,1,3)]
  show "unat a \<le> unat (maximizeAllocSize (getAlignedSize a kAlignment) slab_size kAlignment)"
    using M(1) u roundup8(1) [of "unat a"] by linarith
  then show "isValidAllocSize (maximizeAllocSize (getAlignedSize a kAlignment) slab_size kAlignment)"
    unfolding isValidAllocSize_nat using M(2,3) assms(1) by linarith
qed

lemma clamp:
  assumes "validateAndClampItemSizeRange minItemSize maxItemSize = Inr (lo, hi)"
  shows "64 \<le> unat lo" "unat lo \<le> unat hi" "unat hi \<le> kSize" "unat maxItemSize \<le> unat hi"
proof -
  have m: "unat (of_nat kMinAllocSize :: u32) = 64" by (simp add: kMinAllocSize_def kMinAllocPower_def)
  have le: "minItemSize \<le> maxItemSize" "unat maxItemSize \<le> kSize" and lh: "lo = max minItemSize (of_nat kMinAllocSize)" "hi = max maxItemSize (of_nat kMinAllocSize)"
    using assms by (auto simp: validateAndClampItemSizeRange_def split: if_splits)
  have u: "unat lo = max (unat minItemSize) 64" "unat hi = max (unat maxItemSize) 64"
    unfolding lh by (auto simp: max_def word_le_nat_alt m)
  show "64 \<le> unat lo" "unat lo \<le> unat hi" "unat hi \<le> kSize" "unat maxItemSize \<le> unat hi"
    using le by (auto simp: u word_le_nat_alt kSize_val)
qed

lemma optimal_size_valid:
  assumes lo: "64 \<le> unat lo" "unat lo \<le> unat hi" "unat hi \<le> kSize"
    and i: "kSize div unat hi \<le> unat i" "unat i \<le> kSize div unat lo"
  shows "isValidAllocSize (optimal_size lo hi (slab_size div hi) i)"
    and "i = slab_size div hi \<Longrightarrow> unat hi \<le> unat (optimal_size lo hi (slab_size div hi) i)"
proof -
  let ?a = "slab_size div i" and ?d = "getAlignedSizeDown (slab_size div i) kAlignment"
  have hi: "0 < kSize div unat hi" using lo by (simp add: div_greater_zero_iff)
  have i0: "0 < unat i" using hi i(1) by linarith
  have a: "unat ?a = kSize div unat i" by (simp add: unat_div unat_slab_size kSize_val)
  have "unat lo * unat i \<le> kSize" using i(2) lo(1) by (simp add: less_eq_div_iff_mult_less_eq mult.commute)
  then have al: "unat lo \<le> unat ?a" unfolding a using i0 by (simp add: less_eq_div_iff_mult_less_eq)
  have ak: "unat ?a \<le> kSize" unfolding a by simp
  have d: "unat ?d = unat ?a - unat ?a mod 8" by (rule unat_down)
  have ah: "unat hi \<le> unat ?a" if "i = slab_size div hi"
  proof -
    have "unat i = kSize div unat hi" using that by (simp add: unat_div unat_slab_size kSize_val)
    then show ?thesis unfolding a using hi by (simp add: less_eq_div_iff_mult_less_eq)
  qed
  note M = maximize_up [OF order_trans [OF lo(1) al] ak]
  have os: "optimal_size lo hi (slab_size div hi) i = (if ?d < lo \<or> i = slab_size div hi \<and> hi > ?d
      then maximizeAllocSize (getAlignedSize ?a kAlignment) slab_size kAlignment else ?d)"
    unfolding optimal_size_def Let_def by (rule refl)
  show "isValidAllocSize (optimal_size lo hi (slab_size div hi) i)"
  proof (cases "?d < lo \<or> i = slab_size div hi \<and> hi > ?d")
    case False
    have "64 \<le> unat ?d" using False lo(1) by (simp add: word_less_nat_alt)
    moreover have "unat ?d \<le> kSize" "unat ?d mod 8 = 0" unfolding d using ak by (simp_all add: minus_mod_eq_mult_div)
    ultimately show ?thesis unfolding os isValidAllocSize_nat using False by (simp only: if_False)
  next
    case True
    then show ?thesis unfolding os using M(1) by (simp only: if_True)
  qed
  show "unat hi \<le> unat (optimal_size lo hi (slab_size div hi) i)" if "i = slab_size div hi"
  proof (cases "?d < lo \<or> i = slab_size div hi \<and> hi > ?d")
    case False
    then show ?thesis unfolding os using that by (auto simp only: if_False word_less_nat_alt not_less)
  next
    case True
    then show ?thesis unfolding os using M(2) ah [OF that] by (simp only: if_True)
  qed
qed

lemma optimal_loop_result:
  "optimal_loop f is S = Inr T \<Longrightarrow> card S \<le> kMaxClasses \<Longrightarrow> T = S \<union> (\<lambda>i. f (of_nat i)) ` set is \<and> card T \<le> kMaxClasses"
proof (induction "is" arbitrary: S)
  case (Cons i "is")
  from Cons.prems have "optimal_loop f is (insert (f (of_nat i)) S) = Inr T" "card (insert (f (of_nat i)) S) \<le> kMaxClasses"
    by (auto simp: Let_def split: if_splits)
  from Cons.IH [OF this] show ?case by auto
qed simp

lemma even_size_valid:
  assumes lo: "64 \<le> unat lo" "unat lo \<le> unat hi" "unat hi \<le> kSize" and n: "0 < unat n" "unat n \<le> 128" and i: "unat i < unat n"
  shows "isValidAllocSize (even_size lo hi n i)" and "i = 0 \<Longrightarrow> unat hi \<le> unat (even_size lo hi n i)"
proof -
  let ?r = "hi - lo" and ?o = "(hi - lo) * i div n"
  have r: "unat ?r = unat hi - unat lo" using lo(2) by (simp add: unat_sub word_le_nat_alt)
  have "unat ?r * unat i \<le> 4194304 * 128" using r lo(3) i n(2) by (intro mult_le_mono) (simp_all add: kSize_val)
  then have o: "unat ?o = unat ?r * unat i div unat n" by (simp add: unat_div unat_word_ariths(2))
  have "unat ?r * unat i div unat n \<le> unat ?r"
    using i by (metis div_le_mono less_imp_le mult_le_mono2 n(1) nonzero_mult_div_cancel_right not_less_zero)
  then have ol: "unat ?o \<le> unat hi - unat lo" using o r by simp
  then have it: "unat (hi - ?o) = unat hi - unat ?o" by (intro unat_sub) (simp add: word_le_nat_alt)
  have "64 \<le> unat (hi - ?o)" "unat (hi - ?o) \<le> kSize" using it ol lo by linarith+
  note M = maximize_up [OF this]
  show "isValidAllocSize (even_size lo hi n i)" using M(1) by (simp add: even_size_def Let_def)
  show "i = 0 \<Longrightarrow> unat hi \<le> unat (even_size lo hi n i)" using M(2) by (simp add: even_size_def Let_def)
qed


section \<open>The growing sequence\<close>

text \<open>What multiplying by a factor above 1 does to the sizes, short of overflow.\<close>

definition grows :: "(u32 \<Rightarrow> u32) \<Rightarrow> bool" where
  "grows grow \<longleftrightarrow> (\<forall>s. unat s \<le> kSize \<longrightarrow> unat s \<le> unat (grow s) \<and> unat (grow s) \<le> 2 ^ 32 - 8)"

lemma grown:
  assumes "grows grow" and "unat s \<le> kSize" and "getAlignedSize (grow s) kAlignment \<noteq> s"
  shows "unat s < unat (getAlignedSize (grow s) kAlignment)" and "unat (getAlignedSize (grow s) kAlignment) mod 8 = 0"
proof -
  have g: "unat s \<le> unat (grow s)" "unat (grow s) \<le> 2 ^ 32 - 8" using assms(1,2) by (auto simp: grows_def)
  note u = unat_up [OF g(2)]
  show "unat (getAlignedSize (grow s) kAlignment) mod 8 = 0" unfolding u by (rule roundup8_mod)
  have "unat s \<le> unat (getAlignedSize (grow s) kAlignment)" unfolding u using g(1) roundup8(1) [of "unat (grow s)"] by linarith
  moreover have "unat s \<noteq> unat (getAlignedSize (grow s) kAlignment)" using assms(3) by (metis word_unat_eq_iff)
  ultimately show "unat s < unat (getAlignedSize (grow s) kAlignment)" by linarith
qed

lemma nextSize_loop_result:
  assumes g: "grows grow" and "0 < unat s" and "unat s \<le> kSize"
  shows "\<exists>r. nextSize_loop grow prev s = Some r \<and>
    (r = Inl invalid_argument \<or> (\<exists>n. r = Inr n \<and> unat s < unat n \<and> unat n mod 8 = 0))"
  using assms(2,3)
proof (induction "kSize - unat s" arbitrary: s rule: less_induct)
  case less
  let ?n = "getAlignedSize (grow s) kAlignment"
  show ?case
  proof (cases "?n = s")
    case True
    then show ?thesis by (subst nextSize_loop.simps) (simp add: Let_def)
  next
    case ne: False
    note G = grown [OF g less.prems(2) ne]
    show ?thesis
    proof (cases "unat ?n > kSize")
      case True
      then show ?thesis using ne G by (subst nextSize_loop.simps) (simp add: Let_def)
    next
      case False
      then have n: "0 < unat ?n" "unat ?n \<le> kSize" "?n \<noteq> 0" using G(1) by auto
      note M = maximize [OF n(1,2) G(2)]
      show ?thesis
      proof (cases "slab_size div ?n = slab_size div prev")
        case True
        then have e: "nextSize_loop grow prev s = nextSize_loop grow prev ?n"
          using ne n False by (subst nextSize_loop.simps) (simp add: Let_def)
        have "kSize - unat ?n < kSize - unat s" using G(1) n(2) by linarith
        from less.hyps [OF this n(1,2)] obtain r where r: "nextSize_loop grow prev ?n = Some r \<and>
          (r = Inl invalid_argument \<or> (\<exists>n. r = Inr n \<and> unat ?n < unat n \<and> unat n mod 8 = 0))" ..
        from conjunct2 [OF r] have "r = Inl invalid_argument \<or> (\<exists>n. r = Inr n \<and> unat s < unat n \<and> unat n mod 8 = 0)"
        proof (elim disjE exE conjE)
          fix n assume "r = Inr n" "unat ?n < unat n" "unat n mod 8 = 0"
          then show ?thesis using G(1) by (intro disjI2 exI [of _ n] conjI) linarith+
        qed simp
        then show ?thesis unfolding e conjunct1 [OF r] by (intro exI [of _ r] conjI refl)
      next
        case d: False
        then have A: "nextSize_loop grow prev s = Some (Inr (maximizeAllocSize ?n slab_size kAlignment))"
          using ne n False by (subst nextSize_loop.simps) (simp add: Let_def)
        have B: "unat s < unat (maximizeAllocSize ?n slab_size kAlignment)" using M(1) G(1) by linarith
        show ?thesis by (intro exI [of _ "Inr (maximizeAllocSize ?n slab_size kAlignment)"] conjI disjI2
              exI [of _ "maximizeAllocSize ?n slab_size kAlignment"] A B M(3) refl)
      qed
    qed
  qed
qed

lemma generate_loop_result:
  assumes g: "grows grow" and mx: "unat maxSize \<le> kSize"
    and "64 \<le> unat s" "unat s mod 8 = 0" and "finite S" "\<forall>x \<in> S. isValidAllocSize x"
  shows "\<exists>r. generate_loop grow rf maxSize s S = Some r \<and>
    (r = Inl invalid_argument \<or> (\<exists>T. r = Inr T \<and> finite T \<and> (\<forall>x \<in> T. isValidAllocSize x)))"
  using assms(3-)
proof (induction "kSize - unat s" arbitrary: s S rule: less_induct)
  case less
  show ?case
  proof (cases "s < maxSize \<and> \<not> slab_size div s \<le> 1")
    case False
    moreover have "s \<noteq> 0" using less.prems(1) by auto
    ultimately show ?thesis using less.prems by (subst generate_loop.simps) auto
  next
    case True
    have s: "unat s \<le> kSize" "0 < unat s" "s \<noteq> 0" "unat s < kSize" using True mx less.prems(1) by (auto simp: word_less_nat_alt)
    have v: "isValidAllocSize s" using s less.prems by (simp add: isValidAllocSize_nat)
    have step: "\<exists>r. generate_loop grow rf maxSize n (insert s S) = Some r \<and>
        (r = Inl invalid_argument \<or> (\<exists>T. r = Inr T \<and> finite T \<and> (\<forall>x \<in> T. isValidAllocSize x)))"
      if n: "unat s < unat n" "unat n mod 8 = 0" for n
      by (rule less.hyps) (use n s less.prems v in auto)
    show ?thesis
    proof (cases rf)
      case rf: True
      obtain r where r: "nextSize grow s = Some r" "r = Inl invalid_argument \<or> (\<exists>n. r = Inr n \<and> unat s < unat n \<and> unat n mod 8 = 0)"
        using nextSize_loop_result [OF g s(2,1), of s] by (auto simp: nextSize_def)
      have e: "generate_loop grow rf maxSize s S = (case r of Inl e \<Rightarrow> Some (Inl e) | Inr n \<Rightarrow> generate_loop grow rf maxSize n (insert s S))"
        using True s r(1) unfolding eqTrueI [OF rf] by (subst generate_loop.simps) simp
      show ?thesis unfolding e using r(2) step by auto
    next
      case rf: False
      let ?n = "getAlignedSize (grow s) kAlignment"
      have e: "generate_loop grow rf maxSize s S = (if ?n = s then Some (Inl invalid_argument) else generate_loop grow rf maxSize ?n (insert s S))"
        using True rf s by (subst generate_loop.simps) (simp add: Let_def)
      show ?thesis
      proof (cases "?n = s")
        case False
        show ?thesis unfolding e using step [OF grown [OF g s(1) False]] False by simp
      qed (simp add: e)
    qed
  qed
qed



end
