(* ===== verification/PoolIsolation.thy ===== *)
theory PoolIsolation
  imports MemoryAllocator
begin

text \<open>
  The whole memory subsystem: all pools of a memory allocator (\<open>MemoryAllocator.cpp\<close>,
  \<open>MemoryPoolManager.cpp\<close>) on one slab allocator. What one pool does to the slabs leaves the
  invariants of the others intact, so allocations never overlap, whichever pool and class they are of.
\<close>

section \<open>What a pool does to the slabs\<close>

text \<open>Every slab keeps its header, or was unused or the pool's and is the pool's afterwards.\<close>

definition pool_elsewhere :: "PoolId \<Rightarrow> addr set \<Rightarrow> SlabAllocator \<Rightarrow> SlabAllocator \<Rightarrow> bool" where
  "pool_elsewhere pid used sa sa' \<longleftrightarrow> sa_geometry sa' \<and> carved sa \<subseteq> carved sa' \<and>
     (\<forall>t \<in> carved sa'. t \<in> carved sa \<and> header_of sa' t = header_of sa t \<or>
        (t \<notin> used \<or> poolId (header_of sa t) = pid) \<and> poolId (header_of sa' t) = pid)"

lemma pool_elsewhereD:
  assumes "pool_elsewhere pid used sa sa'"
  shows "sa_geometry sa'" "t \<in> carved sa \<Longrightarrow> t \<in> carved sa'"
    "t \<in> carved sa' \<Longrightarrow> poolId (header_of sa' t) \<noteq> pid \<Longrightarrow> t \<in> carved sa \<and> header_of sa' t = header_of sa t"
    "t \<in> carved sa \<Longrightarrow> t \<in> used \<Longrightarrow> poolId (header_of sa t) \<noteq> pid \<Longrightarrow> header_of sa' t = header_of sa t"
  using assms unfolding pool_elsewhere_def by blast+

lemma pool_elsewhere_refl: "sa_geometry sa \<Longrightarrow> pool_elsewhere pid used sa sa"
  by (auto simp: pool_elsewhere_def)

lemma pool_elsewhere_same:
  "sa_geometry sa' \<Longrightarrow> carved sa' = carved sa \<Longrightarrow> header_of sa' = header_of sa \<Longrightarrow> pool_elsewhere pid used sa sa'"
  by (auto simp: pool_elsewhere_def)

lemma pool_elsewhere_trans:
  assumes "pool_elsewhere pid used sa sa1" and "pool_elsewhere pid used1 sa1 sa2" and "used \<subseteq> used1" and "used \<subseteq> carved sa"
  shows "pool_elsewhere pid used sa sa2"
  unfolding pool_elsewhere_def
proof (intro conjI ballI)
  show "sa_geometry sa2" "carved sa \<subseteq> carved sa2" using assms by (auto simp: pool_elsewhere_def)
  fix t assume t: "t \<in> carved sa2"
  have c1: "t \<in> carved sa \<and> header_of sa1 t = header_of sa t \<or>
      (t \<notin> used \<or> poolId (header_of sa t) = pid) \<and> poolId (header_of sa1 t) = pid" if "t \<in> carved sa1"
    using assms(1) that by (simp add: pool_elsewhere_def)
  have c2: "t \<in> carved sa1 \<and> header_of sa2 t = header_of sa1 t \<or>
      (t \<notin> used1 \<or> poolId (header_of sa1 t) = pid) \<and> poolId (header_of sa2 t) = pid"
    using assms(2) t by (simp add: pool_elsewhere_def)
  have u: "t \<in> carved sa1" if "t \<in> used" using assms(1,4) that by (auto simp: pool_elsewhere_def)
  show "t \<in> carved sa \<and> header_of sa2 t = header_of sa t \<or>
      (t \<notin> used \<or> poolId (header_of sa t) = pid) \<and> poolId (header_of sa2 t) = pid"
    using c1 c2 u assms(3) by auto
qed

lemma pool_elsewhere_touches:
  assumes "touches sa s sa'" and "s \<notin> used \<or> poolId (header_of sa s) = pid" and "poolId (header_of sa' s) = pid"
  shows "pool_elsewhere pid used sa sa'"
  unfolding pool_elsewhere_def
proof (intro conjI ballI subsetI)
  note T = touchesD [OF assms(1)]
  show "sa_geometry sa'" by (rule T)
  show "t \<in> carved sa'" if "t \<in> carved sa" for t by (rule T(2) [OF that])
  show "t \<in> carved sa \<and> header_of sa' t = header_of sa t \<or>
      (t \<notin> used \<or> poolId (header_of sa t) = pid) \<and> poolId (header_of sa' t) = pid" if "t \<in> carved sa'" for t
    using T(3,4) [of t] that assms(2,3) by (cases "t = s") auto
qed

text \<open>The other pools do not notice.\<close>

lemma class_header_of:
  assumes "rel_inv (ac, sa) live orphans th" and "t \<in> class_slabs ac orphans"
  shows "t \<in> carved sa" "poolId (header_of sa t) = ac_poolId ac" "classId (header_of sa t) = ac_classId ac"
proof -
  note sh = rel_invD(6) [OF assms(1)]
  have t: "t \<in> owned_slabs ac orphans \<union> set (ac_freeSlabs ac)" using assms(2) by (simp add: class_slabs_def)
  from ac_shape_sets(5) [OF sh t] show "poolId (header_of sa t) = ac_poolId ac" "classId (header_of sa t) = ac_classId ac"
    by (simp_all add: class_header_def)
  show "t \<in> carved sa" using t ac_shapeD(7,8) [OF sh] by blast
qed

lemma other_pool_keeps:
  assumes inv: "pool_inv (mp, sa) live orphans used fl" and e: "pool_elsewhere pid used sa sa'" and ne: "mp_id mp \<noteq> pid"
    and sa': "sa_inv sa' used'" "used \<subseteq> used'"
  shows "pool_inv (mp, sa') live orphans used' fl"
proof (rule pool_invI)
  note I = pool_invD [OF inv] and E = pool_elsewhereD [OF e]
  show "class_part mp sa' live orphans used' i" if i: "i < length (mp_ac mp)" for i
  proof -
    have C: "ac_poolId (mp_ac mp ! i) = mp_id mp" "rel_inv (mp_ac mp ! i, sa) (live i) (orphans i) NoRelease"
      "class_slabs (mp_ac mp ! i) (orphans i) \<subseteq> used" using I(3) [OF i] by (auto simp: class_part_def)
    have "elsewhere (mp_ac mp ! i, sa) (orphans i) sa'"
      unfolding elsewhere_def prod.case
    proof (intro conjI ballI impI subsetI)
      show "header_of sa' t = header_of sa t" if "t \<in> class_slabs (mp_ac mp ! i) (orphans i)" for t
        by (rule E(4)) (use class_header_of [OF C(2) that] C(1,3) that ne in auto)
      show "t \<in> class_slabs (mp_ac mp ! i) (orphans i)" if t: "t \<in> carved sa'" "claims (mp_ac mp ! i) (header_of sa' t)" for t
      proof -
        have "poolId (header_of sa' t) \<noteq> pid" using t(2) C(1) ne by (simp add: claims_def)
        from E(3) [OF t(1) this] show ?thesis using rel_invD(2) [OF C(2), of t] t(2) by simp
      qed
    qed (use E(1,2) in blast)+
    from others_keep [OF C(2) this] show ?thesis using I(3) [OF i] sa'(2) by (auto simp: class_part_def)
  qed
  show "u \<in> used'" if "u \<in> set fl \<union> set (mp_freeSlabs mp)" for u using I(5) [OF that] sa'(2) by blast
  show "idle_header (mp_id mp) (header_of sa' u)" if u: "u \<in> set fl \<union> set (mp_freeSlabs mp)" for u
  proof -
    have "poolId (header_of sa u) \<noteq> pid" using I(6) [OF u] ne by (simp add: idle_header_def)
    moreover have "u \<in> carved sa" using I(5) [OF u] sa_invD(6) [OF I(2)] by blast
    ultimately have "header_of sa' u = header_of sa u" using E(4) I(5) [OF u] by blast
    then show ?thesis using I(6) [OF u] by simp
  qed
qed (use pool_invD [OF inv] sa' in auto)

section \<open>The operations of a pool\<close>

lemma getSlabLocked_elsewhere:
  assumes inv: "pool_inv s live orphans used fl" and run: "getSlabLocked s = (p, s')"
  shows "pool_elsewhere (mp_id (fst s)) used (snd s) (snd s')" and "mp_id (fst s') = mp_id (fst s)" "mp_maxSize (fst s') = mp_maxSize (fst s)" "mp_acSizes (fst s') = mp_acSizes (fst s)"
proof -
  obtain mp sa where s: "s = (mp, sa)" by force
  note I = pool_invD [OF inv [unfolded s]]
  have g: "sa_geometry sa" by (rule sa_invD(1) [OF I(2)])
  consider "snd s' = sa" | (none) sa' where "makeNewSlab (mp_id mp) sa = (None, sa')" "snd s' = sa'"
    | (new) slab sa' where "makeNewSlab (mp_id mp) sa = (Some slab, sa')" "snd s' = sa'"
    using run by (auto simp: getSlabLocked_def s Let_def split: if_splits prod.splits option.splits)
  then show "pool_elsewhere (mp_id (fst s)) used (snd s) (snd s')"
  proof cases
    case 1
    then show ?thesis using pool_elsewhere_refl [OF g] by (simp add: s)
  next
    case none
    then show ?thesis using makeNewSlab_None_same [OF none(1)] g by (auto simp: s intro!: pool_elsewhere_same)
  next
    case new
    have "pool_elsewhere (mp_id mp) used sa sa'"
      by (rule pool_elsewhere_touches [OF makeNewSlab_touches [OF I(2) new(1)]])
         (use makeNewSlab_Some [OF I(2) new(1)] in \<open>simp_all add: new_SlabHeader_def\<close>)
    then show ?thesis by (simp add: s new(2))
  qed
qed (use run in \<open>auto simp: getSlabLocked_def Let_def split: if_splits prod.splits option.splits\<close>)

lemma addSlab_elsewhere:
  assumes inv: "pool_inv (mp, sa) live orphans used (slab # fl)" and i: "i < length (mp_ac mp)"
  shows "pool_elsewhere (mp_id mp) used sa (snd (addSlabLocked slab (mp_ac mp ! i, sa)))"
proof -
  note I = pool_invD [OF inv]
  let ?f = "\<lambda>h. h\<lparr>classId := ac_classId (mp_ac mp ! i), allocSize := ac_allocationSize (mp_ac mp ! i)\<rparr>"
  have p: "poolId (header_of sa slab) = mp_id mp" using I(6) [of slab] by (simp add: idle_header_def)
  have c: "slab \<in> carved sa" "sa_geometry sa" using I(5) [of slab] sa_invD(1,6) [OF I(2)] by auto
  have "pool_elsewhere (mp_id mp) used sa (write_header slab ?f sa)"
    by (rule pool_elsewhere_touches [OF touches_write [OF c(2,1)]]) (use p write_header_carved(4) [OF c(2,1,1)] in simp_all)
  then show ?thesis by (simp add: addSlabLocked_def)
qed

lemma on_ac_allocate: "on_ac i allocate s = (p, s') \<Longrightarrow> snd s' = snd s \<and> mp_id (fst s') = mp_id (fst s) \<and> mp_maxSize (fst s') = mp_maxSize (fst s) \<and> mp_acSizes (fst s') = mp_acSizes (fst s)"
  by (auto simp: on_ac_def allocate_def split: prod.splits if_splits)

lemma addSlabAndAllocate_elsewhere:
  assumes inv: "pool_inv s live orphans used (slab # fl)" and i: "i < length (mp_ac (fst s))"
    and run: "on_ac i (addSlabAndAllocate slab) s = (p, s')"
  shows "pool_elsewhere (mp_id (fst s)) used (snd s) (snd s')" and "mp_id (fst s') = mp_id (fst s)" "mp_maxSize (fst s') = mp_maxSize (fst s)" "mp_acSizes (fst s') = mp_acSizes (fst s)"
proof -
  obtain mp sa where s: "s = (mp, sa)" by force
  have "snd s' = snd (addSlabLocked slab (mp_ac mp ! i, sa))"
    using run by (auto simp: s on_ac_def addSlabAndAllocate_def split: prod.splits)
  then show "pool_elsewhere (mp_id (fst s)) used (snd s) (snd s')" using addSlab_elsewhere [of mp sa live orphans used slab fl i] inv i by (simp add: s)
qed (use run in \<open>auto simp: on_ac_def split: prod.splits\<close>)


lemma slow_path_elsewhere:
  assumes inv: "pool_inv s live orphans used fl" and i: "i < length (mp_ac (fst s))" and g: "getSlabLocked s = (x, s1)"
    and run: "(p, s') = (case x of None \<Rightarrow> (None, s1)
      | Some slab \<Rightarrow> let (p, s2) = on_ac i (addSlabAndAllocate slab) s1 in (p, add_currAllocSize n s2))"
  shows "pool_elsewhere (mp_id (fst s)) used (snd s) (snd s') \<and> mp_id (fst s') = mp_id (fst s) \<and> mp_maxSize (fst s') = mp_maxSize (fst s) \<and> mp_acSizes (fst s') = mp_acSizes (fst s)"
proof -
  obtain mp sa where s: "s = (mp, sa)" by force
  have c: "used \<subseteq> carved sa" using sa_invD(6) pool_invD(2) [OF inv [unfolded s]] by blast
  note E = getSlabLocked_elsewhere [OF inv g]
  from getSlabLocked_pool [OF inv g] obtain used'
    where sub: "used \<subseteq> used'" and inv1: "pool_inv s1 live orphans used' (case x of None \<Rightarrow> fl | Some slab \<Rightarrow> slab # fl)" by blast
  have ac: "mp_ac (fst s1) = mp_ac (fst s)" using g by (auto simp: getSlabLocked_def Let_def split: prod.splits if_splits option.splits)
  show ?thesis
  proof (cases x)
    case None
    then show ?thesis using E run by simp
  next
    case (Some slab)
    obtain r s4 where r: "on_ac i (addSlabAndAllocate slab) s1 = (r, s4)" by (rule prod.exhaust)
    have "pool_inv s1 live orphans used' (slab # fl)" "i < length (mp_ac (fst s1))" using inv1 Some ac i by simp_all
    note A = addSlabAndAllocate_elsewhere [OF this r]
    have "snd s' = snd s4" "mp_id (fst s') = mp_id (fst s4)" "mp_maxSize (fst s') = mp_maxSize (fst s4)" "mp_acSizes (fst s') = mp_acSizes (fst s4)"
      using run Some r by (auto simp: add_currAllocSize_def split: prod.splits)
    then show ?thesis using A E pool_elsewhere_trans [OF E(1), of used' "snd s4"] sub c by (simp add: s)
  qed
qed


text \<open>The frame of an operation: only the slabs of the pool change, and its id and limit stay.\<close>

definition pool_frame :: "addr set \<Rightarrow> mps \<Rightarrow> mps \<Rightarrow> bool" where
  "pool_frame used s s' \<longleftrightarrow> pool_elsewhere (mp_id (fst s)) used (snd s) (snd s') \<and>
     mp_id (fst s') = mp_id (fst s) \<and> mp_maxSize (fst s') = mp_maxSize (fst s) \<and> mp_acSizes (fst s') = mp_acSizes (fst s)"

lemma add_currAllocSize_frame: "pool_frame used s (add_currAllocSize n s') = pool_frame used s s'"
  by (simp add: pool_frame_def add_currAllocSize_def split: prod.splits)

lemma attempt:
  assumes inv: "pool_inv s live orphans used fl" and i: "i < length (mp_ac (fst s))" and q: "on_ac i allocate s = (q, s1)"
  shows "allocated q i (if q = None then s1 else add_currAllocSize (ucast (ac_allocationSize (mp_ac (fst s1) ! i))) s1) live orphans used fl"
    and "pool_frame used s s1" and "snd s1 = snd s" "mp_id (fst s1) = mp_id (fst s)" "mp_maxSize (fst s1) = mp_maxSize (fst s)" "mp_acSizes (fst s1) = mp_acSizes (fst s)"
    and "length (mp_ac (fst s1)) = length (mp_ac (fst s))"
    and "ac_allocationSize (mp_ac (fst s1) ! i) = ac_allocationSize (mp_ac (fst s) ! i)"
    and "q = None \<Longrightarrow> pool_inv s1 live orphans used fl"
proof -
  obtain mp sa where s: "s = (mp, sa)" by force
  have g: "sa_geometry sa" using sa_invD(1) pool_invD(2) [OF inv [unfolded s]] by blast
  note A = allocate_pool [OF inv i q refl] and F = on_ac_allocate [OF q]
  show F': "snd s1 = snd s" "mp_id (fst s1) = mp_id (fst s)" "mp_maxSize (fst s1) = mp_maxSize (fst s)" "mp_acSizes (fst s1) = mp_acSizes (fst s)" using F by simp_all
  show "pool_frame used s s1" using F' pool_elsewhere_refl [OF g] by (simp add: pool_frame_def s)
  show "length (mp_ac (fst s1)) = length (mp_ac (fst s))"
    "ac_allocationSize (mp_ac (fst s1) ! i) = ac_allocationSize (mp_ac (fst s) ! i)" by (fact A)+
  show "pool_inv s1 live orphans used fl" if "q = None" using A(1) that by simp
  show "allocated q i (if q = None then s1 else add_currAllocSize (ucast (ac_allocationSize (mp_ac (fst s1) ! i))) s1) live orphans used fl"
    using A by (cases q) (auto intro!: allocatedI)
qed

text \<open>An allocation undisturbed by other threads adds at most the allocation it returns.\<close>

lemma pool_allocate:
  assumes inv: "pool_inv s live orphans used fl" and gi: "getAllocationClassFor_size sz (fst s) = Inr i"
    and run: "MemoryPool_allocate id sz s = (r, s')"
  shows "\<exists>p used'. r = Inr p \<and> used \<subseteq> used' \<and> allocated p i s' live orphans used' fl \<and> pool_frame used s s'"
proof -
  have "pool_shape (fst s)" using pool_invD(1) inv by (metis prod.collapse)
  from class_index [OF this gi] have i: "i < length (mp_ac (fst s))" by simp
  obtain q s1 where q: "on_ac i allocate s = (q, s1)" by (rule prod.exhaust)
  note A = attempt [OF inv i q]
  obtain q2 s2 where q2: "on_ac i allocate s1 = (q2, s2)" by (rule prod.exhaust)
  let ?n = "ucast (ac_allocationSize (mp_ac (fst s1) ! i))"
  consider (some) "q \<noteq> None" | (full) "q = None" "mp_allSlabsAllocated (fst s1)"
    | (again) "q = None" "\<not> mp_allSlabsAllocated (fst s1)" "q2 \<noteq> None"
    | (slow) "q = None" "\<not> mp_allSlabsAllocated (fst s1)" "q2 = None" by blast
  then show ?thesis
  proof cases
    case some
    then have "r = Inr q" "s' = add_currAllocSize ?n s1" using run q by (auto simp: MemoryPool_allocate_def gi)
    then show ?thesis using A(1,2) some by (auto simp: add_currAllocSize_frame)
  next
    case full
    then have "r = Inr None" "s' = s1" using run q by (auto simp: MemoryPool_allocate_def gi)
    then show ?thesis using A(1,2) full by auto
  next
    case again
    then have r: "r = Inr q2" "s' = add_currAllocSize ?n s2" using run q q2 by (auto simp: MemoryPool_allocate_def gi)
    have "i < length (mp_ac (fst s1))" using A(7) i by simp
    note B = attempt [OF A(9) this q2, OF again(1)]
    have "pool_frame used s s2" using A(2-6) B(3-6) by (simp add: pool_frame_def)
    then show ?thesis using r B(1,8) again(3) by (auto simp: add_currAllocSize_frame)
  next
    case slow
    have "i < length (mp_ac (fst s1))" using A(7) i by simp
    note B = attempt [OF A(9) this q2, OF slow(1)]
    obtain x s3 where x: "getSlabLocked s2 = (x, s3)" by (rule prod.exhaust)
    have i2: "i < length (mp_ac (fst s2))" using A(7) B(7) i by simp
    obtain p where p: "r = Inr p" and res: "(p, s') = (case x of None \<Rightarrow> (None, s3)
        | Some slab \<Rightarrow> let (p, s4) = on_ac i (addSlabAndAllocate slab) s3 in (p, add_currAllocSize ?n s4))"
      using run q q2 slow x by (cases x) (auto simp: MemoryPool_allocate_def gi Let_def split: prod.splits)
    have n: "?n = ucast (ac_allocationSize (mp_ac (fst s2) ! i))" using B(8) by simp
    from slow_path_pool [OF B(9) i2 x n res] slow(3)
    obtain used' where "used \<subseteq> used'" "allocated p i s' live orphans used' fl" by blast
    moreover have "pool_frame used s s'"
      using slow_path_elsewhere [OF B(9) [OF slow(3)] i2 x res] A(3-6) B(3-6) by (simp add: pool_frame_def)
    ultimately show ?thesis using p by blast
  qed
qed


section \<open>All pools together\<close>

definition same_region :: "SlabAllocator \<Rightarrow> SlabAllocator \<Rightarrow> bool" where
  "same_region sa sa' \<longleftrightarrow> sa_memoryStart sa' = sa_memoryStart sa \<and> sa_memorySize sa' = sa_memorySize sa \<and> sa_slabMemoryStart sa' = sa_slabMemoryStart sa"

lemma same_region_capacity: "same_region sa sa' \<Longrightarrow> capacity sa' = capacity sa"
  by (simp add: same_region_def capacity_def getNumUsableAndAdvisedSlabs_def getSlabMemoryEnd_def)

lemma getSlabLocked_region: "getSlabLocked s = (x, s') \<Longrightarrow> same_region (snd s) (snd s')"
  by (auto simp: getSlabLocked_def makeNewSlab_def makeNewSlabImpl_def initializeHeader_def add_poolSize_def same_region_def upd_header_def
      Let_def split: if_splits prod.splits option.splits)

lemma addSlabAndAllocate_region: "on_ac i (addSlabAndAllocate slab) s = (p, s') \<Longrightarrow> same_region (snd s) (snd s')"
  by (auto simp: on_ac_def addSlabAndAllocate_def addSlabLocked_def same_region_def write_header_def upd_header_def
      split: prod.splits option.splits)

lemma pool_allocate_region: "MemoryPool_allocate id sz s = (r, s') \<Longrightarrow> same_region (snd s) (snd s')"
  unfolding MemoryPool_allocate_def
  by (auto simp: Let_def same_region_def add_currAllocSize_def
      dest!: getSlabLocked_region addSlabAndAllocate_region on_ac_allocate
      split: if_splits prod.splits option.splits sum.splits)

definition known_headers :: "nat \<Rightarrow> SlabAllocator \<Rightarrow> bool" where
  "known_headers n sa \<longleftrightarrow> (\<forall>t \<in> carved sa. poolId (header_of sa t) \<in> insert kInvalidPoolId (of_nat ` {..<n}))"

text \<open>\<open>live p i\<close> are the allocations in use of class \<open>i\<close> of pool \<open>p\<close>.\<close>

definition all_inv :: "pms \<Rightarrow> (nat \<Rightarrow> nat \<Rightarrow> addr set) \<Rightarrow> addr set \<Rightarrow> bool" where
  "all_inv = (\<lambda>(pm, sa) live used. pm_inv (pm, sa) \<and> sa_inv sa used \<and> known_headers (length (pm_pools pm)) sa \<and>
     (\<forall>p < length (pm_pools pm). pool_inv (pm_pools pm ! p, sa) (live p) (\<lambda>_. {}) used []))"

lemma all_invD:
  assumes "all_inv (pm, sa) live used"
  shows "pm_inv (pm, sa)" "sa_inv sa used" "known_headers (length (pm_pools pm)) sa"
    "\<And>p. p < length (pm_pools pm) \<Longrightarrow> pool_inv (pm_pools pm ! p, sa) (live p) (\<lambda>_. {}) used []"
    "\<And>p. p < length (pm_pools pm) \<Longrightarrow> mp_id (pm_pools pm ! p) = of_nat p" "length (pm_pools pm) \<le> 64"
  using assms pm_invD(1) [of pm sa] by (auto simp: all_inv_def pm_inv_def)

lemma pool_ids_inj: "p < 64 \<Longrightarrow> q < 64 \<Longrightarrow> (of_nat p :: PoolId) = of_nat q \<longleftrightarrow> p = q"
  by (auto simp: word_unat_eq_iff unsigned_of_nat take_bit_nat_eq_self)

lemma pool_replaced:
  assumes inv: "all_inv (pm, sa) live used" and p: "p < length (pm_pools pm)"
    and fr: "pool_frame used (pm_pools pm ! p, sa) (mp', sa')" and rg: "same_region sa sa'"
    and pool: "pool_inv (mp', sa') lv (\<lambda>_. {}) used' []" and sub: "used \<subseteq> used'"
  shows "all_inv (pm\<lparr>pm_pools := (pm_pools pm)[p := mp']\<rparr>, sa') (live(p := lv)) used'"
proof -
  note I = all_invD [OF inv]
  have e: "pool_elsewhere (of_nat p) used sa sa'" and m: "mp_id mp' = of_nat p" "mp_maxSize mp' = mp_maxSize (pm_pools pm ! p)"
    using fr I(5) [OF p] by (simp_all add: pool_frame_def)
  have sa': "sa_inv sa' used'" using pool_invD(2) [OF pool] .
  have r: "reserved (pm\<lparr>pm_pools := (pm_pools pm)[p := mp']\<rparr>) = reserved pm"
    using p size_le_reserved [OF p] by (simp add: reserved_def map_update sum_list_update m(2))
  have pm: "pm_inv (pm\<lparr>pm_pools := (pm_pools pm)[p := mp']\<rparr>, sa')"
    using I(1) m(1) r p same_region_capacity [OF rg] by (auto simp: pm_inv_def nth_list_update)
  have k: "known_headers (length (pm_pools pm)) sa'"
    unfolding known_headers_def
  proof
    fix t assume t: "t \<in> carved sa'"
    show "poolId (header_of sa' t) \<in> insert kInvalidPoolId (of_nat ` {..<length (pm_pools pm)})"
      using pool_elsewhereD(3) [OF e t] I(3) p unfolding known_headers_def by (cases "poolId (header_of sa' t) = of_nat p") auto
  qed
  have "pool_inv ((pm_pools pm)[p := mp'] ! q, sa') ((live(p := lv)) q) (\<lambda>_. {}) used' []" if q: "q < length (pm_pools pm)" for q
  proof (cases "q = p")
    case False
    have "mp_id (pm_pools pm ! q) \<noteq> of_nat p" using pool_ids_inj [of q p] I(6) q p False by (simp add: I(5) [OF q])
    from other_pool_keeps [OF I(4) [OF q] e this sa' sub] show ?thesis using False by simp
  qed (use pool p in simp)
  then show ?thesis using pm sa' k by (simp add: all_inv_def)
qed


definition pool_sizes :: "pms \<Rightarrow> u32 list list" where
  "pool_sizes s = map mp_acSizes (pm_pools (fst s))"

lemma pool_free:
  assumes inv: "pool_inv s live orphans used fl" and i: "i < length (mp_ac (fst s))" and x: "x \<in> live i"
  shows "\<exists>s'. MemoryPool_free x s = (Inr (), s') \<and> pool_inv s' (live(i := live i - {x})) orphans used fl \<and>
    pool_frame used s s' \<and> snd s' = snd s"
proof -
  obtain s' where run: "MemoryPool_free x s = (Inr (), s')" and inv': "pool_inv s' (live(i := live i - {x})) orphans used fl"
    using free_keeps_pool [OF inv i x] by blast
  have f: "snd t = snd u" if "freeAlloc y u = (r, t)" for y u r t using that freeAlloc_frame [of y "fst u" "snd u" r t "{}"] by force
  have F: "snd s' = snd s" "mp_id (fst s') = mp_id (fst s)" "mp_maxSize (fst s') = mp_maxSize (fst s)" "mp_acSizes (fst s') = mp_acSizes (fst s)"
    using run by (auto simp: MemoryPool_free_def on_ac_def add_currAllocSize_def split: sum.splits prod.splits if_splits dest!: f)
  have "sa_geometry (snd s)" using inv sa_invD(1) pool_invD(2) by (metis prod.collapse)
  then have "pool_frame used s s'" using F pool_elsewhere_refl by (simp add: pool_frame_def)
  then show ?thesis using run inv' F by blast
qed

lemma allocate_all:
  assumes inv: "all_inv (pm, sa) live used" and p: "p < length (pm_pools pm)"
    and gi: "getAllocationClassFor_size sz (pm_pools pm ! p) = Inr i"
    and run: "on_pool p (MemoryPool_allocate id sz) (pm, sa) = (r, s')"
  shows "\<exists>q used'. r = Inr q \<and> set_option q \<inter> live p i = {} \<and> all_inv s' (live(p := (live p)(i := set_option q \<union> live p i))) used' \<and>
    pool_sizes s' = pool_sizes (pm, sa)"
proof -
  note I = all_invD [OF inv]
  obtain mp' sa' where a: "MemoryPool_allocate id sz (pm_pools pm ! p, sa) = (r, (mp', sa'))"
    and s': "s' = (pm\<lparr>pm_pools := (pm_pools pm)[p := mp']\<rparr>, sa')"
    using run by (auto simp: on_pool_def split: prod.splits)
  from pool_allocate [OF I(4) [OF p] _ a] gi obtain q used' where q: "r = Inr q" "used \<subseteq> used'"
    "allocated q i (mp', sa') (live p) (\<lambda>_. {}) used' []" "pool_frame used (pm_pools pm ! p, sa) (mp', sa')" by auto
  then obtain used'' where d: "set_option q \<inter> live p i = {}" "used' \<subseteq> used''"
    "pool_inv (mp', sa') ((live p)(i := set_option q \<union> live p i)) (\<lambda>_. {}) used'' []"
    by (auto simp: allocated_def)
  have "used \<subseteq> used''" using q(2) d(2) by blast
  from pool_replaced [OF inv p q(4) _ d(3) this] pool_allocate_region [OF a]
  have "all_inv s' (live(p := (live p)(i := set_option q \<union> live p i))) used''" by (simp add: s')
  moreover have "pool_sizes s' = pool_sizes (pm, sa)" using q(4) by (simp add: s' pool_sizes_def pool_frame_def map_update list_update_same_conv p)
  ultimately show ?thesis using q(1) d(1) by blast
qed

lemma refused_size:
  "getAllocationClassFor_size sz (pm_pools pm ! p) = Inl e \<Longrightarrow> p < length (pm_pools pm) \<Longrightarrow> on_pool p (MemoryPool_allocate other sz) (pm, sa) = (Inl e, (pm, sa))"
  by (simp add: on_pool_def MemoryPool_allocate_def)

lemma free_all:
  assumes inv: "all_inv (pm, sa) live used" and p: "p < length (pm_pools pm)" and i: "i < length (mp_ac (pm_pools pm ! p))" and x: "x \<in> live p i"
  shows "\<exists>s'. on_pool p (MemoryPool_free x) (pm, sa) = (Inr (), s') \<and> all_inv s' (live(p := (live p)(i := live p i - {x}))) used \<and>
    pool_sizes s' = pool_sizes (pm, sa)"
proof -
  note I = all_invD [OF inv]
  from pool_free [OF I(4) [OF p], of i x] i x obtain mp' where f: "MemoryPool_free x (pm_pools pm ! p, sa) = (Inr (), (mp', sa))"
    "pool_inv (mp', sa) ((live p)(i := live p i - {x})) (\<lambda>_. {}) used []" "pool_frame used (pm_pools pm ! p, sa) (mp', sa)"
    by fastforce
  have "map mp_acSizes ((pm_pools pm)[p := mp']) = map mp_acSizes (pm_pools pm)"
    using f(3) by (simp add: pool_frame_def map_update list_update_same_conv p)
  then show ?thesis using pool_replaced [OF inv p f(3) _ f(2)] f(1) by (simp add: on_pool_def same_region_def pool_sizes_def)
qed

lemma create_all:
  assumes inv: "all_inv (pm, sa) live used" and run: "createNewPool name sz sizes (pm, sa) = (r, s')"
  shows "all_inv s' (if \<exists>pid. r = Inr pid then live(length (pm_pools pm) := \<lambda>_. {}) else live) used \<and>
    take (length (pm_pools pm)) (pool_sizes s') = pool_sizes (pm, sa)"
proof (cases r)
  case (Inl e)
  then show ?thesis using createNewPool_failed [of name sz sizes "(pm, sa)" e s'] run inv by (simp add: pool_sizes_def)
next
  case (Inr pid)
  note I = all_invD [OF inv]
  let ?n = "length (pm_pools pm)"
  from createNewPool_inv [OF I(1)] run Inr obtain pm' where pm': "s' = (pm', sa)" "pm_inv (pm', sa)" "pid = of_nat ?n" by blast
  obtain mp where mp: "MemoryPool_new (pm_nextPoolId pm) sz sizes sa = Inr mp" "pm_pools pm' = pm_pools pm @ [mp]"
    using run Inr by (auto simp: createNewPool_def pm'(1) split: if_splits sum.splits)
  have n: "?n < 64" using pm_invD(1) [OF pm'(2)] mp(2) by simp
  have ne: "kInvalidPoolId \<noteq> (of_nat ?n :: PoolId)"
  proof
    assume "kInvalidPoolId = (of_nat ?n :: PoolId)"
    moreover have "sint (of_nat ?n :: PoolId) = int ?n" using n by (simp add: signed_of_nat signed_take_bit_int_eq_self)
    ultimately have "sint kInvalidPoolId = int ?n" by simp
    then show False by (simp add: kInvalidPoolId_def)
  qed
  have "poolId (header_of sa t) \<noteq> of_nat ?n" if "t \<in> carved sa" for t
    using I(3) ne pool_ids_inj [of _ ?n] n that unfolding known_headers_def by fastforce
  then have new: "pool_inv (mp, sa) (\<lambda>_. {}) (\<lambda>_. {}) used []"
    using new_pool_inv [OF I(2) mp(1)] pm_invD(2) [OF I(1)] by simp
  have "known_headers (length (pm_pools pm')) sa" using I(3) by (auto simp: known_headers_def mp(2) lessThan_Suc)
  then show ?thesis using pm' I(2,4) new Inr by (auto simp: all_inv_def mp(2) nth_append less_Suc_eq pool_sizes_def)
qed


text \<open>Managers whose pools differ in nothing but their limits.\<close>

definition resized :: "MemoryPoolManager \<Rightarrow> MemoryPoolManager \<Rightarrow> bool" where
  "resized pm pm' \<longleftrightarrow> map (\<lambda>mp. mp\<lparr>mp_maxSize := 0\<rparr>) (pm_pools pm') = map (\<lambda>mp. mp\<lparr>mp_maxSize := 0\<rparr>) (pm_pools pm)"

lemma resized_length: "resized pm pm' \<Longrightarrow> length (pm_pools pm') = length (pm_pools pm)"
  unfolding resized_def by (metis length_map)

lemma resized_nth:
  "resized pm pm' \<Longrightarrow> i < length (pm_pools pm) \<Longrightarrow> (pm_pools pm' ! i)\<lparr>mp_maxSize := 0\<rparr> = (pm_pools pm ! i)\<lparr>mp_maxSize := 0\<rparr>"
  using resized_length [of pm pm'] unfolding resized_def by (metis (no_types, lifting) nth_map)

lemma resized_refl: "resized pm pm"
  by (simp add: resized_def)

lemma resized_set_size: "resized pm pm' \<Longrightarrow> resized pm (set_size i n pm')"
proof -
  have "map (\<lambda>mp. mp\<lparr>mp_maxSize := 0\<rparr>) (pm_pools (set_size i n pm')) = map (\<lambda>mp. mp\<lparr>mp_maxSize := 0\<rparr>) (pm_pools pm')"
  proof (rule nth_equalityI)
    fix j assume "j < length (map (\<lambda>mp. mp\<lparr>mp_maxSize := 0\<rparr>) (pm_pools (set_size i n pm')))"
    then show "map (\<lambda>mp. mp\<lparr>mp_maxSize := 0\<rparr>) (pm_pools (set_size i n pm')) ! j = map (\<lambda>mp. mp\<lparr>mp_maxSize := 0\<rparr>) (pm_pools pm') ! j"
      by (cases "i = j") (simp_all add: set_size_pools)
  qed (simp add: set_size_pools)
  then show "resized pm pm' \<Longrightarrow> resized pm (set_size i n pm')" by (simp add: resized_def)
qed

lemma resized_all:
  assumes inv: "all_inv (pm, sa) live used" and pm': "pm_inv (pm', sa)" and rs: "resized pm pm'"
  shows "all_inv (pm', sa) live used"
proof -
  have z: "pool_inv (mp\<lparr>mp_maxSize := 0\<rparr>, sa) lv orphans us fl = pool_inv (mp, sa) lv orphans us fl" for mp lv orphans us fl
    by (simp add: pool_inv_def pool_shape_def class_part_def slabs_of_def live_bytes_def)
  have "pool_inv (pm_pools pm' ! p, sa) (live p) (\<lambda>_. {}) used []" if "p < length (pm_pools pm)" for p
    using all_invD(4) [OF inv that] z [of "pm_pools pm ! p"] z [of "pm_pools pm' ! p"] by (simp add: resized_nth [OF rs that])
  then show ?thesis using all_invD(2,3) [OF inv] pm' resized_length [OF rs] by (simp add: all_inv_def)
qed

section \<open>Allocations of different classes and pools\<close>

text \<open>An allocation in use lies in a slab whose header names its pool and its class.\<close>

lemma live_header:
  assumes inv: "all_inv (pm, sa) live used" and p: "p < length (pm_pools pm)" and i: "i < length (mp_ac (pm_pools pm ! p))" and x: "x \<in> live p i"
  defines "ac \<equiv> mp_ac (pm_pools pm ! p) ! i"
  shows "class_alloc (ac, sa) x" "ac_shape ac sa {}" "poolId (header_of sa (getSlabForMemory x)) = of_nat p"
    "classId (header_of sa (getSlabForMemory x)) = of_nat i" "allocSize (header_of sa (getSlabForMemory x)) = ac_allocationSize ac"
    "getSlabHeader_memory sa x = Some (slabIdx sa (getSlabForMemory x))" "getSlabForMemory x \<in> carved sa"
    "x + unat (ac_allocationSize ac) \<le> getSlabForMemory x + kSize" "getSlabForMemory x \<le> x"
proof -
  note I = all_invD [OF inv]
  have C: "ac_classId ac = of_nat i" "ac_poolId ac = of_nat p" "rel_inv (ac, sa) (live p i) {} NoRelease"
    using pool_invD(3) [OF I(4) [OF p] i] I(5) [OF p] by (simp_all add: class_part_def ac_def)
  note R = rel_invD [OF C(3)]
  show "ac_shape ac sa {}" by (rule R(6))
  show "class_alloc (ac, sa) x" using live_class_alloc(1) [OF C(3)] x by simp
  have "x \<in> set (ac_freedAllocations ac @ held NoRelease) \<union> live p i" using x by simp
  then obtain t j where t: "t \<in> owned_slabs ac {}" "x = alloc_at ac t j" "j < carved_upto ac t" "j < getAllocsPerSlab ac"
    "getSlabForMemory x = t" "getAllocIdx ac t x = j" "getSlabHeader_memory sa x = Some (slabIdx sa t)" "t \<in> carved sa"
    by (rule ac_ok_slab [OF R(5)])
  then show "getSlabHeader_memory sa x = Some (slabIdx sa (getSlabForMemory x))" "getSlabForMemory x \<in> carved sa" by simp_all
  show "poolId (header_of sa (getSlabForMemory x)) = of_nat p"
    "classId (header_of sa (getSlabForMemory x)) = of_nat i" "allocSize (header_of sa (getSlabForMemory x)) = ac_allocationSize ac"
    using ac_shapeD(9) [OF R(6) t(1)] C t(5) by (auto simp: class_header_def)
  show "x + unat (ac_allocationSize ac) \<le> getSlabForMemory x + kSize" "getSlabForMemory x \<le> x"
    using alloc_fits [OF ac_shapeD(2) [OF R(6)] t(4)] t(2,5) by (simp_all add: alloc_at_def memoryAtOffset_def)
qed

lemma live_apart:
  assumes inv: "all_inv (pm, sa) live used"
    and x: "p < length (pm_pools pm)" "i < length (mp_ac (pm_pools pm ! p))" "x \<in> live p i"
    and y: "q < length (pm_pools pm)" "j < length (mp_ac (pm_pools pm ! q))" "y \<in> live q j"
  shows "(p, i, x) = (q, j, y) \<or> x + unat (ac_allocationSize (mp_ac (pm_pools pm ! p) ! i)) \<le> y \<or>
    y + unat (ac_allocationSize (mp_ac (pm_pools pm ! q) ! j)) \<le> x"
proof -
  note X = live_header [OF inv x] and Y = live_header [OF inv y] and I = all_invD [OF inv]
  let ?s = "getSlabForMemory x" and ?t = "getSlabForMemory y"
  have dv: "kSize dvd ?s" "kSize dvd ?t" using X(7) Y(7) by (simp_all add: carved_def)
  consider "?s < ?t" | "?t < ?s" | "?s = ?t" by linarith
  then show ?thesis
  proof cases
    case 1
    then show ?thesis using next_multiple [OF dv 1] X(8) Y(9) by linarith
  next
    case 2
    then show ?thesis using next_multiple [OF dv(2,1) 2] Y(8) X(9) by linarith
  next
    case 3
    have pq: "p = q" using X(3) Y(3) 3 pool_ids_inj [of p q] x(1) y(1) I(6) by simp
    have "length (mp_ac (pm_pools pm ! p)) \<le> 128" using pool_invD(1) [OF I(4) [OF x(1)]] by (simp add: pool_shape_def)
    then have "i \<le> 127" "j \<le> 127" using x(2) y(2) pq by simp_all
    then have ij: "i = j" using X(4) Y(4) 3 sint_of_nat_byte [of i] sint_of_nat_byte [of j] by simp
    show ?thesis using class_allocs_apart [OF X(2,1), of y] Y(1) pq ij by (cases "x = y") auto
  qed
qed


section \<open>The clients of the allocator\<close>

text \<open>
  What clients can do: create an allocator, add and resize pools, allocate from a pool and free what
  they hold. \<open>hold\<close> records what each allocation in use was asked for: the pool, the size and the address.
\<close>

inductive alloc_reach :: "MemoryAllocator \<Rightarrow> (PoolId \<times> u32 \<times> addr) set \<Rightarrow> bool" where
  starts: "MemoryAllocator_new config m n owns ok hdrs = Inr ma \<Longrightarrow> unat n < 2 ^ 54 - kSize \<Longrightarrow> m + unat n < 2 ^ 64 \<Longrightarrow> alloc_reach ma {}"
| adds_pool: "alloc_reach ma hold \<Longrightarrow> addPool name n sizes ensure ma = (r, ma') \<Longrightarrow> alloc_reach ma' hold"
| resizes: "alloc_reach ma hold \<Longrightarrow> resizePools src dest bytes (ma_state ma) = Inr (b, s) \<Longrightarrow> alloc_reach (set_state s ma) hold"
| shrinks: "alloc_reach ma hold \<Longrightarrow> shrinkPool pid bytes (ma_state ma) = Inr (b, s) \<Longrightarrow> alloc_reach (set_state s ma) hold"
| grows_pool: "alloc_reach ma hold \<Longrightarrow> growPool pid bytes (ma_state ma) = Inr (b, s) \<Longrightarrow> alloc_reach (set_state s ma) hold"
| allocs: "alloc_reach ma hold \<Longrightarrow> MemoryAllocator_allocate id pid sz ma = (r, ma') \<Longrightarrow>
     alloc_reach ma' (case r of Inr (Some x) \<Rightarrow> insert (pid, sz, x) hold | _ \<Rightarrow> hold)"
| frees_alloc: "alloc_reach ma hold \<Longrightarrow> (pid, sz, x) \<in> hold \<Longrightarrow> MemoryAllocator_free x ma = (r, ma') \<Longrightarrow> alloc_reach ma' (hold - {(pid, sz, x)})"

definition held_in :: "u32 list list \<Rightarrow> (nat \<Rightarrow> nat \<Rightarrow> addr set) \<Rightarrow> nat \<Rightarrow> nat \<Rightarrow> PoolId \<times> u32 \<times> addr \<Rightarrow> bool" where
  "held_in sizes live p i = (\<lambda>(pid, sz, x). p < length sizes \<and> i < length (sizes ! p) \<and> pid = of_nat p \<and> x \<in> live p i \<and> sz \<le> sizes ! p ! i)"

definition client_inv :: "pms \<Rightarrow> (PoolId \<times> u32 \<times> addr) set \<Rightarrow> (nat \<Rightarrow> nat \<Rightarrow> addr set) \<Rightarrow> addr set \<Rightarrow> bool" where
  "client_inv s hold live used \<longleftrightarrow> all_inv s live used \<and> inj_on (\<lambda>(pid, sz, x). x) hold \<and>
     (\<forall>h \<in> hold. \<exists>p i. held_in (pool_sizes s) live p i h)"

lemma pool_sizes_nth:
  assumes "all_inv (pm, sa) live used" and "p < length (pool_sizes (pm, sa))"
  shows "p < length (pm_pools pm)" "pool_sizes (pm, sa) ! p = map ac_allocationSize (mp_ac (pm_pools pm ! p))"
proof -
  show p: "p < length (pm_pools pm)" using assms(2) by (simp add: pool_sizes_def)
  show "pool_sizes (pm, sa) ! p = map ac_allocationSize (mp_ac (pm_pools pm ! p))"
    using pool_invD(1) [OF all_invD(4) [OF assms(1) p]] p by (simp add: pool_sizes_def pool_shape_def)
qed

lemma held_live:
  assumes inv: "all_inv (pm, sa) live used" and h: "held_in (pool_sizes (pm, sa)) live p i (pid, sz, x)"
  shows "p < length (pm_pools pm)" "i < length (mp_ac (pm_pools pm ! p))" "x \<in> live p i"
    "pid = of_nat p" "sz \<le> ac_allocationSize (mp_ac (pm_pools pm ! p) ! i)"
  using h pool_sizes_nth [OF inv, of p] by (auto simp: held_in_def)

lemma state_of_set [simp]: "ma_state (set_state s ma) = s"
  by (simp add: ma_state_def set_state_def)

lemma live_unique:
  assumes "all_inv (pm, sa) live used" and "p < length (pm_pools pm)" "i < length (mp_ac (pm_pools pm ! p))" "x \<in> live p i"
    and "q < length (pm_pools pm)" "j < length (mp_ac (pm_pools pm ! q))" "x \<in> live q j"
  shows "p = q \<and> i = j"
  using live_apart [OF assms] ac_shapeD(2) [OF live_header(2) [OF assms(1-4)]] ac_shapeD(2) [OF live_header(2) [OF assms(1,5-7)]] by auto

lemma allocate_outcome:
  assumes A: "all_inv (ma_state ma) live used" and run: "MemoryAllocator_allocate id pid sz ma = (r, ma')"
  obtains (refused) "r = Inl invalid_argument" "ma_state ma' = ma_state ma"
    | (served) p i where "p < length (pm_pools (fst (ma_state ma)))" "pid = of_nat p"
      "getAllocationClassFor_size sz (pm_pools (fst (ma_state ma)) ! p) = Inr i"
      "on_pool p (MemoryPool_allocate id sz) (ma_state ma) = (r, ma_state ma')"
proof -
  obtain pm sa where s: "ma_state ma = (pm, sa)" by force
  have pm: "ma_memoryPoolManager ma = pm" using s by (simp add: ma_state_def)
  show thesis
  proof (cases "getPoolById pid pm")
    case (Inl e)
    then have "e = invalid_argument" by (simp add: getPoolById_def split: if_splits)
    then show thesis using run refused s Inl by (auto simp: MemoryAllocator_allocate_def with_pool_def pm)
  next
    case (Inr p)
    have p: "p < length (pm_pools pm)" "pid = of_nat p" using getPoolById_inv [OF all_invD(1) [OF A [unfolded s]]] Inr by blast+
    have o: "on_pool p (MemoryPool_allocate id sz) (pm, sa) = (r, ma_state ma')"
      using run Inr by (auto simp: MemoryAllocator_allocate_def with_pool_def pm s split: prod.splits)
    show thesis
    proof (cases "getAllocationClassFor_size sz (pm_pools pm ! p)")
      case (Inl e)
      then have "e = invalid_argument" by (auto simp: getAllocationClassFor_size_def getAllocationClassId_size_def split: if_splits)
      then show thesis using refused_size [OF Inl p(1), of id sa] o refused s by simp
    next
      case (Inr i)
      then show thesis using served p o s by simp
    qed
  qed
qed

text \<open>A new allocation is at an address nobody holds.\<close>

lemma new_allocation:
  assumes A: "all_inv (pm', sa') (live(p := (live p)(i := insert x (live p i)))) used" and x: "x \<notin> live p i"
    and new: "held_in (pool_sizes (pm', sa')) (live(p := (live p)(i := insert x (live p i)))) p i (pid, sz, x)"
    and old: "held_in (pool_sizes (pm', sa')) live q j (pid', sz', y)"
  shows "y \<noteq> x"
proof
  assume "y = x"
  have "held_in (pool_sizes (pm', sa')) (live(p := (live p)(i := insert x (live p i)))) q j (pid', sz', y)"
    using old by (auto simp: held_in_def)
  note h1 = held_live [OF A this] and h2 = held_live [OF A new]
  have "q = p \<and> j = i" using live_unique [OF A h1(1-3), of p i] h2(1-3) \<open>y = x\<close> by simp
  then show False using old x \<open>y = x\<close> by (auto simp: held_in_def)
qed

lemma client_allocates:
  assumes inv: "client_inv (ma_state ma) hold live used" and run: "MemoryAllocator_allocate id pid sz ma = (r, ma')"
  shows "(\<exists>live' used'. client_inv (ma_state ma') (case r of Inr (Some x) \<Rightarrow> insert (pid, sz, x) hold | _ \<Rightarrow> hold) live' used') \<and>
    (\<forall>x. r = Inr (Some x) \<longrightarrow> (pid, sz, x) \<notin> hold)"
proof -
  have A: "all_inv (ma_state ma) live used" and H: "\<forall>h \<in> hold. \<exists>p i. held_in (pool_sizes (ma_state ma)) live p i h"
    "inj_on (\<lambda>(pid, sz, x). x) hold" using inv by (auto simp: client_inv_def)
  from A run show ?thesis
  proof (cases rule: allocate_outcome)
    case refused
    then show ?thesis using inv by auto
  next
    case (served p i)
    obtain pm sa where s: "ma_state ma = (pm, sa)" by force
    obtain pm' sa' where s': "ma_state ma' = (pm', sa')" by force
    note A' = A [unfolded s] and sv = served [unfolded s s' fst_conv]
    from allocate_all [OF A' sv(1,3,4)] obtain q used' where q: "r = Inr q" "set_option q \<inter> live p i = {}"
      "all_inv (pm', sa') (live(p := (live p)(i := set_option q \<union> live p i))) used'" "pool_sizes (pm', sa') = pool_sizes (pm, sa)" by blast
    let ?live = "live(p := (live p)(i := set_option q \<union> live p i))"
    have old: "\<forall>h \<in> hold. \<exists>p i. held_in (pool_sizes (pm', sa')) live p i h" using H(1) q(4) s by simp
    then have keep: "\<forall>h \<in> hold. \<exists>p i. held_in (pool_sizes (pm', sa')) ?live p i h"
      unfolding held_in_def by (fastforce split: prod.splits)
    show ?thesis
    proof (cases q)
      case None
      then show ?thesis using q keep H(2) s' by (auto simp: client_inv_def)
    next
      case (Some x)
      have "pool_shape (pm_pools pm ! p)" using pool_invD(1) [OF all_invD(4) [OF A' sv(1)]] .
      from class_index [OF this sv(3)] have new: "held_in (pool_sizes (pm', sa')) ?live p i (pid, sz, x)"
        using sv(1,2) pool_sizes_nth [OF A', of p] by (simp add: held_in_def q(4) Some) (simp add: pool_sizes_def)
      have "y \<noteq> x" if h: "(pid', sz', y) \<in> hold" for pid' sz' y
        using new_allocation [of pm' sa' live p i x used' pid sz] q(2,3) new old h Some by fastforce
      then have "inj_on (\<lambda>(pid, sz, x). x) (insert (pid, sz, x) hold)" "(pid, sz, x) \<notin> hold" using H(2) by (auto simp: inj_on_def)
      then show ?thesis using q keep new s' Some by (auto simp: client_inv_def)
    qed
  qed
qed


lemma client_frees:
  assumes inv: "client_inv (ma_state ma) hold live used" and h: "(pid, sz, x) \<in> hold"
  shows "\<exists>ma' live'. MemoryAllocator_free x ma = (Inr (), ma') \<and> client_inv (ma_state ma') (hold - {(pid, sz, x)}) live' used"
proof -
  obtain pm sa where s: "ma_state ma = (pm, sa)" by force
  have pm: "ma_memoryPoolManager ma = pm" "ma_slabAllocator ma = sa" using s by (simp_all add: ma_state_def)
  have A: "all_inv (pm, sa) live used" and H: "\<forall>h \<in> hold. \<exists>p i. held_in (pool_sizes (pm, sa)) live p i h"
    "inj_on (\<lambda>(pid, sz, x). x) hold" using inv by (auto simp: client_inv_def s)
  from H(1) h obtain p i where hi: "held_in (pool_sizes (pm, sa)) live p i (pid, sz, x)" by blast
  note L = held_live [OF A hi]
  note X = live_header [OF A L(1-3)]
  have "getPoolById (of_nat p) pm = Inr p" using getPoolById_inv [OF all_invD(1) [OF A]] L(1) by blast
  then have g: "getMemoryPool x ma = Inr p" using X(3,6) by (simp add: getMemoryPool_def pm header_of_def)
  from free_all [OF A L(1-3)] obtain s' where f: "on_pool p (MemoryPool_free x) (pm, sa) = (Inr (), s')"
    "all_inv s' (live(p := (live p)(i := live p i - {x}))) used" "pool_sizes s' = pool_sizes (pm, sa)" by blast
  have "\<exists>p' i'. held_in (pool_sizes s') (live(p := (live p)(i := live p i - {x}))) p' i' (pid', sz', y)"
    if y: "(pid', sz', y) \<in> hold - {(pid, sz, x)}" for pid' sz' y
  proof -
    have "y \<noteq> x" using y h H(2) by (auto simp: inj_on_def)
    moreover obtain p' i' where "held_in (pool_sizes (pm, sa)) live p' i' (pid', sz', y)" using H(1) y by blast
    ultimately show ?thesis unfolding f(3) by (intro exI [of _ p'] exI [of _ i']) (auto simp: held_in_def)
  qed
  then have "client_inv s' (hold - {(pid, sz, x)}) (live(p := (live p)(i := live p i - {x}))) used"
    using f(2) H(2) by (auto simp: client_inv_def intro: inj_on_subset)
  then show ?thesis using f(1) g s by (auto simp: MemoryAllocator_free_def)
qed

lemma client_resized:
  assumes inv: "client_inv (pm, sa) hold live used" and pm': "pm_inv (pm', sa)" and rs: "resized pm pm'"
  shows "client_inv (pm', sa) hold live used"
proof -
  have "all_inv (pm', sa) live used" using resized_all [OF _ pm' rs] inv by (simp add: client_inv_def)
  moreover have "map mp_acSizes (pm_pools pm') = map mp_acSizes (pm_pools pm)"
  proof (rule nth_equalityI)
    fix i assume "i < length (map mp_acSizes (pm_pools pm'))"
    then have i: "i < length (pm_pools pm)" "i < length (pm_pools pm')" using resized_length [OF rs] by simp_all
    from arg_cong [OF resized_nth [OF rs i(1)], of mp_acSizes]
    show "map mp_acSizes (pm_pools pm') ! i = map mp_acSizes (pm_pools pm) ! i" using i by simp
  qed (simp add: resized_length [OF rs])
  ultimately show ?thesis using inv by (simp add: client_inv_def pool_sizes_def)
qed

lemma resizings_keep:
  assumes inv: "pm_inv (pm, sa)"
  shows "resizePools src dest bytes (pm, sa) = Inr (b, s) \<Longrightarrow> \<exists>pm'. s = (pm', sa) \<and> pm_inv (pm', sa) \<and> resized pm pm'"
    and "shrinkPool pid bytes (pm, sa) = Inr (b, s) \<Longrightarrow> \<exists>pm'. s = (pm', sa) \<and> pm_inv (pm', sa) \<and> resized pm pm'"
    and "growPool pid bytes (pm, sa) = Inr (b, s) \<Longrightarrow> \<exists>pm'. s = (pm', sa) \<and> pm_inv (pm', sa) \<and> resized pm pm'"
proof -
  assume r: "resizePools src dest bytes (pm, sa) = Inr (b, s)"
  have "resized pm (fst s)" using r
    by (auto simp: resizePools_def ebind_Inr_iff Let_def split: if_splits intro!: resized_set_size resized_refl)
  then show "\<exists>pm'. s = (pm', sa) \<and> pm_inv (pm', sa) \<and> resized pm pm'"
    using resizePools_inv [OF inv, of src dest bytes] r by (cases s) auto
next
  assume r: "shrinkPool pid bytes (pm, sa) = Inr (b, s)"
  then obtain i where "getPoolById pid pm = Inr i" by (auto simp: shrinkPool_def ebind_Inr_iff)
  then have i: "i < length (pm_pools pm)" "pid = of_nat i" using getPoolById_inv [OF inv] by blast+
  have "resized pm (fst s)" using r by (auto simp: shrinkPool_def ebind_Inr_iff split: if_splits intro!: resized_set_size resized_refl)
  then show "\<exists>pm'. s = (pm', sa) \<and> pm_inv (pm', sa) \<and> resized pm pm'" using shrinkPool_inv [OF inv i(1), of bytes] r i(2) by auto
next
  assume r: "growPool pid bytes (pm, sa) = Inr (b, s)"
  then obtain i where "getPoolById pid pm = Inr i" by (auto simp: growPool_def ebind_Inr_iff)
  then have i: "i < length (pm_pools pm)" "pid = of_nat i" using getPoolById_inv [OF inv] by blast+
  have "resized pm (fst s)" using r by (auto simp: growPool_def ebind_Inr_iff split: if_splits intro!: resized_set_size resized_refl)
  then show "\<exists>pm'. s = (pm', sa) \<and> pm_inv (pm', sa) \<and> resized pm pm'" using growPool_inv [OF inv i(1), of bytes] r i(2) by auto
qed


lemma client_adds_pool:
  assumes inv: "client_inv (ma_state ma) hold live used" and run: "addPool name n sizes ensure ma = (r, ma')"
  shows "\<exists>live'. client_inv (ma_state ma') hold live' used"
proof -
  obtain pm sa where s: "ma_state ma = (pm, sa)" by force
  have A: "all_inv (pm, sa) live used" and H: "\<forall>h \<in> hold. \<exists>p i. held_in (pool_sizes (pm, sa)) live p i h"
    "inj_on (\<lambda>(pid, sz, x). x) hold" using inv by (auto simp: client_inv_def s)
  have "ma' = ma \<or> (\<exists>sizes'. createNewPool name n sizes' (ma_state ma) = (r, ma_state ma'))"
    using run by (auto simp: addPool_def Let_def split: if_splits prod.splits)
  then consider "ma_state ma' = (pm, sa)" | (new) sizes' where "createNewPool name n sizes' (pm, sa) = (r, ma_state ma')"
    using s by auto
  then show ?thesis
  proof cases
    case 1
    then show ?thesis using inv s by auto
  next
    case new
    let ?live = "if \<exists>pid. r = Inr pid then live(length (pm_pools pm) := \<lambda>_. {}) else live"
    note C = create_all [OF A new]
    have l: "length (pool_sizes (pm, sa)) = length (pm_pools pm)" by (simp add: pool_sizes_def)
    have p: "p < length (pool_sizes (ma_state ma')) \<and> pool_sizes (ma_state ma') ! p = pool_sizes (pm, sa) ! p" if "p < length (pm_pools pm)" for p
      using C that l by (metis length_take min_less_iff_conj nth_take)
    have "\<exists>p i. held_in (pool_sizes (ma_state ma')) ?live p i h" if "h \<in> hold" for h
    proof -
      from H(1) that obtain p i where h: "held_in (pool_sizes (pm, sa)) live p i h" by blast
      then have "p < length (pm_pools pm)" using l by (auto simp: held_in_def)
      from h p [OF this] this have "held_in (pool_sizes (ma_state ma')) ?live p i h" by (auto simp: held_in_def)
      then show ?thesis by blast
    qed
    then show ?thesis using C H(2) by (auto simp: client_inv_def)
  qed
qed

lemma client_starts:
  assumes new: "MemoryAllocator_new config m n owns ok hdrs = Inr ma" and "unat n < 2 ^ 54 - kSize" "m + unat n < 2 ^ 64"
  shows "client_inv (ma_state ma) {} (\<lambda>_ _. {}) {}"
proof -
  from new obtain sa where sa: "SlabAllocator_new m n owns (slab_config config) ok hdrs = Inr sa" "ma_state ma = (MemoryPoolManager_new, sa)"
    by (auto simp: MemoryAllocator_new_def ebind_Inr_iff ma_state_def)
  have i: "sa_inv sa {}" by (rule new_inv [OF sa(1) assms(2,3)])
  have "carved sa = {}" using sa(1) by (auto simp: SlabAllocator_new_iff [OF assms(2,3)] Let_def carved_def)
  then show ?thesis using i by (simp add: client_inv_def all_inv_def sa(2) known_headers_def pm_inv_def MemoryPoolManager_new_def reserved_def)
qed

lemma alloc_reach_inv: "alloc_reach ma hold \<Longrightarrow> \<exists>live used. client_inv (ma_state ma) hold live used"
proof (induction rule: alloc_reach.induct)
  case (starts config m n owns ok hdrs ma)
  then show ?case using client_starts by blast
next
  case (adds_pool ma hold name n sizes ensure r ma')
  then show ?case using client_adds_pool by blast
next
  case (resizes ma hold src dest bytes b s)
  then obtain pm sa live used where i: "ma_state ma = (pm, sa)" "client_inv (pm, sa) hold live used" by (metis prod.collapse)
  then have "pm_inv (pm, sa)" by (simp add: client_inv_def all_inv_def)
  from resizings_keep(1) [OF this] resizes(2) i show ?case using client_resized by (metis state_of_set)
next
  case (shrinks ma hold pid bytes b s)
  then obtain pm sa live used where i: "ma_state ma = (pm, sa)" "client_inv (pm, sa) hold live used" by (metis prod.collapse)
  then have "pm_inv (pm, sa)" by (simp add: client_inv_def all_inv_def)
  from resizings_keep(2) [OF this] shrinks(2) i show ?case using client_resized by (metis state_of_set)
next
  case (grows_pool ma hold pid bytes b s)
  then obtain pm sa live used where i: "ma_state ma = (pm, sa)" "client_inv (pm, sa) hold live used" by (metis prod.collapse)
  then have "pm_inv (pm, sa)" by (simp add: client_inv_def all_inv_def)
  from resizings_keep(3) [OF this] grows_pool(2) i show ?case using client_resized by (metis state_of_set)
next
  case (allocs ma hold pid sz r ma')
  then show ?case using client_allocates by blast
next
  case (frees_alloc ma hold pid sz x r ma')
  then obtain live used where "client_inv (ma_state ma) hold live used" by blast
  from client_frees [OF this frees_alloc(2)] frees_alloc(3) show ?case by auto
qed


section \<open>Properties\<close>

lemma client_apart:
  assumes inv: "client_inv s hold live used" and x: "(pid, sz, x) \<in> hold" and y: "(pid', sz', y) \<in> hold"
  shows "(pid, sz, x) = (pid', sz', y) \<or> x + unat sz \<le> y \<or> y + unat sz' \<le> x"
proof -
  obtain pm sa where s: "s = (pm, sa)" by force
  have A: "all_inv (pm, sa) live used" using inv by (simp add: client_inv_def s)
  obtain p i q j where "held_in (pool_sizes (pm, sa)) live p i (pid, sz, x)" "held_in (pool_sizes (pm, sa)) live q j (pid', sz', y)"
    using inv x y unfolding client_inv_def s by blast
  note X = held_live [OF A this(1)] and Y = held_live [OF A this(2)]
  show ?thesis
  proof (cases "x = y")
    case True
    then show ?thesis using inv x y by (auto simp: client_inv_def inj_on_def)
  next
    case False
    then show ?thesis using live_apart [OF A X(1-3) Y(1-3)] X(5) Y(5) unfolding word_le_nat_alt by auto
  qed
qed

lemma client_memory:
  assumes inv: "client_inv (ma_state ma) hold live used" and x: "(pid, sz, x) \<in> hold"
  shows "sa_slabMemoryStart (ma_slabAllocator ma) \<le> x \<and> x + unat sz \<le> getSlabMemoryEnd (ma_slabAllocator ma) \<and>
    (\<exists>info. getAllocInfo x ma = Inr info \<and> ai_poolId info = pid \<and> unat sz \<le> unat (ai_allocSize info))"
proof -
  define pm sa where s: "pm = ma_memoryPoolManager ma" "sa = ma_slabAllocator ma"
  have A: "all_inv (pm, sa) live used" using inv by (simp add: client_inv_def s ma_state_def)
  obtain p i where "held_in (pool_sizes (pm, sa)) live p i (pid, sz, x)"
    using inv x unfolding client_inv_def s ma_state_def by blast
  note X = held_live [OF A this]
  note L = live_header [OF A X(1-3)]
  have sz: "unat sz \<le> unat (ac_allocationSize (mp_ac (pm_pools pm ! p) ! i))" using X(5) by (simp add: word_le_nat_alt)
  have g: "sa_geometry sa" using all_invD(2) [OF A] sa_invD(1) by blast
  have t: "sa_slabMemoryStart sa \<le> getSlabForMemory x" "getSlabForMemory x < sa_nextSlabAllocation sa" "kSize dvd getSlabForMemory x"
    using L(7) by (auto simp: carved_def)
  have "getSlabForMemory x + kSize \<le> sa_nextSlabAllocation sa" "sa_nextSlabAllocation sa \<le> getSlabMemoryEnd sa"
    using next_multiple [OF t(3) _ t(2)] g by (auto simp: sa_geometry_def)
  then have "sa_slabMemoryStart sa \<le> x" "x + unat sz \<le> getSlabMemoryEnd sa" using t(1) L(8,9) sz by linarith+
  moreover have "getAllocInfo x ma = Inr \<lparr>ai_poolId = pid, ai_classId = of_nat i, ai_allocSize = ucast (ac_allocationSize (mp_ac (pm_pools pm ! p) ! i))\<rparr>"
    using L(3-6) X(4) by (simp add: getAllocInfo_def header_of_def Let_def flip: s)
  moreover have "unat (ucast w :: u64) = unat w" for w :: u32
  proof -
    have "unat w < 2 ^ LENGTH(32)" by (rule unsigned_less)
    then show ?thesis by (simp add: unsigned_ucast_eq take_bit_nat_eq_self)
  qed
  ultimately show ?thesis using sz by (auto simp: s)
qed

text \<open>
  C1. Allocations never overlap, whichever pools and classes they are of. In every state that creating
  an allocator, adding and resizing pools, allocating and freeing can reach: each allocation a client
  holds lies within the slab memory, the allocator attributes it to the pool it was asked of, with an
  allocation size that holds what was asked for, and freeing it succeeds; no two of them overlap;
  an allocation is refused with an error only for an invalid argument, and then nothing changes; and memory
  that is handed out overlaps none that is held.
\<close>

theorem allocations_never_overlap:
  assumes "alloc_reach ma hold"
  shows "(\<forall>(pid, sz, x) \<in> hold. sa_slabMemoryStart (ma_slabAllocator ma) \<le> x \<and> x + unat sz \<le> getSlabMemoryEnd (ma_slabAllocator ma) \<and>
      (\<exists>info. getAllocInfo x ma = Inr info \<and> ai_poolId info = pid \<and> unat sz \<le> unat (ai_allocSize info)) \<and>
      (\<exists>ma'. MemoryAllocator_free x ma = (Inr (), ma'))) \<and>
    (\<forall>(pid, sz, x) \<in> hold. \<forall>(pid', sz', y) \<in> hold. (pid, sz, x) = (pid', sz', y) \<or> x + unat sz \<le> y \<or> y + unat sz' \<le> x) \<and>
    (\<forall>pid sz. case MemoryAllocator_allocate id pid sz ma of
       (Inl e, ma') \<Rightarrow> e = invalid_argument \<and> ma_state ma' = ma_state ma
     | (Inr None, ma') \<Rightarrow> alloc_reach ma' hold
     | (Inr (Some x), ma') \<Rightarrow> alloc_reach ma' (insert (pid, sz, x) hold) \<and>
         (\<forall>(pid', sz', y) \<in> hold. x + unat sz \<le> y \<or> y + unat sz' \<le> x))"
proof (intro conjI ballI allI)
  from alloc_reach_inv [OF assms] obtain live used where inv: "client_inv (ma_state ma) hold live used" by blast
  show "case h of (pid, sz, x) \<Rightarrow> sa_slabMemoryStart (ma_slabAllocator ma) \<le> x \<and> x + unat sz \<le> getSlabMemoryEnd (ma_slabAllocator ma) \<and>
      (\<exists>info. getAllocInfo x ma = Inr info \<and> ai_poolId info = pid \<and> unat sz \<le> unat (ai_allocSize info)) \<and>
      (\<exists>ma'. MemoryAllocator_free x ma = (Inr (), ma'))" if "h \<in> hold" for h
    using client_memory [OF inv] client_frees [OF inv] that by (cases h) blast
  show "case h of (pid, sz, x) \<Rightarrow> \<forall>(pid', sz', y) \<in> hold. (pid, sz, x) = (pid', sz', y) \<or> x + unat sz \<le> y \<or> y + unat sz' \<le> x"
    if "h \<in> hold" for h
    using client_apart [OF inv] that by (cases h) blast
  fix pid sz
  obtain r ma' where run: "MemoryAllocator_allocate id pid sz ma = (r, ma')" by (rule prod.exhaust)
  have A: "all_inv (ma_state ma) live used" using inv by (simp add: client_inv_def)
  note step = alloc_reach.allocs [OF assms run]
  show "case MemoryAllocator_allocate id pid sz ma of
       (Inl e, ma') \<Rightarrow> e = invalid_argument \<and> ma_state ma' = ma_state ma
     | (Inr None, ma') \<Rightarrow> alloc_reach ma' hold
     | (Inr (Some x), ma') \<Rightarrow> alloc_reach ma' (insert (pid, sz, x) hold) \<and>
         (\<forall>(pid', sz', y) \<in> hold. x + unat sz \<le> y \<or> y + unat sz' \<le> x)"
  proof (cases r)
    case (Inl e)
    from A run show ?thesis
    proof (cases rule: allocate_outcome)
      case refused
      then show ?thesis using run by simp
    next
      case (served p i)
      then show ?thesis using allocate_all [of "fst (ma_state ma)" "snd (ma_state ma)" live used p sz i r "ma_state ma'"] A Inl by auto
    qed
  next
    case (Inr q)
    show ?thesis
    proof (cases q)
      case None
      then show ?thesis using step run Inr by simp
    next
      case (Some x)
      from client_allocates [OF inv run] Inr Some obtain live' used' where
        c: "client_inv (ma_state ma') (insert (pid, sz, x) hold) live' used'" "(pid, sz, x) \<notin> hold" by auto
      have "x + unat sz \<le> y \<or> y + unat sz' \<le> x" if "(pid', sz', y) \<in> hold" for pid' sz' y
        using client_apart [OF c(1), of pid sz x pid' sz' y] that c(2) by auto
      then show ?thesis using step run Inr Some by auto
    qed
  qed
qed

text \<open>A run: an allocator with one pool of two megabyte allocations hands out the first.\<close>

definition example_config :: MemoryAllocator_Config where
  "example_config = \<lparr>cf_allocSizes = {2097152}, cf_enableZeroedSlabAllocs = False, cf_disableFullCoredump = False, cf_lockMemory = False\<rparr>"

definition example_ma :: MemoryAllocator where
  "example_ma = \<lparr>ma_config = example_config, ma_slabAllocator = example_sa, ma_memoryPoolManager = MemoryPoolManager_new\<rparr>"

definition example_pool0 :: MemoryPool where
  "example_pool0 = new_example_pool\<lparr>mp_id := 0, mp_ac := [example_ac\<lparr>ac_poolId := 0\<rparr>]\<rparr>"

definition example_ma1 :: MemoryAllocator where
  "example_ma1 = example_ma\<lparr>ma_memoryPoolManager := \<lparr>pm_pools = [example_pool0], pm_poolsByName = [(''a'', 0)], pm_nextPoolId = 1\<rparr>\<rparr>"

lemma example_ma_new:
  "MemoryAllocator_new example_config kSize (3 * sizeof_Slab) False True (\<lambda>_. new_SlabHeader 0) = Inr example_ma"
  by (simp add: MemoryAllocator_new_def slab_config_def example_config_def example_sa_new checkConfig_def kMaxClasses_def example_ma_def)

lemma example_capacity: "capacity example_sa = 2 * kSize"
  by (simp add: capacity_def getNumUsableAndAdvisedSlabs_def getSlabMemoryEnd_def example_sa_def roundDownToSlabSize_unat unat_three_slabs)

lemma example_addPool: "addPool ''a'' (2 * sizeof_Slab) {} False example_ma = (Inr 0, example_ma1)"
proof -
  have "AllocationClass_new 0 0 2097152 example_sa = Inr (example_ac\<lparr>ac_poolId := 0\<rparr>)"
    by (simp add: AllocationClass_new_def AllocationClass_checkState_def example_ac_def sizeof_FreeAlloc_def
        kSize_def kNumSlabBits_def Let_def example_sa_facts)
  then have p: "MemoryPool_new 0 (2 * sizeof_Slab) {2097152} example_sa = Inr example_pool0"
    by (simp add: MemoryPool_new_def example_pool0_def new_example_pool_def MemoryPool_checkState_def Let_def kMinAllocSize_def kMinAllocPower_def kSize_def kNumSlabBits_def)
       (simp add: example_ac_def)
  have "pm_inv (MemoryPoolManager_new, example_sa)" by (simp add: pm_inv_def MemoryPoolManager_new_def reserved_def)
  from remaining_exact [OF this] have "unat (getRemainingSizeLocked (MemoryPoolManager_new, example_sa)) = 2 * kSize"
    by (simp add: example_capacity MemoryPoolManager_new_def reserved_def)
  moreover have "unat (2 * sizeof_Slab) = 2 * kSize" by (simp add: sizeof_Slab_def kSize_def kNumSlabBits_def)
  ultimately have "\<not> getRemainingSizeLocked (MemoryPoolManager_new, example_sa) < 2 * sizeof_Slab" by (simp add: word_less_nat_alt)
  then show ?thesis using p
    by (simp add: addPool_def createNewPool_def example_ma_def example_ma1_def example_config_def ma_state_def set_state_def kMaxClasses_def
        kMaxPools_manager_def MemoryPoolManager_new_def)
qed

lemma example_allocate: "\<exists>ma'. MemoryAllocator_allocate id 0 100 example_ma1 = (Inr (Some (2 * kSize)), ma')"
proof -
  have "\<not> allMemorySlabbed example_sa"
    by (simp add: allMemorySlabbed_def getSlabMemoryEnd_def example_sa_def roundDownToSlabSize_unat unat_three_slabs)
  then obtain sa' where make: "makeNewSlab 0 example_sa = (Some (2 * kSize), sa')"
    by (simp add: makeNewSlab_def makeNewSlabImpl_def example_sa_def)
  have gi: "getAllocationClassFor_size 100 example_pool0 = Inr 0"
    by (simp add: getAllocationClassFor_size_def getAllocationClassId_size_def example_pool0_def new_example_pool_def lower_bound_def)
  let ?pool = "example_pool0\<lparr>mp_ac := [example_ac\<lparr>ac_poolId := 0, ac_canAllocate := False\<rparr>]\<rparr>"
  have none: "on_ac 0 allocate (example_pool0, example_sa) = (None, (?pool, example_sa))"
    by (simp add: on_ac_def allocate_def allocateLocked_def canAllocateFromCurrentSlabLocked_def example_pool0_def new_example_pool_def example_ac_def)
  have again: "on_ac 0 allocate (?pool, example_sa) = (None, (?pool, example_sa))"
    by (simp add: on_ac_def allocate_def example_pool0_def)
  have room: "\<not> mp_allSlabsAllocated ?pool"
    by (simp add: mp_allSlabsAllocated_def getPoolAdvisedSize_def example_pool0_def new_example_pool_def sizeof_Slab_def kSize_def kNumSlabBits_def)
  have slab: "getSlabLocked (?pool, example_sa) = (Some (2 * kSize), (?pool\<lparr>mp_currSlabAllocSize := sizeof_Slab\<rparr>, sa'))"
    using room make by (simp add: getSlabLocked_def Let_def example_pool0_def new_example_pool_def)
  have "\<exists>s'. on_ac 0 (addSlabAndAllocate (2 * kSize)) (?pool\<lparr>mp_currSlabAllocSize := sizeof_Slab\<rparr>, sa') = (Some (2 * kSize), s')"
    by (simp add: on_ac_def addSlabAndAllocate_def addSlabLocked_def allocateLocked_def canAllocateFromCurrentSlabLocked_def
        setupCurrentSlabLocked_def allocateFromCurrentSlabLocked_def example_pool0_def example_ac_def memoryAtOffset_def Let_def)
  then have "\<exists>s'. MemoryPool_allocate id 100 (example_pool0, example_sa) = (Inr (Some (2 * kSize)), s')"
    using gi none again room slab by (auto simp: MemoryPool_allocate_def Let_def)
  then obtain mp sa2 where "MemoryPool_allocate id 100 (example_pool0, example_sa) = (Inr (Some (2 * kSize)), (mp, sa2))" by force
  then show ?thesis
    by (simp add: MemoryAllocator_allocate_def with_pool_def getPoolById_def example_ma1_def example_ma_def ma_state_def on_pool_def)
qed

theorem allocations_never_overlap_witness:
  "\<exists>ma. alloc_reach ma {(0, 100, 2 * kSize)} \<and> (\<exists>ma'. MemoryAllocator_free (2 * kSize) ma = (Inr (), ma'))"
proof -
  have "alloc_reach example_ma {}"
    by (rule alloc_reach.starts [OF example_ma_new]) (simp_all add: unat_three_slabs, simp_all add: kSize_def kNumSlabBits_def)
  then have r: "alloc_reach example_ma1 {}" by (rule alloc_reach.adds_pool) (rule example_addPool)
  obtain ma where "MemoryAllocator_allocate id 0 100 example_ma1 = (Inr (Some (2 * kSize)), ma)" using example_allocate by blast
  from alloc_reach.allocs [OF r this] have "alloc_reach ma {(0, 100, 2 * kSize)}" by simp
  moreover from allocations_never_overlap [OF this] have "\<exists>ma'. MemoryAllocator_free (2 * kSize) ma = (Inr (), ma')" by simp
  ultimately show ?thesis by blast
qed

end
