(* ===== verification/ChainedHashTable.thy ===== *)
theory ChainedHashTable
  imports Refcount SList
begin

text \<open>
  The access container (\<open>ChainedHashTable.h\<close>): an intrusive hash table from keys to items. The hooks
  of the items hold the compressed pointer to the next item of the chain; the model keeps keys, hooks and
  reference count words in a store indexed by address, so that every write of the code is a write to
  the store. Each operation runs under the exclusive or shared lock of its bucket and is one step; a walk
  along a chain that does not end is the value \<open>None\<close>. The function that makes handles
  (\<open>T::HandleMaker\<close>) is an argument. The specification is a partial map from keys to addresses.
\<close>

section \<open>Hashing\<close>

type_synonym Key = "u8 list"

abbreviation murmur_m :: u32 where "murmur_m \<equiv> 0x5bd1e995"

definition read32 :: "u8 \<Rightarrow> u8 \<Rightarrow> u8 \<Rightarrow> u8 \<Rightarrow> u32" where
  "read32 a b c d = ucast a OR push_bit 8 (ucast b) OR push_bit 16 (ucast c) OR push_bit 24 (ucast d)"

fun murmur_blocks :: "u32 \<Rightarrow> u8 list \<Rightarrow> u32 \<times> u8 list" where
  "murmur_blocks h (a # b # c # d # data) =
     (let k1 = read32 a b c d * murmur_m; k2 = k1 XOR drop_bit 24 k1; k3 = k2 * murmur_m
      in murmur_blocks ((h * murmur_m) XOR k3) data)"
| "murmur_blocks h data = (h, data)"

definition murmur_tail :: "u32 \<Rightarrow> u8 list \<Rightarrow> u32" where
  "murmur_tail h data =
     (let h1 = (if length data = 3 then h XOR push_bit 16 (ucast (data ! 2)) else h);
          h2 = (if length data \<in> {2, 3} then h1 XOR push_bit 8 (ucast (data ! 1)) else h1)
      in if length data \<in> {1, 2, 3} then (h2 XOR ucast (data ! 0)) * murmur_m else h2)"

definition murmurHash2 :: "u8 list \<Rightarrow> u32 \<Rightarrow> u32" where
  "murmurHash2 key seed =
     (let (h, data) = murmur_blocks (seed XOR of_nat (length key)) key;
          h1 = murmur_tail h data;
          h2 = (h1 XOR drop_bit 13 h1) * murmur_m
      in h2 XOR drop_bit 15 h2)"

record Hasher =
  hs_hash :: "Key \<Rightarrow> u32"
  hs_magicId :: u32

definition MurmurHash2 :: Hasher where
  "MurmurHash2 = \<lparr>hs_hash = (\<lambda>key. murmurHash2 key 4193360111), hs_magicId = 2\<rparr>"

section \<open>Configuration\<close>

datatype PageSizeT = NORMAL | TWO_MB | ONE_GB

record ChainedHashTable_Config =
  cf_bucketsPower :: u32
  cf_locksPower :: u32
  cf_pageSize :: PageSizeT
  cf_hasher :: Hasher

definition kMaxBucketPower :: u32 where "kMaxBucketPower = 32"
abbreviation kMaxLockPower :: u32 where "kMaxLockPower \<equiv> 32"

definition ChainedHashTable_Config_new :: "u32 \<Rightarrow> u32 \<Rightarrow> Hasher \<Rightarrow> PageSizeT \<Rightarrow> exn + ChainedHashTable_Config" where
  "ChainedHashTable_Config_new bucketsPower locksPower hasher pageSize =
     (if bucketsPower > kMaxBucketPower \<or> locksPower > kMaxLockPower \<or> locksPower > bucketsPower then Inl invalid_argument
      else Inr \<lparr>cf_bucketsPower = bucketsPower, cf_locksPower = locksPower, cf_pageSize = pageSize, cf_hasher = hasher\<rparr>)"

definition ChainedHashTable_Config_default :: ChainedHashTable_Config where
  "ChainedHashTable_Config_default = \<lparr>cf_bucketsPower = 10, cf_locksPower = 5, cf_pageSize = NORMAL, cf_hasher = MurmurHash2\<rparr>"

definition getNumBuckets :: "ChainedHashTable_Config \<Rightarrow> size_t" where
  "getNumBuckets cfg = push_bit (unat (cf_bucketsPower cfg)) 1"

section \<open>The table\<close>

text \<open>The memory of the items: their keys, their hooks and their reference count words.\<close>

record 'c hitems =
  hi_key :: "addr \<Rightarrow> Key"
  hi_next :: "addr \<Rightarrow> 'c"
  hi_ref :: "addr \<Rightarrow> Value"

record 'c Hashtable =
  ht_numBuckets :: size_t
  ht_numBucketsMask :: size_t
  ht_hashTable :: "'c list"
  ht_restorable :: bool
  ht_compressor :: "'c PtrCompressor"
  ht_hasher :: Hasher

text \<open>\<open>nul\<close> is the pointer of the default constructor, \<open>CompressedPtrType{}\<close>.\<close>

definition Hashtable_new :: "'c \<Rightarrow> size_t \<Rightarrow> 'c PtrCompressor \<Rightarrow> Hasher \<Rightarrow> exn + 'c Hashtable" where
  "Hashtable_new nul numBuckets compressor hasher =
     (if numBuckets = 0 then Inl invalid_argument
      else if numBuckets AND (numBuckets - 1) \<noteq> 0 then Inl invalid_argument
      else Inr \<lparr>ht_numBuckets = numBuckets, ht_numBucketsMask = numBuckets - 1, ht_hashTable = replicate (unat numBuckets) nul,
             ht_restorable = False, ht_compressor = compressor, ht_hasher = hasher\<rparr>)"

text \<open>On memory of the user, whose contents are \<open>mem\<close>.\<close>

definition Hashtable_new_mem :: "'c \<Rightarrow> size_t \<Rightarrow> 'c list \<Rightarrow> 'c PtrCompressor \<Rightarrow> Hasher \<Rightarrow> bool \<Rightarrow> exn + 'c Hashtable" where
  "Hashtable_new_mem nul numBuckets mem compressor hasher resetMem =
     (if numBuckets = 0 then Inl invalid_argument
      else if numBuckets AND (numBuckets - 1) \<noteq> 0 then Inl invalid_argument
      else Inr \<lparr>ht_numBuckets = numBuckets, ht_numBucketsMask = numBuckets - 1,
             ht_hashTable = (if resetMem then replicate (unat numBuckets) nul else mem),
             ht_restorable = True, ht_compressor = compressor, ht_hasher = hasher\<rparr>)"

definition getHashNext :: "'c Hashtable \<Rightarrow> 'c hitems \<Rightarrow> addr \<Rightarrow> ptr" where
  "getHashNext ht m node = pc_unCompress (ht_compressor ht) (hi_next m node)"

definition setHashNextCompressed :: "addr \<Rightarrow> 'c \<Rightarrow> 'c hitems \<Rightarrow> 'c hitems" where
  "setHashNextCompressed node c m = m\<lparr>hi_next := (hi_next m)(node := c)\<rparr>"

definition setHashNext :: "'c Hashtable \<Rightarrow> addr \<Rightarrow> ptr \<Rightarrow> 'c hitems \<Rightarrow> 'c hitems" where
  "setHashNext ht node n m = setHashNextCompressed node (pc_compress (ht_compressor ht) n) m"

definition getBucket :: "'c Hashtable \<Rightarrow> Key \<Rightarrow> size_t" where
  "getBucket ht k = ucast (hs_hash (ht_hasher ht) k) AND ht_numBucketsMask ht"

definition bucketHead :: "'c Hashtable \<Rightarrow> size_t \<Rightarrow> ptr" where
  "bucketHead ht bucket = pc_unCompress (ht_compressor ht) (ht_hashTable ht ! unat bucket)"

definition setBucket :: "size_t \<Rightarrow> 'c \<Rightarrow> 'c Hashtable \<Rightarrow> 'c Hashtable" where
  "setBucket bucket c ht = ht\<lparr>ht_hashTable := (ht_hashTable ht)[unat bucket := c]\<rparr>"

partial_function (option) find_loop :: "'c Hashtable \<Rightarrow> 'c hitems \<Rightarrow> Key \<Rightarrow> ptr \<Rightarrow> ptr option" where
  "find_loop ht m key cur =
     (case cur of
        None \<Rightarrow> Some None
      | Some c \<Rightarrow> if hi_key m c \<noteq> key then find_loop ht m key (getHashNext ht m c) else Some (Some c))"

definition findInBucket :: "Key \<Rightarrow> size_t \<Rightarrow> 'c Hashtable \<times> 'c hitems \<Rightarrow> ptr option" where
  "findInBucket key bucket = (\<lambda>(ht, m). find_loop ht m key (bucketHead ht bucket))"

text \<open>The walk that remembers the node before.\<close>

partial_function (option) prev_loop :: "'c Hashtable \<Rightarrow> 'c hitems \<Rightarrow> Key \<Rightarrow> ptr \<Rightarrow> ptr \<Rightarrow> (ptr \<times> ptr) option" where
  "prev_loop ht m key prev cur =
     (case cur of
        None \<Rightarrow> Some (prev, None)
      | Some c \<Rightarrow> if key \<noteq> hi_key m c then prev_loop ht m key (Some c) (getHashNext ht m c) else Some (prev, Some c))"

definition findPrevInBucket :: "addr \<Rightarrow> size_t \<Rightarrow> 'c Hashtable \<times> 'c hitems \<Rightarrow> ptr option" where
  "findPrevInBucket node bucket = (\<lambda>(ht, m). map_option fst (prev_loop ht m (hi_key m node) None (bucketHead ht bucket)))"

definition insertInBucket :: "addr \<Rightarrow> size_t \<Rightarrow> 'c Hashtable \<times> 'c hitems \<Rightarrow> (bool \<times> 'c Hashtable \<times> 'c hitems) option" where
  "insertInBucket node bucket = (\<lambda>(ht, m).
     map_option (\<lambda>existing.
       if existing \<noteq> None then (False, (ht, m))
       else
         (let head = ht_hashTable ht ! unat bucket
          in (True, (setBucket bucket (pc_compress (ht_compressor ht) (Some node)) ht, setHashNextCompressed node head m))))
       (findInBucket (hi_key m node) bucket (ht, m)))"

definition insertOrReplaceInBucket :: "addr \<Rightarrow> size_t \<Rightarrow> 'c Hashtable \<times> 'c hitems \<Rightarrow> (ptr \<times> 'c Hashtable \<times> 'c hitems) option" where
  "insertOrReplaceInBucket node bucket = (\<lambda>(ht, m).
     map_option (\<lambda>(prev, cur).
       case cur of
         None \<Rightarrow>
           (let head = ht_hashTable ht ! unat bucket
            in (None, (setBucket bucket (pc_compress (ht_compressor ht) (Some node)) ht, setHashNextCompressed node head m)))
       | Some c \<Rightarrow>
           (let (ht1, m1) = (case prev of
                  Some p \<Rightarrow> (ht, setHashNext ht p (Some node) m)
                | None \<Rightarrow> (setBucket bucket (pc_compress (ht_compressor ht) (Some node)) ht, m))
            in (Some c, (ht1, setHashNext ht1 node (getHashNext ht1 m1 c) m1))))
       (prev_loop ht m (hi_key m node) None (bucketHead ht bucket)))"

definition removeFromBucket :: "addr \<Rightarrow> size_t \<Rightarrow> 'c Hashtable \<times> 'c hitems \<Rightarrow> ('c Hashtable \<times> 'c hitems) option" where
  "removeFromBucket node bucket = (\<lambda>(ht, m).
     map_option (\<lambda>prev.
       case prev of
         Some p \<Rightarrow> (ht, setHashNext ht p (getHashNext ht m node) m)
       | None \<Rightarrow> (setBucket bucket (hi_next m node) ht, m))
       (findPrevInBucket node bucket (ht, m)))"

partial_function (option) forEachElem_loop ::
  "'c Hashtable \<Rightarrow> (addr \<Rightarrow> 'c hitems \<times> 'b \<Rightarrow> 'c hitems \<times> 'b) \<Rightarrow> ptr \<Rightarrow> 'c hitems \<times> 'b \<Rightarrow> ('c hitems \<times> 'b) option" where
  "forEachElem_loop ht func cur s =
     (case cur of
        None \<Rightarrow> Some s
      | Some c \<Rightarrow> (let s1 = func c s in forEachElem_loop ht func (getHashNext ht (fst s1) c) s1))"

definition forEachBucketElem ::
  "(addr \<Rightarrow> 'c hitems \<times> 'b \<Rightarrow> 'c hitems \<times> 'b) \<Rightarrow> size_t \<Rightarrow> 'c Hashtable \<Rightarrow> 'c hitems \<times> 'b \<Rightarrow> ('c hitems \<times> 'b) option" where
  "forEachBucketElem func bucket ht s = forEachElem_loop ht func (bucketHead ht bucket) s"

definition getBucketNumElems :: "size_t \<Rightarrow> 'c Hashtable \<times> 'c hitems \<Rightarrow> u32 option" where
  "getBucketNumElems bucket = (\<lambda>(ht, m).
     map_option snd (forEachElem_loop ht (\<lambda>c (m, numElems). (m, numElems + 1)) (bucketHead ht bucket) (m, 0 :: u32)))"


section \<open>The container\<close>

record DistributionStats =
  ds_numKeys :: u64
  ds_numBuckets :: u64
  ds_itemDistribution :: "u32 \<Rightarrow> u64"

record 'c ht_Container =
  cn_config :: ChainedHashTable_Config
  cn_ht :: "'c Hashtable"
  cn_numIterators :: u32
  cn_cachedStats :: DistributionStats
  cn_canRecomputeDistributionStats :: bool
  cn_cachedStatsUpdateTime :: int
  cn_numKeys :: u64

type_synonym 'c table = "'c ht_Container \<times> 'c hitems"

text \<open>
  A handle is the pointer it holds. Making one may throw, may give the null handle and may change
  reference counts; \<open>NullDereference\<close> is the undefined access through a null pointer.
\<close>

datatype 'e table_error = Thrown 'e | NullDereference

type_synonym ('c, 'e) handle_maker = "ptr \<Rightarrow> 'c hitems \<Rightarrow> ('e + ptr) \<times> 'c hitems"

definition set_ref :: "addr \<Rightarrow> (Value \<Rightarrow> Value) \<Rightarrow> 'c hitems \<Rightarrow> 'c hitems" where
  "set_ref node f m = m\<lparr>hi_ref := (hi_ref m)(node := f (hi_ref m node))\<rparr>"

definition kDefaultHandleMaker :: "('c, refcount_error) handle_maker" where
  "kDefaultHandleMaker t m =
     (case t of
        None \<Rightarrow> (Inr None, m)
      | Some a \<Rightarrow> (case incRef (hi_ref m a) of
                    (Inl e, v) \<Rightarrow> (Inl e, set_ref a (\<lambda>_. v) m)
                  | (Inr _, v) \<Rightarrow> (Inr (Some a), set_ref a (\<lambda>_. v) m)))"

definition container_of :: "ChainedHashTable_Config \<Rightarrow> 'c Hashtable \<Rightarrow> u64 \<Rightarrow> 'c ht_Container" where
  "container_of cfg ht numKeys =
     \<lparr>cn_config = cfg, cn_ht = ht, cn_numIterators = 0,
      cn_cachedStats = \<lparr>ds_numKeys = 0, ds_numBuckets = 0, ds_itemDistribution = (\<lambda>_. 0)\<rparr>,
      cn_canRecomputeDistributionStats = True, cn_cachedStatsUpdateTime = 0, cn_numKeys = numKeys\<rparr>"

definition Container_new :: "'c \<Rightarrow> ChainedHashTable_Config \<Rightarrow> 'c PtrCompressor \<Rightarrow> exn + 'c ht_Container" where
  "Container_new nul cfg compressor =
     ebind (Hashtable_new nul (getNumBuckets cfg) compressor (cf_hasher cfg)) (\<lambda>ht. Inr (container_of cfg ht 0))"

definition Container_new_mem :: "'c \<Rightarrow> ChainedHashTable_Config \<Rightarrow> 'c list \<Rightarrow> 'c PtrCompressor \<Rightarrow> exn + 'c ht_Container" where
  "Container_new_mem nul cfg mem compressor =
     ebind (Hashtable_new_mem nul (getNumBuckets cfg) mem compressor (cf_hasher cfg) True) (\<lambda>ht. Inr (container_of cfg ht 0))"

record ChainedHashTableObject =
  cho_bucketsPower :: u32
  cho_locksPower :: u32
  cho_numKeys :: u64
  cho_hasherMagicId :: u32

definition getAlignedSize_bytes :: "size_t \<Rightarrow> u32 \<Rightarrow> size_t" where
  "getAlignedSize_bytes sz alignment =
     (let rem = sz mod ucast alignment in if rem = 0 then sz else sz + ucast alignment - rem)"

text \<open>\<open>pageSizes\<close> are the sizes of the pages of the machine, \<open>ptrSize\<close> is \<open>sizeof(CompressedPtrType)\<close>.\<close>

definition Container_restore ::
  "(PageSizeT \<Rightarrow> size_t) \<Rightarrow> size_t \<Rightarrow> 'c \<Rightarrow> ChainedHashTableObject \<Rightarrow> ChainedHashTable_Config \<Rightarrow> 'c list \<Rightarrow> size_t \<Rightarrow>
     'c PtrCompressor \<Rightarrow> exn + 'c ht_Container" where
  "Container_restore pageSizes ptrSize nul object cfg mem nBytes compressor =
     ebind (Hashtable_new_mem nul (getNumBuckets cfg) mem compressor (cf_hasher cfg) False) (\<lambda>ht.
       if cf_bucketsPower cfg \<noteq> cho_bucketsPower object then Inl invalid_argument
       else if nBytes \<noteq> getAlignedSize_bytes (ht_numBuckets ht * ptrSize) (ucast (pageSizes (cf_pageSize cfg))) then Inl invalid_argument
       else if cho_hasherMagicId object \<noteq> 0 \<and> cho_hasherMagicId object \<noteq> hs_magicId (cf_hasher cfg) then Inl invalid_argument
       else Inr (container_of cfg ht (cho_numKeys object)))"

definition Container_saveState :: "'c ht_Container \<Rightarrow> exn + ChainedHashTableObject" where
  "Container_saveState c =
     (if \<not> ht_restorable (cn_ht c) then Inl logic_error
      else if cn_numIterators c \<noteq> 0 then Inl logic_error
      else Inr \<lparr>cho_bucketsPower = cf_bucketsPower (cn_config c), cho_locksPower = cf_locksPower (cn_config c),
             cho_numKeys = cn_numKeys c, cho_hasherMagicId = hs_magicId (cf_hasher (cn_config c))\<rparr>)"

definition Container_insert :: "addr \<Rightarrow> 'c table \<Rightarrow> (bool \<times> 'c table) option" where
  "Container_insert node = (\<lambda>(c, m).
     if isAccessible (hi_ref m node) then Some (False, (c, m))
     else
       map_option (\<lambda>(res, (ht, m1)).
         if res then (True, (c\<lparr>cn_ht := ht, cn_numKeys := cn_numKeys c + 1\<rparr>, set_ref node markAccessible m1))
         else (False, (c\<lparr>cn_ht := ht\<rparr>, m1)))
         (insertInBucket node (getBucket (cn_ht c) (hi_key m node)) (cn_ht c, m)))"

definition Container_insertOrReplace :: "('c, 'e) handle_maker \<Rightarrow> addr \<Rightarrow> 'c table \<Rightarrow> (('e table_error + ptr) \<times> 'c table) option" where
  "Container_insertOrReplace hm node = (\<lambda>(c, m).
     if isAccessible (hi_ref m node) then
       (case hm None m of (Inl e, m1) \<Rightarrow> Some (Inl (Thrown e), (c, m1)) | (Inr h, m1) \<Rightarrow> Some (Inr h, (c, m1)))
     else
       (let bucket = getBucket (cn_ht c) (hi_key m node)
        in Option.bind (insertOrReplaceInBucket node bucket (cn_ht c, m)) (\<lambda>(oldNode, (ht, m1)).
             case hm oldNode m1 of
               (Inl e, m2) \<Rightarrow>
                 (case oldNode of
                    None \<Rightarrow> Some (Inl NullDereference, (c\<lparr>cn_ht := ht\<rparr>, m2))
                  | Some old \<Rightarrow> map_option (\<lambda>(_, (ht1, m3)). (Inl (Thrown e), (c\<lparr>cn_ht := ht1\<rparr>, m3)))
                                 (insertOrReplaceInBucket old bucket (ht, m2)))
             | (Inr handle, m2) \<Rightarrow>
                 (let m3 = set_ref node markAccessible m2
                  in case oldNode of
                       Some old \<Rightarrow> Some (Inr handle, (c\<lparr>cn_ht := ht\<rparr>, set_ref old unmarkAccessible m3))
                     | None \<Rightarrow> Some (Inr handle, (c\<lparr>cn_ht := ht, cn_numKeys := cn_numKeys c + 1\<rparr>, m3))))))"

definition Container_replaceIf :: "addr \<Rightarrow> addr \<Rightarrow> (addr \<Rightarrow> 'c hitems \<Rightarrow> bool) \<Rightarrow> 'c table \<Rightarrow> (bool \<times> 'c table) option" where
  "Container_replaceIf oldNode newNode predicate = (\<lambda>(c, m).
     if isAccessible (hi_ref m oldNode) \<and> predicate oldNode m then
       map_option (\<lambda>(_, (ht, m1)). (True, (c\<lparr>cn_ht := ht\<rparr>, set_ref newNode markAccessible (set_ref oldNode unmarkAccessible m1))))
         (insertOrReplaceInBucket newNode (getBucket (cn_ht c) (hi_key m newNode)) (cn_ht c, m))
     else Some (False, (c, m)))"

definition Container_replaceIfAccessible :: "addr \<Rightarrow> addr \<Rightarrow> 'c table \<Rightarrow> (bool \<times> 'c table) option" where
  "Container_replaceIfAccessible oldNode newNode = Container_replaceIf oldNode newNode (\<lambda>_ _. True)"

definition Container_remove :: "addr \<Rightarrow> 'c table \<Rightarrow> (bool \<times> 'c table) option" where
  "Container_remove node = (\<lambda>(c, m).
     if \<not> isAccessible (hi_ref m node) then Some (False, (c, m))
     else map_option (\<lambda>(ht, m1). (True, (c\<lparr>cn_ht := ht, cn_numKeys := cn_numKeys c - 1\<rparr>, set_ref node unmarkAccessible m1)))
            (removeFromBucket node (getBucket (cn_ht c) (hi_key m node)) (cn_ht c, m)))"

definition Container_removeIf ::
  "('c, 'e) handle_maker \<Rightarrow> addr \<Rightarrow> (addr \<Rightarrow> 'c hitems \<Rightarrow> bool) \<Rightarrow> 'c table \<Rightarrow> (('e + ptr) \<times> 'c table) option" where
  "Container_removeIf hm node predicate = (\<lambda>(c, m).
     if isAccessible (hi_ref m node) \<and> predicate node m then
       (case hm (Some node) m of
          (Inl e, m1) \<Rightarrow> Some (Inl e, (c, m1))
        | (Inr handle, m1) \<Rightarrow>
            map_option (\<lambda>(ht, m2). (Inr handle, (c\<lparr>cn_ht := ht, cn_numKeys := cn_numKeys c - 1\<rparr>, set_ref node unmarkAccessible m2)))
              (removeFromBucket node (getBucket (cn_ht c) (hi_key m node)) (cn_ht c, m1)))
     else (case hm None m of (r, m1) \<Rightarrow> Some (r, (c, m1))))"

definition Container_find :: "('c, 'e) handle_maker \<Rightarrow> Key \<Rightarrow> 'c table \<Rightarrow> (('e + ptr) \<times> 'c table) option" where
  "Container_find hm key = (\<lambda>(c, m).
     map_option (\<lambda>node. case hm node m of (r, m1) \<Rightarrow> (r, (c, m1))) (findInBucket key (getBucket (cn_ht c) key) (cn_ht c, m)))"

text \<open>\<open>differs d n\<close> says that the quotient of the two counts, a \<open>double\<close>, is above 0.05.\<close>

fun distribution_loop :: "'c Hashtable \<times> 'c hitems \<Rightarrow> nat list \<Rightarrow> (u32 \<Rightarrow> u64) \<Rightarrow> (u32 \<Rightarrow> u64) option" where
  "distribution_loop s [] dist = Some dist"
| "distribution_loop s (b # bs) dist =
     Option.bind (getBucketNumElems (of_nat b) s) (\<lambda>n. distribution_loop s bs (dist(n := dist n + 1)))"

definition getDistributionStats :: "int \<Rightarrow> (u64 \<Rightarrow> u64 \<Rightarrow> bool) \<Rightarrow> 'c table \<Rightarrow> (DistributionStats \<times> 'c table) option" where
  "getDistributionStats now differs = (\<lambda>(c, m).
     let cached = cn_cachedStats c;
         numKeysDifference = (if cn_numKeys c > ds_numKeys cached then cn_numKeys c - ds_numKeys cached else ds_numKeys cached - cn_numKeys c);
         needToRecompute = (now - cn_cachedStatsUpdateTime c > 10 * 60 \<or> ds_numKeys cached > 0 \<and> differs numKeysDifference (ds_numKeys cached))
     in if \<not> needToRecompute \<or> \<not> cn_canRecomputeDistributionStats c then Some (cached, (c, m))
        else map_option (\<lambda>dist.
               let stats = \<lparr>ds_numKeys = cn_numKeys c, ds_numBuckets = ht_numBuckets (cn_ht c), ds_itemDistribution = dist\<rparr>
               in (stats, (c\<lparr>cn_cachedStats := stats, cn_cachedStatsUpdateTime := now, cn_canRecomputeDistributionStats := True\<rparr>, m)))
               (distribution_loop (cn_ht c, m) [0..<unat (ht_numBuckets (cn_ht c))] (\<lambda>_. 0)))"

section \<open>Iteration\<close>

record ht_Iterator =
  it_currBucket :: size_t
  it_curSor :: u32
  it_bucketElems :: "addr list"

definition getBucketElems :: "('c, 'e) handle_maker \<Rightarrow> size_t \<Rightarrow> 'c ht_Container \<Rightarrow> 'c hitems \<Rightarrow> ('c hitems \<times> addr list) option" where
  "getBucketElems hm bucket c m =
     forEachBucketElem (\<lambda>e (m, handles).
       case hm (Some e) m of
         (Inl _, m1) \<Rightarrow> (m1, handles)
       | (Inr None, m1) \<Rightarrow> (m1, handles)
       | (Inr (Some h), m1) \<Rightarrow> (m1, handles @ [h])) bucket (cn_ht c) (m, [])"

partial_function (option) inc_loop ::
  "('c, 'e) handle_maker \<Rightarrow> 'c ht_Container \<Rightarrow> ht_Iterator \<Rightarrow> 'c hitems \<Rightarrow> (ht_Iterator \<times> 'c hitems) option" where
  "inc_loop hm c it m =
     (if \<not> it_currBucket it < getNumBuckets (cn_config c) then Some (it\<lparr>it_bucketElems := [], it_curSor := 0\<rparr>, m)
      else Option.bind (getBucketElems hm (it_currBucket it) c m) (\<lambda>(m1, hs).
             if hs \<noteq> [] then Some (it\<lparr>it_bucketElems := hs, it_curSor := 0\<rparr>, m1)
             else inc_loop hm c (it\<lparr>it_bucketElems := hs, it_currBucket := it_currBucket it + 1\<rparr>) m1))"

definition ht_Iterator_inc :: "('c, 'e) handle_maker \<Rightarrow> 'c ht_Container \<Rightarrow> ht_Iterator \<Rightarrow> 'c hitems \<Rightarrow> (ht_Iterator \<times> 'c hitems) option" where
  "ht_Iterator_inc hm c it m =
     (let it1 = it\<lparr>it_curSor := it_curSor it + 1\<rparr>
      in if unat (it_curSor it1) < length (it_bucketElems it1) then Some (it1, m)
         else inc_loop hm c (it1\<lparr>it_currBucket := it_currBucket it1 + 1\<rparr>) m)"

partial_function (option) reset_loop ::
  "('c, 'e) handle_maker \<Rightarrow> 'c ht_Container \<Rightarrow> ht_Iterator \<Rightarrow> 'c hitems \<Rightarrow> (ht_Iterator \<times> 'c hitems) option" where
  "reset_loop hm c it m =
     (if it_bucketElems it \<noteq> [] then Some (it, m)
      else
        (let it1 = it\<lparr>it_currBucket := it_currBucket it + 1\<rparr>
         in if it_currBucket it1 < getNumBuckets (cn_config c)
            then Option.bind (getBucketElems hm (it_currBucket it1) c m) (\<lambda>(m1, hs). reset_loop hm c (it1\<lparr>it_bucketElems := hs\<rparr>) m1)
            else Some (it1, m)))"

definition ht_Iterator_reset :: "('c, 'e) handle_maker \<Rightarrow> 'c ht_Container \<Rightarrow> 'c hitems \<Rightarrow> (ht_Iterator \<times> 'c hitems) option" where
  "ht_Iterator_reset hm c m =
     Option.bind (getBucketElems hm 0 c m) (\<lambda>(m1, hs).
       reset_loop hm c \<lparr>it_currBucket = 0, it_curSor = 0, it_bucketElems = hs\<rparr> m1)"

definition Container_begin :: "('c, 'e) handle_maker \<Rightarrow> 'c table \<Rightarrow> (ht_Iterator \<times> 'c table) option" where
  "Container_begin hm = (\<lambda>(c, m).
     let c1 = c\<lparr>cn_numIterators := cn_numIterators c + 1\<rparr>
     in map_option (\<lambda>(it, m1). (it, (c1, m1))) (ht_Iterator_reset hm c1 m))"

definition Container_end :: "'c table \<Rightarrow> ht_Iterator \<times> 'c table" where
  "Container_end = (\<lambda>(c, m).
     (\<lparr>it_currBucket = getNumBuckets (cn_config c), it_curSor = 0, it_bucketElems = []\<rparr>,
      (c\<lparr>cn_numIterators := cn_numIterators c + 1\<rparr>, m)))"

definition ht_Iterator_destroy :: "'c table \<Rightarrow> 'c table" where
  "ht_Iterator_destroy = (\<lambda>(c, m). (c\<lparr>cn_numIterators := cn_numIterators c - 1\<rparr>, m))"

definition ht_Iterator_eq :: "ht_Iterator \<Rightarrow> ht_Iterator \<Rightarrow> bool" where
  "ht_Iterator_eq it other \<longleftrightarrow> it_currBucket it = it_currBucket other \<and> it_curSor it = it_curSor other"

definition ht_Iterator_curr :: "ht_Iterator \<Rightarrow> exn + addr" where
  "ht_Iterator_curr it =
     (if unat (it_curSor it) < length (it_bucketElems it) then Inr (it_bucketElems it ! unat (it_curSor it)) else Inl logic_error)"


section \<open>What a table stands for\<close>

definition hash_next :: "'c PtrCompressor \<Rightarrow> 'c hitems \<Rightarrow> addr \<Rightarrow> ptr" where
  "hash_next pc m a = pc_unCompress pc (hi_next m a)"

definition table_shape :: "'c PtrCompressor \<Rightarrow> 'c Hashtable \<Rightarrow> bool" where
  "table_shape pc ht \<longleftrightarrow> ht_compressor ht = pc \<and>
     (\<exists>k \<le> 32. unat (ht_numBuckets ht) = 2 ^ k \<and> ht_numBucketsMask ht = mask k \<and> length (ht_hashTable ht) = 2 ^ k)"

definition chain_ok :: "'c PtrCompressor \<Rightarrow> addr set \<Rightarrow> 'c Hashtable \<times> 'c hitems \<Rightarrow> nat \<Rightarrow> addr list \<Rightarrow> bool" where
  "chain_ok pc valid s b xs \<longleftrightarrow>
     pc_unCompress pc (ht_hashTable (fst s) ! b) = first_ptr xs None \<and> slseg (hash_next pc (snd s)) xs None \<and>
     set xs \<subseteq> valid \<and> distinct (map (hi_key (snd s)) xs) \<and> (\<forall>a \<in> set xs. unat (getBucket (fst s) (hi_key (snd s) a)) = b)"

definition hash_chains :: "'c PtrCompressor \<Rightarrow> addr set \<Rightarrow> 'c Hashtable \<times> 'c hitems \<Rightarrow> addr list list \<Rightarrow> bool" where
  "hash_chains pc valid s cs \<longleftrightarrow> table_shape pc (fst s) \<and> length cs = length (ht_hashTable (fst s)) \<and>
     (\<forall>b < length cs. chain_ok pc valid s b (cs ! b))"

text \<open>The chains as a map from keys to items.\<close>

definition chain_map :: "'c hitems \<Rightarrow> addr list \<Rightarrow> Key \<rightharpoonup> addr" where
  "chain_map m xs = map_of (map (\<lambda>a. (hi_key m a, a)) xs)"

definition table_map :: "'c Hashtable \<times> 'c hitems \<Rightarrow> addr list list \<Rightarrow> Key \<rightharpoonup> addr" where
  "table_map s cs k = chain_map (snd s) (cs ! unat (getBucket (fst s) k)) k"

definition table_rep :: "'c PtrCompressor \<Rightarrow> addr set \<Rightarrow> 'c table \<Rightarrow> (Key \<rightharpoonup> addr) \<Rightarrow> bool" where
  "table_rep pc valid s tbl \<longleftrightarrow>
     (\<exists>cs. hash_chains pc valid (cn_ht (fst s), snd s) cs \<and> tbl = table_map (cn_ht (fst s), snd s) cs) \<and>
     (\<forall>a \<in> valid. isAccessible (hi_ref (snd s) a) \<longleftrightarrow> tbl (hi_key (snd s) a) = Some a) \<and>
     cn_numKeys (fst s) = of_nat (card (dom tbl)) \<and> finite (dom tbl) \<and> ht_numBuckets (cn_ht (fst s)) = getNumBuckets (cn_config (fst s))"

text \<open>What the container relies on when it makes handles: only reference counts change.\<close>

definition same_items :: "'c hitems \<Rightarrow> 'c hitems \<Rightarrow> bool" where
  "same_items m m' \<longleftrightarrow> hi_key m' = hi_key m \<and> hi_next m' = hi_next m \<and>
     (\<forall>a. isAccessible (hi_ref m' a) = isAccessible (hi_ref m a))"

definition handle_maker_ok :: "('c, 'e) handle_maker \<Rightarrow> bool" where
  "handle_maker_ok hm \<longleftrightarrow> (\<forall>m. hm None m = (Inr None, m)) \<and> (\<forall>a m. same_items m (snd (hm (Some a) m)))"

lemma default_handle_maker_ok: "handle_maker_ok kDefaultHandleMaker"
proof -
  have "isAccessible v' = isAccessible v" if "incRef v = (r, v')" for v r v'
  proof -
    have "a_admin (snd (abs_incRef A)) = a_admin A" for A by (simp add: abs_incRef_def)
    from this [of "absref v"] have "a_admin (absref v') = a_admin (absref v)" unfolding incRef_absD [OF that] snd_conv .
    then show ?thesis unfolding reads by (rule fun_cong)
  qed
  then show ?thesis
    by (auto simp: handle_maker_ok_def kDefaultHandleMaker_def same_items_def set_ref_def split: prod.splits sum.splits)
qed

subsection \<open>Chains\<close>

lemma chain_map_simps [simp]: "chain_map m [] = Map.empty" "chain_map m (x # xs) = (chain_map m xs)(hi_key m x \<mapsto> x)"
  by (simp_all add: chain_map_def)

lemma chain_map_SomeD: "chain_map m xs k = Some a \<Longrightarrow> a \<in> set xs \<and> hi_key m a = k"
  by (auto simp: chain_map_def dest: map_of_SomeD)

lemma chain_map_None_iff: "chain_map m xs k = None \<longleftrightarrow> k \<notin> hi_key m ` set xs"
  by (auto simp: chain_map_def map_of_eq_None_iff image_image)

lemma chain_map_Some_iff: "distinct (map (hi_key m) xs) \<Longrightarrow> chain_map m xs k = Some a \<longleftrightarrow> a \<in> set xs \<and> hi_key m a = k"
  by (auto simp: chain_map_def map_of_eq_Some_iff comp_def)

lemma chain_map_cong: "hi_key m' = hi_key m \<Longrightarrow> chain_map m' xs = chain_map m xs"
  by (simp add: chain_map_def)

lemma chain_split:
  assumes "distinct (map (hi_key m) xs)" and "chain_map m xs k = Some c"
  obtains pre post where "xs = pre @ c # post" "k \<notin> hi_key m ` set pre" "hi_key m c = k"
proof -
  have c: "c \<in> set xs" "hi_key m c = k" using chain_map_SomeD [OF assms(2)] by simp_all
  then obtain pre post where "xs = pre @ c # post" by (auto dest: split_list)
  then show thesis using that [of pre post] assms(1) c by auto
qed

lemma slseg_cong: "(\<And>a. a \<in> set xs \<Longrightarrow> f a = g a) \<Longrightarrow> slseg f xs n = slseg g xs n"
  by (induction xs) auto

lemma getBucket_less: "table_shape pc ht \<Longrightarrow> unat (getBucket ht k) < length (ht_hashTable ht)"
proof -
  assume "table_shape pc ht"
  then obtain n where n: "n \<le> 32" "ht_numBucketsMask ht = mask n" "length (ht_hashTable ht) = 2 ^ n" by (auto simp: table_shape_def)
  have "getBucket ht k = take_bit n (ucast (hs_hash (ht_hasher ht) k))" by (simp add: getBucket_def n(2) take_bit_eq_mask)
  then show ?thesis using n by (simp add: unsigned_take_bit_eq)
qed


lemma chain_okD:
  assumes "chain_ok pc valid (ht, m) b xs"
  shows "pc_unCompress pc (ht_hashTable ht ! b) = first_ptr xs None" "slseg (hash_next pc m) xs None" "set xs \<subseteq> valid"
    "distinct (map (hi_key m) xs)" "\<And>a. a \<in> set xs \<Longrightarrow> unat (getBucket ht (hi_key m a)) = b"
  using assms by (auto simp: chain_ok_def)

lemma chainsD:
  assumes "hash_chains pc valid (ht, m) cs"
  shows "table_shape pc ht" "length cs = length (ht_hashTable ht)" "\<And>b. b < length cs \<Longrightarrow> chain_ok pc valid (ht, m) b (cs ! b)"
    "ht_compressor ht = pc"
  using assms by (auto simp: hash_chains_def table_shape_def)

lemma find_loop_result:
  assumes "ht_compressor ht = pc"
  shows "slseg (hash_next pc m) xs None \<Longrightarrow> find_loop ht m key (first_ptr xs None) = Some (chain_map m xs key)"
proof (induction xs)
  case Nil
  then show ?case by (subst find_loop.simps) simp
next
  case (Cons x xs)
  have "getHashNext ht m x = first_ptr xs None" using Cons.prems by (simp add: getHashNext_def hash_next_def assms)
  then show ?case using Cons by (subst find_loop.simps) simp
qed

lemma prev_loop_result:
  assumes "ht_compressor ht = pc"
  shows "slseg (hash_next pc m) (pre @ post) None \<Longrightarrow> key \<notin> hi_key m ` set pre \<Longrightarrow> post = [] \<or> hi_key m (hd post) = key \<Longrightarrow>
     prev_loop ht m key p (first_ptr (pre @ post) None) = Some (last_ptr p pre, first_ptr post None)"
proof (induction pre arbitrary: p)
  case Nil
  then show ?case by (cases post) (subst prev_loop.simps, simp)+
next
  case (Cons x pre)
  have "getHashNext ht m x = first_ptr (pre @ post) None" using Cons.prems by (simp add: getHashNext_def hash_next_def assms)
  then show ?case using Cons by (subst prev_loop.simps) auto
qed

text \<open>Replacing the chain of one bucket.\<close>

lemma chains_update:
  assumes ch: "hash_chains pc valid (ht, m) cs" and b: "b < length cs"
    and ht': "ht' = ht\<lparr>ht_hashTable := T\<rparr>" "length T = length (ht_hashTable ht)" "\<And>i. i \<noteq> b \<Longrightarrow> T ! i = ht_hashTable ht ! i"
    and m': "hi_key m' = hi_key m" "\<And>a. a \<notin> set (cs ! b) \<union> set xs \<Longrightarrow> hi_next m' a = hi_next m a"
    and xs: "chain_ok pc valid (ht', m') b xs"
  shows "hash_chains pc valid (ht', m') (cs[b := xs])"
    and "table_map (ht', m') (cs[b := xs]) = (\<lambda>k. if unat (getBucket ht k) = b then chain_map m xs k else table_map (ht, m) cs k)"
proof -
  note C = chainsD [OF ch]
  have g: "getBucket ht' k = getBucket ht k" for k by (simp add: getBucket_def ht'(1))
  have "chain_ok pc valid (ht', m') i (cs[b := xs] ! i)" if i: "i < length cs" for i
  proof (cases "i = b")
    case False
    note O = chain_okD [OF C(3) [OF i]]
    have "a \<notin> set (cs ! b) \<union> set xs" if "a \<in> set (cs ! i)" for a
      using O(5) [OF that] chain_okD(5) [OF C(3) [OF b], of a] chain_okD(5) [OF xs, of a] False g m'(1) by auto
    then have "hash_next pc m' a = hash_next pc m a" if "a \<in> set (cs ! i)" for a using that m'(2) by (simp add: hash_next_def)
    then have "slseg (hash_next pc m') (cs ! i) None" using O(2) slseg_cong [of "cs ! i" "hash_next pc m'" "hash_next pc m"] by simp
    then show ?thesis using O False g m'(1) ht'(1,3) by (simp add: chain_ok_def)
  qed (use xs b in simp)
  then show "hash_chains pc valid (ht', m') (cs[b := xs])" using C(1,2) ht'(1,2) by (auto simp: hash_chains_def table_shape_def)
  show "table_map (ht', m') (cs[b := xs]) = (\<lambda>k. if unat (getBucket ht k) = b then chain_map m xs k else table_map (ht, m) cs k)"
    using b by (auto simp: table_map_def g chain_map_cong [OF m'(1)])
qed

lemma table_map_bucket: "b = unat (getBucket ht k) \<Longrightarrow> chain_map m (cs ! b) k = table_map (ht, m) cs k"
  by (simp add: table_map_def)

lemma table_map_upd:
  assumes ch: "hash_chains pc valid (ht, m) cs" and b: "unat (getBucket ht k) = b" and xs: "chain_map m xs = (chain_map m (cs ! b))(k := v)"
  shows "(\<lambda>k. if unat (getBucket ht k) = b then chain_map m xs k else table_map (ht, m) cs k) = (table_map (ht, m) cs)(k := v)"
  using b by (auto simp: xs table_map_def)

lemma bucket_in_range: "hash_chains pc valid (ht, m) cs \<Longrightarrow> unat (getBucket ht k) < length cs"
  using getBucket_less chainsD(1,2) by metis

lemma bucket_chain:
  assumes "hash_chains pc valid (ht, m) cs"
  shows "chain_ok pc valid (ht, m) (unat (getBucket ht k)) (cs ! unat (getBucket ht k))"
    and "bucketHead ht (getBucket ht k) = first_ptr (cs ! unat (getBucket ht k)) None"
proof -
  show c: "chain_ok pc valid (ht, m) (unat (getBucket ht k)) (cs ! unat (getBucket ht k))"
    by (rule chainsD(3) [OF assms bucket_in_range [OF assms]])
  show "bucketHead ht (getBucket ht k) = first_ptr (cs ! unat (getBucket ht k)) None"
    using chain_okD(1) [OF c] chainsD(4) [OF assms] by (simp add: bucketHead_def)
qed

lemma findInBucket_result:
  assumes ch: "hash_chains pc valid (ht, m) cs"
  shows "findInBucket k (getBucket ht k) (ht, m) = Some (table_map (ht, m) cs k)"
  using find_loop_result [OF chainsD(4) [OF ch] chain_okD(2) [OF bucket_chain(1) [OF ch]], of k k] bucket_chain(2) [OF ch, of k]
  by (simp add: findInBucket_def table_map_def)


definition stores :: "'c PtrCompressor \<Rightarrow> addr set \<Rightarrow> 'c Hashtable \<times> 'c hitems \<Rightarrow> addr list list \<Rightarrow> 'c Hashtable \<times> 'c hitems \<Rightarrow> Key \<Rightarrow> ptr \<Rightarrow> bool" where
  "stores pc valid s cs s' k v \<longleftrightarrow> (\<exists>cs'. hash_chains pc valid s' cs' \<and> table_map s' cs' = (table_map s cs)(k := v)) \<and>
     hi_key (snd s') = hi_key (snd s) \<and> hi_ref (snd s') = hi_ref (snd s) \<and> getBucket (fst s') = getBucket (fst s) \<and> ht_numBuckets (fst s') = ht_numBuckets (fst s)"

lemma storesI:
  assumes ch: "hash_chains pc valid (ht, m) cs" and b: "b = unat (getBucket ht k)"
    and ht': "ht' = ht\<lparr>ht_hashTable := T\<rparr>" "length T = length (ht_hashTable ht)" "\<And>i. i \<noteq> b \<Longrightarrow> T ! i = ht_hashTable ht ! i"
    and m': "hi_key m' = hi_key m" "hi_ref m' = hi_ref m" "\<And>a. a \<notin> set (cs ! b) \<union> set xs \<Longrightarrow> hi_next m' a = hi_next m a"
    and xs: "chain_ok pc valid (ht', m') b xs" "chain_map m xs = (chain_map m (cs ! b))(k := v)"
  shows "stores pc valid (ht, m) cs (ht', m') k v"
proof -
  have "b < length cs" using bucket_in_range [OF ch] b by simp
  note U = chains_update [OF ch this ht' m'(1,3) xs(1)]
  have "table_map (ht', m') (cs[b := xs]) = (table_map (ht, m) cs)(k := v)"
    using U(2) table_map_upd [OF ch _ xs(2)] b by simp
  then show ?thesis using U(1) m'(1,2) by (auto simp: stores_def getBucket_def ht'(1) fun_eq_iff)
qed

lemma chain_map_pieces:
  assumes "distinct (map (hi_key m) (pre @ c # post))" and "hi_key m node = hi_key m c"
  shows "chain_map m (pre @ node # post) = (chain_map m (pre @ c # post))(hi_key m c := Some node)"
    "chain_map m (pre @ post) = (chain_map m (pre @ c # post))(hi_key m c := None)"
proof -
  have n: "hi_key m c \<notin> hi_key m ` set pre" "hi_key m c \<notin> hi_key m ` set post" using assms(1) by auto
  have app: "chain_map m (xs @ ys) = chain_map m ys ++ chain_map m xs" for xs ys by (simp add: chain_map_def map_add_def)
  have "chain_map m pre (hi_key m c) = None" "chain_map m post (hi_key m c) = None" using n by (simp_all add: chain_map_None_iff)
  then show "chain_map m (pre @ node # post) = (chain_map m (pre @ c # post))(hi_key m c := Some node)"
    "chain_map m (pre @ post) = (chain_map m (pre @ c # post))(hi_key m c := None)"
    by (auto simp: app fun_eq_iff map_add_def assms(2) split: option.splits)
qed

lemma writes [simp]:
  "getBucket (setBucket b c ht) = getBucket ht" "ht_compressor (setBucket b c ht) = ht_compressor ht"
  "hi_key (setHashNextCompressed a c m) = hi_key m" "hi_key (setHashNext ht a q m) = hi_key m"
  "hi_ref (setHashNextCompressed a c m) = hi_ref m" "hi_ref (setHashNext ht a q m) = hi_ref m"
  by (simp_all add: setBucket_def getBucket_def fun_eq_iff setHashNext_def setHashNextCompressed_def)

lemma writes_elsewhere [simp]:
  "x \<noteq> a \<Longrightarrow> hi_next (setHashNextCompressed a c m) x = hi_next m x" "x \<noteq> a \<Longrightarrow> hi_next (setHashNext ht a q m) x = hi_next m x"
  by (simp_all add: setHashNext_def setHashNextCompressed_def)

context ptr_compressor
begin

lemma hash_next_set [simp]:
  "ht_compressor ht = pc \<Longrightarrow> set_option q \<subseteq> valid \<Longrightarrow> hash_next pc (setHashNext ht a q m) = (hash_next pc m)(a := q)"
  "hash_next pc (setHashNextCompressed a c m) = (hash_next pc m)(a := pc_unCompress pc c)"
  by (auto simp: fun_eq_iff hash_next_def setHashNext_def setHashNextCompressed_def unCompress_ptr)

lemma insert_at_head:
  assumes ch: "hash_chains pc valid (ht, m) cs" and n: "node \<in> valid" "table_map (ht, m) cs (hi_key m node) = None"
  defines "b \<equiv> getBucket ht (hi_key m node)"
  shows "stores pc valid (ht, m) cs
    (setBucket b (pc_compress pc (Some node)) ht, setHashNextCompressed node (ht_hashTable ht ! unat b) m) (hi_key m node) (Some node)"
proof (rule storesI [OF ch, where b = "unat b" and xs = "node # cs ! unat b" and T = "(ht_hashTable ht)[unat b := pc_compress pc (Some node)]"])
  note C = chain_okD [OF bucket_chain(1) [OF ch, of "hi_key m node"], folded b_def]
  have f: "hi_key m node \<notin> hi_key m ` set (cs ! unat b)" using n(2) by (simp add: table_map_def chain_map_None_iff b_def)
  have nin: "node \<notin> set (cs ! unat b)" using f by blast
  have h: "ht_hashTable (setBucket b (pc_compress pc (Some node)) ht) ! unat b = pc_compress pc (Some node)"
    using bucket_in_range [OF ch, of "hi_key m node", folded b_def] chainsD(2) [OF ch] by (simp add: setBucket_def)
  show "chain_ok pc valid (setBucket b (pc_compress pc (Some node)) ht, setHashNextCompressed node (ht_hashTable ht ! unat b) m) (unat b) (node # cs ! unat b)"
    using C f n(1) nin unfolding chain_ok_def fst_conv snd_conv h by (simp add: unCompress_compress b_def [symmetric])
qed (use ch in \<open>auto simp: setBucket_def b_def\<close>)

lemma chain_at:
  assumes ch: "hash_chains pc valid (ht, m) cs" and tm: "table_map (ht, m) cs k = Some c"
  obtains pre post where "cs ! unat (getBucket ht k) = pre @ c # post" "hi_key m c = k"
    "prev_loop ht m k None (bucketHead ht (getBucket ht k)) = Some (last_ptr None pre, Some c)"
    "slseg (hash_next pc m) pre (Some c)" "hash_next pc m c = first_ptr post None" "slseg (hash_next pc m) post None"
    "distinct (map (hi_key m) (pre @ c # post))" "set (pre @ c # post) \<subseteq> valid"
    "\<forall>a \<in> set (pre @ c # post). getBucket ht (hi_key m a) = getBucket ht k"
    "pc_unCompress pc (ht_hashTable ht ! unat (getBucket ht k)) = first_ptr pre (Some c)"
proof -
  let ?b = "unat (getBucket ht k)"
  note C = chain_okD [OF bucket_chain(1) [OF ch, of k]]
  have "chain_map m (cs ! ?b) k = Some c" using tm by (simp add: table_map_def)
  then obtain pre post where s: "cs ! ?b = pre @ c # post" "k \<notin> hi_key m ` set pre" "hi_key m c = k" by (rule chain_split [OF C(4)])
  have "prev_loop ht m k None (bucketHead ht (getBucket ht k)) = Some (last_ptr None pre, Some c)"
    using prev_loop_result [OF chainsD(4) [OF ch], of m pre "c # post" k None] C(2) s bucket_chain(2) [OF ch, of k] by simp
  moreover have "slseg (hash_next pc m) pre (Some c)" "hash_next pc m c = first_ptr post None" "slseg (hash_next pc m) post None"
    using C(2) by (simp_all add: s(1) slseg_append)
  ultimately show thesis using that [OF s(1,3)] C(1,3-5) s(1) by (simp add: word_unat_eq_iff)
qed

lemma replace_in_bucket:
  assumes ch: "hash_chains pc valid (ht, m) cs" and n: "node \<in> valid" and tm: "table_map (ht, m) cs (hi_key m node) = Some c"
  shows "\<exists>s'. insertOrReplaceInBucket node (getBucket ht (hi_key m node)) (ht, m) = Some (Some c, s') \<and>
     stores pc valid (ht, m) cs s' (hi_key m node) (Some node)"
proof -
  let ?b = "getBucket ht (hi_key m node)"
  obtain pre post where X: "cs ! unat ?b = pre @ c # post" "hi_key m c = hi_key m node"
    "prev_loop ht m (hi_key m node) None (bucketHead ht ?b) = Some (last_ptr None pre, Some c)"
    "slseg (hash_next pc m) pre (Some c)" "hash_next pc m c = first_ptr post None" "slseg (hash_next pc m) post None"
    "distinct (map (hi_key m) (pre @ c # post))" "set (pre @ c # post) \<subseteq> valid"
    "\<forall>a \<in> set (pre @ c # post). getBucket ht (hi_key m a) = ?b"
    "pc_unCompress pc (ht_hashTable ht ! unat ?b) = first_ptr pre (Some c)" by (rule chain_at [OF ch tm])
  have pc: "ht_compressor ht = pc" by (rule chainsD(4) [OF ch])
  have nin: "node \<notin> set pre" "node \<notin> set post" "c \<notin> set pre" using X(2,7) by (auto simp: image_iff)
  have q: "set_option (first_ptr post None) \<subseteq> valid" using X(8) by (auto dest: first_ptr_in_set)
  have cm: "chain_map m (pre @ node # post) = (chain_map m (cs ! unat ?b))(hi_key m node := Some node)"
    using chain_map_pieces(1) [OF X(7), of node] X(1,2) by simp
  have len: "unat ?b < length (ht_hashTable ht)" using bucket_in_range [OF ch] chainsD(2) [OF ch] by metis
  show ?thesis
  proof (cases pre rule: rev_cases)
    case Nil
    let ?ht = "setBucket ?b (pc_compress pc (Some node)) ht" and ?m = "setHashNext (setBucket ?b (pc_compress pc (Some node)) ht) node (first_ptr post None) m"
    have "insertOrReplaceInBucket node ?b (ht, m) = Some (Some c, (?ht, ?m))"
      using X(3,5) Nil by (simp add: insertOrReplaceInBucket_def pc getHashNext_def hash_next_def)
    moreover have h: "ht_hashTable ?ht ! unat ?b = pc_compress pc (Some node)" using len by (simp add: setBucket_def)
    have "chain_ok pc valid (?ht, ?m) (unat ?b) (pre @ node # post)"
      using X(6-9) Nil nin n q unfolding chain_ok_def fst_conv snd_conv h by (simp add: unCompress_compress pc X(2))
    then have "stores pc valid (ht, m) cs (?ht, ?m) (hi_key m node) (Some node)"
      by (intro storesI [OF ch, where b = "unat ?b" and xs = "pre @ node # post" and T = "(ht_hashTable ht)[unat ?b := pc_compress pc (Some node)]"])
         (use cm in \<open>auto simp: setBucket_def\<close>)
    ultimately show ?thesis by blast
  next
    case (snoc pre1 p)
    let ?m = "setHashNext ht node (first_ptr post None) (setHashNext ht p (Some node) m)"
    have p: "p \<noteq> c" "p \<notin> set pre1" "p \<notin> set post" using X(7) snoc by auto
    then have "insertOrReplaceInBucket node ?b (ht, m) = Some (Some c, (ht, ?m))"
      using X(3,5) snoc pc n by (simp add: insertOrReplaceInBucket_def getHashNext_def hash_next_def)
    moreover have "chain_ok pc valid (ht, ?m) (unat ?b) (pre @ node # post)"
      using X(4,6-10) snoc nin n q p by (auto simp: chain_ok_def pc X(2) slseg_append)
    then have "stores pc valid (ht, m) cs (ht, ?m) (hi_key m node) (Some node)"
      by (intro storesI [OF ch, where b = "unat ?b" and xs = "pre @ node # post" and T = "ht_hashTable ht"])
         (use cm snoc X(1) in auto)
    ultimately show ?thesis by blast
  qed
qed

lemma remove_from_bucket:
  assumes ch: "hash_chains pc valid (ht, m) cs" and tm: "table_map (ht, m) cs (hi_key m node) = Some node"
  shows "\<exists>s'. removeFromBucket node (getBucket ht (hi_key m node)) (ht, m) = Some s' \<and>
     stores pc valid (ht, m) cs s' (hi_key m node) None"
proof -
  let ?b = "getBucket ht (hi_key m node)"
  obtain pre post where X: "cs ! unat ?b = pre @ node # post" "hi_key m node = hi_key m node"
    "prev_loop ht m (hi_key m node) None (bucketHead ht ?b) = Some (last_ptr None pre, Some node)"
    "slseg (hash_next pc m) pre (Some node)" "hash_next pc m node = first_ptr post None" "slseg (hash_next pc m) post None"
    "distinct (map (hi_key m) (pre @ node # post))" "set (pre @ node # post) \<subseteq> valid"
    "\<forall>a \<in> set (pre @ node # post). getBucket ht (hi_key m a) = ?b"
    "pc_unCompress pc (ht_hashTable ht ! unat ?b) = first_ptr pre (Some node)" by (rule chain_at [OF ch tm])
  have pc: "ht_compressor ht = pc" by (rule chainsD(4) [OF ch])
  have q: "set_option (first_ptr post None) \<subseteq> valid" using X(8) by (auto dest: first_ptr_in_set)
  have cm: "chain_map m (pre @ post) = (chain_map m (cs ! unat ?b))(hi_key m node := None)"
    using chain_map_pieces(2) [OF X(7), of node] X(1) by simp
  have len: "unat ?b < length (ht_hashTable ht)" using bucket_in_range [OF ch] chainsD(2) [OF ch] by metis
  show ?thesis
  proof (cases pre rule: rev_cases)
    case Nil
    let ?ht = "setBucket ?b (hi_next m node) ht"
    have "removeFromBucket node ?b (ht, m) = Some (?ht, m)" using X(3) Nil by (simp add: removeFromBucket_def findPrevInBucket_def)
    moreover have h: "ht_hashTable ?ht ! unat ?b = hi_next m node" using len by (simp add: setBucket_def)
    have "chain_ok pc valid (?ht, m) (unat ?b) (pre @ post)"
      using X(5-9) Nil unfolding chain_ok_def fst_conv snd_conv h by (simp add: hash_next_def)
    then have "stores pc valid (ht, m) cs (?ht, m) (hi_key m node) None"
      by (intro storesI [OF ch, where b = "unat ?b" and xs = "pre @ post" and T = "(ht_hashTable ht)[unat ?b := hi_next m node]"])
         (use cm in \<open>auto simp: setBucket_def\<close>)
    ultimately show ?thesis by blast
  next
    case (snoc pre1 p)
    let ?m = "setHashNext ht p (first_ptr post None) m"
    have "removeFromBucket node ?b (ht, m) = Some (ht, ?m)"
      using X(3,5) snoc pc by (simp add: removeFromBucket_def findPrevInBucket_def getHashNext_def hash_next_def)
    moreover have "p \<notin> set pre1" "p \<notin> set post" using X(7) snoc by auto
    then have "chain_ok pc valid (ht, ?m) (unat ?b) (pre @ post)"
      using X(4,6-10) snoc q by (auto simp: chain_ok_def pc slseg_append)
    then have "stores pc valid (ht, m) cs (ht, ?m) (hi_key m node) None"
      by (intro storesI [OF ch, where b = "unat ?b" and xs = "pre @ post" and T = "ht_hashTable ht"])
         (use cm snoc X(1) in auto)
    ultimately show ?thesis by blast
  qed
qed

end


subsection \<open>The container\<close>

lemma marks_accessible [simp]: "isAccessible (markAccessible v)" "\<not> isAccessible (unmarkAccessible v)"
  unfolding reads absref_marks by (simp_all add: abs_set_admin_def)

lemma set_ref_simps [simp]:
  "hi_key (set_ref a f m) = hi_key m" "hi_next (set_ref a f m) = hi_next m" "hi_ref (set_ref a f m) = (hi_ref m)(a := f (hi_ref m a))"
  by (simp_all add: set_ref_def)

lemma chains_same_items:
  assumes "hi_key m' = hi_key m" and "hi_next m' = hi_next m"
  shows "hash_chains pc valid (ht, m') cs = hash_chains pc valid (ht, m) cs" "table_map (ht, m') cs = table_map (ht, m) cs"
proof -
  have "hash_next pc m' = hash_next pc m" by (simp add: fun_eq_iff hash_next_def assms(2))
  then show "hash_chains pc valid (ht, m') cs = hash_chains pc valid (ht, m) cs" by (simp add: hash_chains_def chain_ok_def assms(1))
  show "table_map (ht, m') cs = table_map (ht, m) cs" by (simp add: fun_eq_iff table_map_def chain_map_cong [OF assms(1)])
qed

lemma table_repE:
  assumes "table_rep pc valid (c, m) tbl"
  obtains cs where "hash_chains pc valid (cn_ht c, m) cs" "tbl = table_map (cn_ht c, m) cs"
    "\<forall>a \<in> valid. isAccessible (hi_ref m a) \<longleftrightarrow> tbl (hi_key m a) = Some a" "cn_numKeys c = of_nat (card (dom tbl))" "finite (dom tbl)"
    "ht_numBuckets (cn_ht c) = getNumBuckets (cn_config c)"
  using assms by (auto simp: table_rep_def)

lemma table_rep_keys: "table_rep pc valid (c, m) tbl \<Longrightarrow> tbl k = Some a \<Longrightarrow> hi_key m a = k \<and> a \<in> valid"
proof (erule table_repE)
  fix cs assume ch: "hash_chains pc valid (cn_ht c, m) cs" and t: "tbl = table_map (cn_ht c, m) cs" and a: "tbl k = Some a"
  have "a \<in> set (cs ! unat (getBucket (cn_ht c) k)) \<and> hi_key m a = k" using a chain_map_SomeD by (fastforce simp: t table_map_def)
  then show "hi_key m a = k \<and> a \<in> valid" using chain_okD(3) [OF bucket_chain(1) [OF ch, of k]] by auto
qed

lemma table_rep_same:
  assumes rep: "table_rep pc valid (c, m) tbl" and m': "same_items m m'" and c': "cn_ht c' = cn_ht c" "cn_numKeys c' = cn_numKeys c" "cn_config c' = cn_config c"
  shows "table_rep pc valid (c', m') tbl"
proof -
  have "hi_key m' = hi_key m" "hi_next m' = hi_next m" "\<And>a. isAccessible (hi_ref m' a) = isAccessible (hi_ref m a)"
    using m' by (auto simp: same_items_def)
  note C = chains_same_items [OF this(1,2)]
  show ?thesis using rep \<open>hi_key m' = hi_key m\<close> \<open>\<And>a. isAccessible (hi_ref m' a) = isAccessible (hi_ref m a)\<close>
    by (simp add: table_rep_def C c')
qed

lemma table_rep_update:
  assumes rep: "hash_chains pc valid (ht, m) cs" "tbl = table_map (ht, m) cs"
      "\<forall>a \<in> valid. isAccessible (hi_ref m a) \<longleftrightarrow> tbl (hi_key m a) = Some a" "finite (dom tbl)"
    and st: "stores pc valid (ht, m) cs (ht', m') k v"
    and m'': "hi_key m'' = hi_key m'" "hi_next m'' = hi_next m'"
      "\<And>a. a \<in> valid \<Longrightarrow> isAccessible (hi_ref m'' a) \<longleftrightarrow> v = Some a \<or> tbl k \<noteq> Some a \<and> isAccessible (hi_ref m a)"
    and v: "\<And>a. v = Some a \<Longrightarrow> hi_key m a = k"
    and c': "cn_ht c' = ht'" "cn_numKeys c' = of_nat (card (dom (tbl(k := v))))" "ht_numBuckets ht = getNumBuckets (cn_config c')"
  shows "table_rep pc valid (c', m'') (tbl(k := v))"
proof -
  from st obtain cs' where "hash_chains pc valid (ht', m') cs'" "table_map (ht', m') cs' = tbl(k := v)" and key: "hi_key m' = hi_key m"
    and nb: "ht_numBuckets ht' = ht_numBuckets ht"
    by (auto simp: stores_def rep(2))
  then have ch: "hash_chains pc valid (ht', m'') cs'" "table_map (ht', m'') cs' = tbl(k := v)"
    using chains_same_items [OF m''(1,2)] by simp_all
  have "isAccessible (hi_ref m'' a) \<longleftrightarrow> (tbl(k := v)) (hi_key m'' a) = Some a" if a: "a \<in> valid" for a
  proof -
    have "hi_key m a = k" if "tbl k = Some a" using that chain_map_SomeD by (fastforce simp: rep(2) table_map_def)
    then show ?thesis using m''(3) [OF a] rep(3) a v [of a] key m''(1) by (auto split: if_splits)
  qed
  moreover have "finite (dom (tbl(k := v)))" using rep(4) by (simp add: dom_def finite_subset [of _ "insert k (dom tbl)"] subset_iff)
  ultimately show ?thesis unfolding table_rep_def using ch c' nb by (auto intro!: exI [of _ cs'])
qed


lemma card_dom_upd:
  assumes "finite (dom tbl)"
  shows "tbl k = None \<Longrightarrow> card (dom (tbl(k \<mapsto> x))) = Suc (card (dom tbl))" "tbl k \<noteq> None \<Longrightarrow> card (dom (tbl(k \<mapsto> x))) = card (dom tbl)"
    "tbl k \<noteq> None \<Longrightarrow> Suc (card (dom (tbl(k := None)))) = card (dom tbl)"
proof -
  show "tbl k = None \<Longrightarrow> card (dom (tbl(k \<mapsto> x))) = Suc (card (dom tbl))" using assms by (simp add: domIff)
  show "tbl k \<noteq> None \<Longrightarrow> card (dom (tbl(k \<mapsto> x))) = card (dom tbl)" by (simp add: insert_absorb domIff)
  show "tbl k \<noteq> None \<Longrightarrow> Suc (card (dom (tbl(k := None)))) = card (dom tbl)"
    using card_Suc_Diff1 [OF assms, of k] by (simp add: domIff)
qed

lemma numKeys_down: "finite (dom tbl) \<Longrightarrow> tbl k \<noteq> None \<Longrightarrow> of_nat (card (dom tbl)) - 1 = (of_nat (card (dom (tbl(k := None)))) :: u64)"
  by (subst card_dom_upd(3) [symmetric]) simp_all

lemma same_items_refl: "same_items m m"
  by (simp add: same_items_def)

lemma handle_makerD:
  assumes "handle_maker_ok hm"
  shows "hm None m = (Inr None, m)" "hm p m = (r, m') \<Longrightarrow> same_items m m'" "hm p m = (Inl e, m') \<Longrightarrow> p \<noteq> None"
proof -
  show n: "hm None m = (Inr None, m)" using assms by (simp add: handle_maker_ok_def)
  have s: "same_items m (snd (hm (Some a) m))" for a using assms by (simp add: handle_maker_ok_def)
  show "hm p m = (r, m') \<Longrightarrow> same_items m m'" using n s by (cases p) (auto simp: same_items_refl dest: sym, metis snd_conv)
  show "hm p m = (Inl e, m') \<Longrightarrow> p \<noteq> None" using n by (cases p) simp_all
qed

context ptr_compressor
begin

lemma insert_result:
  assumes rep: "table_rep pc valid (c, m) tbl" and n: "node \<in> valid"
  shows "\<exists>s'. Container_insert node (c, m) = Some (tbl (hi_key m node) = None, s') \<and>
     table_rep pc valid s' (if tbl (hi_key m node) = None then tbl(hi_key m node \<mapsto> node) else tbl)"
proof -
  let ?k = "hi_key m node"
  from rep obtain cs where R: "hash_chains pc valid (cn_ht c, m) cs" "tbl = table_map (cn_ht c, m) cs"
    "\<forall>a \<in> valid. isAccessible (hi_ref m a) \<longleftrightarrow> tbl (hi_key m a) = Some a" "cn_numKeys c = of_nat (card (dom tbl))" "finite (dom tbl)"
    "ht_numBuckets (cn_ht c) = getNumBuckets (cn_config c)" by (rule table_repE)
  have f: "findInBucket ?k (getBucket (cn_ht c) ?k) (cn_ht c, m) = Some (tbl ?k)" unfolding R(2) by (rule findInBucket_result [OF R(1)])
  consider (there) "isAccessible (hi_ref m node)" "tbl ?k \<noteq> None" | (other) "\<not> isAccessible (hi_ref m node)" "tbl ?k \<noteq> None"
    | (new) "\<not> isAccessible (hi_ref m node)" "tbl ?k = None" using R(3) n by auto
  then show ?thesis
  proof cases
    case there
    then show ?thesis using rep by (auto simp: Container_insert_def)
  next
    case other
    then show ?thesis using f rep by (auto simp: Container_insert_def insertInBucket_def)
  next
    case new
    let ?b = "getBucket (cn_ht c) ?k"
    define ht' m' where "ht' = setBucket ?b (pc_compress pc (Some node)) (cn_ht c)" "m' = setHashNextCompressed node (ht_hashTable (cn_ht c) ! unat ?b) m"
    have st: "stores pc valid (cn_ht c, m) cs (ht', m') ?k (Some node)"
      unfolding ht'_m'_def by (rule insert_at_head [OF R(1) n]) (use new R(2) in simp)
    then have m': "hi_key m' = hi_key m" "hi_ref m' = hi_ref m" by (simp_all add: stores_def)
    have "table_rep pc valid (c\<lparr>cn_ht := ht', cn_numKeys := cn_numKeys c + 1\<rparr>, set_ref node markAccessible m') (tbl(?k := Some node))"
      by (rule table_rep_update [OF R(1,2,3,5) st]) (use new m' card_dom_upd(1) [OF R(5), of ?k node] R(4,6) in auto)
    moreover have "Container_insert node (c, m) = Some (True, (c\<lparr>cn_ht := ht', cn_numKeys := cn_numKeys c + 1\<rparr>, set_ref node markAccessible m'))"
      using new f chainsD(4) [OF R(1)] by (simp add: Container_insert_def insertInBucket_def Let_def ht'_m'_def)
    ultimately show ?thesis using new(2) m'(1) by (simp del: fun_upd_apply)
  qed
qed

lemma insertOrReplaceInBucket_result:
  assumes ch: "hash_chains pc valid (ht, m) cs" and n: "node \<in> valid"
  shows "\<exists>s'. insertOrReplaceInBucket node (getBucket ht (hi_key m node)) (ht, m) = Some (table_map (ht, m) cs (hi_key m node), s') \<and>
    stores pc valid (ht, m) cs s' (hi_key m node) (Some node)"
proof (cases "table_map (ht, m) cs (hi_key m node)")
  case None
  let ?k = "hi_key m node"
  have "k \<notin> hi_key m ` set (cs ! unat (getBucket ht k))" if "table_map (ht, m) cs k = None" for k
    using that by (simp add: table_map_def chain_map_None_iff)
  then have "prev_loop ht m ?k None (bucketHead ht (getBucket ht ?k)) = Some (last_ptr None (cs ! unat (getBucket ht ?k)), None)"
    using prev_loop_result [OF chainsD(4) [OF ch], of m "cs ! unat (getBucket ht ?k)" "[]" ?k None] None
      chain_okD(2) [OF bucket_chain(1) [OF ch, of ?k]] bucket_chain(2) [OF ch, of ?k] by simp
  then show ?thesis using insert_at_head [OF ch n None] chainsD(4) [OF ch]
    by (simp add: insertOrReplaceInBucket_def None Let_def)
next
  case (Some c)
  then show ?thesis using replace_in_bucket [OF ch n Some] by simp
qed

lemma remove_result:
  assumes rep: "table_rep pc valid (c, m) tbl" and n: "node \<in> valid"
  shows "\<exists>s'. Container_remove node (c, m) = Some (tbl (hi_key m node) = Some node, s') \<and>
     table_rep pc valid s' (if tbl (hi_key m node) = Some node then tbl(hi_key m node := None) else tbl)"
proof -
  let ?k = "hi_key m node"
  from rep obtain cs where R: "hash_chains pc valid (cn_ht c, m) cs" "tbl = table_map (cn_ht c, m) cs"
    "\<forall>a \<in> valid. isAccessible (hi_ref m a) \<longleftrightarrow> tbl (hi_key m a) = Some a" "cn_numKeys c = of_nat (card (dom tbl))" "finite (dom tbl)"
    "ht_numBuckets (cn_ht c) = getNumBuckets (cn_config c)" by (rule table_repE)
  show ?thesis
  proof (cases "tbl ?k = Some node")
    case True
    then obtain ht' m' where r: "removeFromBucket node (getBucket (cn_ht c) ?k) (cn_ht c, m) = Some (ht', m')"
      and st: "stores pc valid (cn_ht c, m) cs (ht', m') ?k None" using remove_from_bucket [OF R(1)] R(2) by fastforce
    then have m': "hi_key m' = hi_key m" "hi_ref m' = hi_ref m" by (simp_all add: stores_def)
    have "table_rep pc valid (c\<lparr>cn_ht := ht', cn_numKeys := cn_numKeys c - 1\<rparr>, set_ref node unmarkAccessible m') (tbl(?k := None))"
      by (rule table_rep_update [OF R(1,2,3,5) st]) (use True m' numKeys_down [OF R(5), of ?k] R(4,6) in auto)
    then show ?thesis using True R(3) n r m'(1) by (auto simp: Container_remove_def)
  next
    case False
    then show ?thesis using R(3) n rep by (auto simp: Container_remove_def)
  qed
qed

lemma find_result:
  assumes rep: "table_rep pc valid (c, m) tbl" and hm: "handle_maker_ok hm"
  shows "\<exists>m'. Container_find hm k (c, m) = Some (fst (hm (tbl k) m), (c, m')) \<and> table_rep pc valid (c, m') tbl"
proof -
  from rep obtain cs where R: "hash_chains pc valid (cn_ht c, m) cs" "tbl = table_map (cn_ht c, m) cs" by (rule table_repE)
  obtain r m' where h: "hm (tbl k) m = (r, m')" by (rule prod.exhaust)
  have s: "same_items m m'" by (rule handle_makerD(2) [OF hm h])
  then have "table_rep pc valid (c, m') tbl" by (rule table_rep_same [OF rep]) simp_all
  then show ?thesis using findInBucket_result [OF R(1), of k] h s R(2) by (auto simp: Container_find_def same_items_def)
qed

lemma removeIf_result:
  assumes rep: "table_rep pc valid (c, m) tbl" and n: "node \<in> valid" and hm: "handle_maker_ok hm"
  shows "\<exists>r s'. Container_removeIf hm node predicate (c, m) = Some (r, s') \<and>
     (if tbl (hi_key m node) = Some node \<and> predicate node m then
        r = fst (hm (Some node) m) \<and> table_rep pc valid s' (case r of Inl _ \<Rightarrow> tbl | Inr _ \<Rightarrow> tbl(hi_key m node := None))
      else r = Inr None \<and> table_rep pc valid s' tbl)"
proof -
  let ?k = "hi_key m node"
  from rep have acc: "isAccessible (hi_ref m node) \<longleftrightarrow> tbl ?k = Some node" using n by (auto simp: table_rep_def)
  show ?thesis
  proof (cases "tbl ?k = Some node \<and> predicate node m")
    case False
    then show ?thesis using acc rep handle_makerD(1) [OF hm] by (auto simp: Container_removeIf_def)
  next
    case True
    obtain r m1 where h: "hm (Some node) m = (r, m1)" by (rule prod.exhaust)
    have s: "same_items m m1" by (rule handle_makerD(2) [OF hm h])
    then have rep1: "table_rep pc valid (c, m1) tbl" by (rule table_rep_same [OF rep]) simp_all
    have k1: "hi_key m1 = hi_key m" using s by (simp add: same_items_def)
    show ?thesis
    proof (cases r)
      case (Inl e)
      then show ?thesis using True acc h rep1 k1 by (auto simp: Container_removeIf_def)
    next
      case (Inr x)
      from rep1 obtain cs where R: "hash_chains pc valid (cn_ht c, m1) cs" "tbl = table_map (cn_ht c, m1) cs"
        "\<forall>a \<in> valid. isAccessible (hi_ref m1 a) \<longleftrightarrow> tbl (hi_key m1 a) = Some a" "cn_numKeys c = of_nat (card (dom tbl))" "finite (dom tbl)"
        "ht_numBuckets (cn_ht c) = getNumBuckets (cn_config c)" by (rule table_repE)
      have "table_map (cn_ht c, m1) cs (hi_key m1 node) = Some node" using True R(2) k1 by simp
      from remove_from_bucket [OF R(1) this] obtain ht' m' where r: "removeFromBucket node (getBucket (cn_ht c) ?k) (cn_ht c, m1) = Some (ht', m')"
        and st: "stores pc valid (cn_ht c, m1) cs (ht', m') ?k None" by (auto simp: k1)
      then have m': "hi_key m' = hi_key m" "hi_ref m' = hi_ref m1" by (simp_all add: stores_def k1)
      have "table_rep pc valid (c\<lparr>cn_ht := ht', cn_numKeys := cn_numKeys c - 1\<rparr>, set_ref node unmarkAccessible m') (tbl(?k := None))"
        by (rule table_rep_update [OF R(1,2,3,5) st]) (use True m' numKeys_down [OF R(5), of ?k] R(4,6) in auto)
      then show ?thesis using True acc h Inr r m'(1) by (auto simp: Container_removeIf_def)
    qed
  qed
qed

lemma replaceIf_result:
  assumes rep: "table_rep pc valid (c, m) tbl" and o: "old \<in> valid" and n: "new \<in> valid" and k: "hi_key m old = hi_key m new"
  shows "\<exists>s'. Container_replaceIf old new predicate (c, m) = Some (tbl (hi_key m new) = Some old \<and> predicate old m, s') \<and>
     table_rep pc valid s' (if tbl (hi_key m new) = Some old \<and> predicate old m then tbl(hi_key m new \<mapsto> new) else tbl)"
proof -
  let ?k = "hi_key m new"
  from rep obtain cs where R: "hash_chains pc valid (cn_ht c, m) cs" "tbl = table_map (cn_ht c, m) cs"
    "\<forall>a \<in> valid. isAccessible (hi_ref m a) \<longleftrightarrow> tbl (hi_key m a) = Some a" "cn_numKeys c = of_nat (card (dom tbl))" "finite (dom tbl)"
    "ht_numBuckets (cn_ht c) = getNumBuckets (cn_config c)" by (rule table_repE)
  show ?thesis
  proof (cases "tbl ?k = Some old \<and> predicate old m")
    case True
    from insertOrReplaceInBucket_result [OF R(1) n] obtain ht' m' where
      r: "insertOrReplaceInBucket new (getBucket (cn_ht c) ?k) (cn_ht c, m) = Some (tbl ?k, (ht', m'))"
      and st: "stores pc valid (cn_ht c, m) cs (ht', m') ?k (Some new)" using R(2) by auto
    then have m': "hi_key m' = hi_key m" "hi_ref m' = hi_ref m" by (simp_all add: stores_def)
    have "table_rep pc valid (c\<lparr>cn_ht := ht'\<rparr>, set_ref new markAccessible (set_ref old unmarkAccessible m')) (tbl(?k := Some new))"
      by (rule table_rep_update [OF R(1,2,3,5) st]) (use True m' card_dom_upd(2) [OF R(5), of ?k] R(4,6) in auto)
    then show ?thesis using True R(3) o k r m'(1) by (auto simp: Container_replaceIf_def)
  next
    case False
    then show ?thesis using R(3) o k rep by (auto simp: Container_replaceIf_def)
  qed
qed

lemma insertOrReplace_result:
  assumes rep: "table_rep pc valid (c, m) tbl" and n: "node \<in> valid" and hm: "handle_maker_ok hm"
  shows "\<exists>r s' m1. Container_insertOrReplace hm node (c, m) = Some (r, s') \<and> hi_ref m1 = hi_ref m \<and>
     (if tbl (hi_key m node) = Some node then r = Inr None \<and> table_rep pc valid s' tbl
      else (case fst (hm (tbl (hi_key m node)) m1) of
              Inl e \<Rightarrow> r = Inl (Thrown e) \<and> tbl (hi_key m node) \<noteq> None \<and> table_rep pc valid s' tbl
            | Inr h \<Rightarrow> r = Inr h \<and> table_rep pc valid s' (tbl(hi_key m node \<mapsto> node))))"
proof -
  let ?k = "hi_key m node"
  from rep obtain cs where R: "hash_chains pc valid (cn_ht c, m) cs" "tbl = table_map (cn_ht c, m) cs"
    "\<forall>a \<in> valid. isAccessible (hi_ref m a) \<longleftrightarrow> tbl (hi_key m a) = Some a" "cn_numKeys c = of_nat (card (dom tbl))" "finite (dom tbl)"
    "ht_numBuckets (cn_ht c) = getNumBuckets (cn_config c)" by (rule table_repE)
  have acc: "isAccessible (hi_ref m node) \<longleftrightarrow> tbl ?k = Some node" using R(3) n by blast
  let ?b = "getBucket (cn_ht c) ?k"
  from insertOrReplaceInBucket_result [OF R(1) n] obtain ht' m1 where
    r: "insertOrReplaceInBucket node ?b (cn_ht c, m) = Some (tbl ?k, (ht', m1))"
    and st: "stores pc valid (cn_ht c, m) cs (ht', m1) ?k (Some node)" using R(2) by auto
  have m1: "hi_key m1 = hi_key m" "hi_ref m1 = hi_ref m" "getBucket ht' = getBucket (cn_ht c)" using st by (simp_all add: stores_def)
  obtain q m2 where h: "hm (tbl ?k) m1 = (q, m2)" by (rule prod.exhaust)
  have s: "hi_key m2 = hi_key m1" "hi_next m2 = hi_next m1" "\<And>a. isAccessible (hi_ref m2 a) = isAccessible (hi_ref m1 a)"
    using handle_makerD(2) [OF hm h] by (auto simp: same_items_def)
  consider (there) "tbl ?k = Some node" | (thrown) e where "tbl ?k \<noteq> Some node" "q = Inl e" | (stored) h where "tbl ?k \<noteq> Some node" "q = Inr h"
    by (cases q) auto
  then show ?thesis
  proof cases
    case there
    then show ?thesis using acc rep handle_makerD(1) [OF hm] by (auto simp: Container_insertOrReplace_def)
  next
    case thrown
    then obtain old where old: "tbl ?k = Some old" using handle_makerD(3) [OF hm] h by blast
    have ko: "hi_key m2 old = ?k" "old \<in> valid" using table_rep_keys [OF rep old] s(1) m1(1) by simp_all
    from st obtain cs' where cs': "hash_chains pc valid (ht', m2) cs'" "table_map (ht', m2) cs' = tbl(?k := Some node)"
      using chains_same_items [OF s(1,2)] by (auto simp: stores_def R(2))
    from insertOrReplaceInBucket_result [OF cs'(1) ko(2)] obtain q' ht2 m3 where
      undo: "insertOrReplaceInBucket old ?b (ht', m2) = Some (q', (ht2, m3))" and st2: "stores pc valid (ht', m2) cs' (ht2, m3) ?k (Some old)"
      using ko(1) m1(3) by auto
    from st2 obtain cs2 where "hash_chains pc valid (ht2, m3) cs2" "table_map (ht2, m3) cs2 = tbl" "hi_key m3 = hi_key m" "hi_ref m3 = hi_ref m2"
      "ht_numBuckets ht2 = ht_numBuckets ht'" using old s(1) m1(1) by (auto simp: stores_def cs'(2) fun_upd_idem)
    moreover have nb: "ht_numBuckets ht' = ht_numBuckets (cn_ht c)" using st by (simp add: stores_def)
    ultimately have "table_rep pc valid (c\<lparr>cn_ht := ht2\<rparr>, m3) tbl" using R(3-6) s(3) m1(2) nb by (auto simp: table_rep_def)
    then show ?thesis using thrown acc r h undo old \<open>hi_key m3 = hi_key m\<close> m1(2)
      by (auto simp: Container_insertOrReplace_def Let_def intro!: exI [of _ m1])
  next
    case (stored x)
    show ?thesis
    proof (cases "tbl ?k")
      case None
      have "table_rep pc valid (c\<lparr>cn_ht := ht', cn_numKeys := cn_numKeys c + 1\<rparr>, set_ref node markAccessible m2) (tbl(?k := Some node))"
        by (rule table_rep_update [OF R(1,2,3,5) st]) (use None s m1 card_dom_upd(1) [OF R(5) None] R(4,6) in auto)
      then show ?thesis using stored acc r h None s(1) m1(1,2) by (auto simp: Container_insertOrReplace_def Let_def intro!: exI [of _ m1])
    next
      case (Some old)
      have "table_rep pc valid (c\<lparr>cn_ht := ht'\<rparr>, set_ref old unmarkAccessible (set_ref node markAccessible m2)) (tbl(?k := Some node))"
        by (rule table_rep_update [OF R(1,2,3,5) st]) (use Some stored(1) s m1 card_dom_upd(2) [OF R(5), of ?k node] R(4,6) in auto)
      then show ?thesis using stored acc r h Some s(1) m1(1,2) by (auto simp: Container_insertOrReplace_def Let_def intro!: exI [of _ m1])
    qed
  qed
qed

end


section \<open>New and restored tables\<close>

lemma unat_getNumBuckets: "cf_bucketsPower cfg \<le> kMaxBucketPower \<Longrightarrow> unat (getNumBuckets cfg) = 2 ^ unat (cf_bucketsPower cfg)"
proof -
  assume "cf_bucketsPower cfg \<le> kMaxBucketPower"
  then have "unat (cf_bucketsPower cfg) < 64" by (simp add: kMaxBucketPower_def word_le_nat_alt)
  moreover have "getNumBuckets cfg = of_nat (2 ^ unat (cf_bucketsPower cfg))" by (simp add: getNumBuckets_def push_bit_of_1)
  ultimately show ?thesis by (simp only: unsigned_of_nat) (simp add: take_bit_nat_eq_self)
qed

lemma numBuckets_ok:
  assumes "cf_bucketsPower cfg \<le> kMaxBucketPower"
  shows "getNumBuckets cfg \<noteq> 0" "getNumBuckets cfg - 1 = mask (unat (cf_bucketsPower cfg))" "getNumBuckets cfg AND (getNumBuckets cfg - 1) = 0"
proof -
  show "getNumBuckets cfg \<noteq> 0" using unat_getNumBuckets [OF assms] by (metis power_eq_0_iff unsigned_0 zero_neq_numeral)
  show m: "getNumBuckets cfg - 1 = mask (unat (cf_bucketsPower cfg))" by (simp add: getNumBuckets_def push_bit_of_1 mask_eq_exp_minus_1)
  show "getNumBuckets cfg AND (getNumBuckets cfg - 1) = 0"
    unfolding m by (rule bit_word_eqI) (auto simp: getNumBuckets_def bit_simps)
qed

lemma empty_table:
  assumes cfg: "cf_bucketsPower cfg \<le> kMaxBucketPower" and nul: "pc_unCompress pc nul = None"
    and m: "\<forall>a \<in> valid. \<not> isAccessible (hi_ref m a)"
  shows "\<exists>c. Container_new nul cfg pc = Inr c \<and> table_rep pc valid (c, m) Map.empty"
    and "\<exists>c. Container_new_mem nul cfg mem pc = Inr c \<and> table_rep pc valid (c, m) Map.empty"
proof -
  let ?k = "unat (cf_bucketsPower cfg)" and ?n = "getNumBuckets cfg"
  note N = numBuckets_ok [OF cfg] unat_getNumBuckets [OF cfg]
  have k: "?k \<le> 32" using cfg by (simp add: kMaxBucketPower_def word_le_nat_alt)
  have ht: "hash_chains pc valid (ht, m) (replicate (2 ^ ?k) []) \<and> table_map (ht, m) (replicate (2 ^ ?k) []) = Map.empty"
    if "ht_numBuckets ht = ?n" "ht_numBucketsMask ht = ?n - 1" "ht_hashTable ht = replicate (unat ?n) nul" "ht_compressor ht = pc" for ht
  proof -
    have sh: "table_shape pc ht" unfolding table_shape_def using that N(2,4) k by auto
    have "table_map (ht, m) (replicate (2 ^ ?k) []) key = None" for key
      using getBucket_less [OF sh, of key] by (simp add: table_map_def that(3) N(4))
    then show ?thesis using sh that(3) N(4) nul by (auto simp: hash_chains_def chain_ok_def fun_eq_iff)
  qed
  have "table_rep pc valid (container_of cfg ht 0, m) Map.empty"
    if "ht_numBuckets ht = ?n" "ht_numBucketsMask ht = ?n - 1" "ht_hashTable ht = replicate (unat ?n) nul" "ht_compressor ht = pc" for ht
    using ht [OF that] m that(1) by (auto simp: table_rep_def container_of_def intro!: exI [of _ "replicate (2 ^ ?k) []"])
  then show "\<exists>c. Container_new nul cfg pc = Inr c \<and> table_rep pc valid (c, m) Map.empty"
    "\<exists>c. Container_new_mem nul cfg mem pc = Inr c \<and> table_rep pc valid (c, m) Map.empty"
    using N by (auto simp: Container_new_def Hashtable_new_def Container_new_mem_def Hashtable_new_mem_def)
qed

text \<open>A saved table, restored on the same memory, is the same table.\<close>

lemma restored_table:
  assumes rep: "table_rep pc valid (c, m) tbl" and save: "Container_saveState c = Inr object"
    and cfg: "cf_bucketsPower (cn_config c) \<le> kMaxBucketPower" "cf_hasher (cn_config c) = ht_hasher (cn_ht c)"
    and n: "nBytes = getAlignedSize_bytes (ht_numBuckets (cn_ht c) * ptrSize) (ucast (pageSizes (cf_pageSize (cn_config c))))"
  shows "\<exists>c'. Container_restore pageSizes ptrSize nul object (cn_config c) (ht_hashTable (cn_ht c)) nBytes pc = Inr c' \<and>
    table_rep pc valid (c', m) tbl"
proof -
  note N = numBuckets_ok [OF cfg(1)] unat_getNumBuckets [OF cfg(1)]
  from rep obtain cs where R: "hash_chains pc valid (cn_ht c, m) cs" "tbl = table_map (cn_ht c, m) cs"
    "\<forall>a \<in> valid. isAccessible (hi_ref m a) \<longleftrightarrow> tbl (hi_key m a) = Some a" "cn_numKeys c = of_nat (card (dom tbl))" "finite (dom tbl)"
    "ht_numBuckets (cn_ht c) = getNumBuckets (cn_config c)" by (rule table_repE)
  have obj: "object = \<lparr>cho_bucketsPower = cf_bucketsPower (cn_config c), cho_locksPower = cf_locksPower (cn_config c),
      cho_numKeys = cn_numKeys c, cho_hasherMagicId = hs_magicId (cf_hasher (cn_config c))\<rparr>" and rs: "ht_restorable (cn_ht c)"
    using save by (auto simp: Container_saveState_def split: if_splits)
  obtain k where k: "unat (ht_numBuckets (cn_ht c)) = 2 ^ k" "ht_numBucketsMask (cn_ht c) = mask k"
    using chainsD(1) [OF R(1)] by (auto simp: table_shape_def)
  have "k = unat (cf_bucketsPower (cn_config c))" using k(1) N(4) R(6) by simp
  then have "cn_ht c = \<lparr>ht_numBuckets = getNumBuckets (cn_config c), ht_numBucketsMask = getNumBuckets (cn_config c) - 1,
      ht_hashTable = ht_hashTable (cn_ht c), ht_restorable = True, ht_compressor = pc, ht_hasher = cf_hasher (cn_config c)\<rparr>"
    using k(2) N(2) R(6) rs chainsD(4) [OF R(1)] cfg(2) by simp
  then have "Container_restore pageSizes ptrSize nul object (cn_config c) (ht_hashTable (cn_ht c)) nBytes pc =
      Inr (container_of (cn_config c) (cn_ht c) (cn_numKeys c))"
    using N n R(6) by (simp add: Container_restore_def Hashtable_new_mem_def obj)
  moreover have "table_rep pc valid (container_of (cn_config c) (cn_ht c) (cn_numKeys c), m) tbl"
    by (rule table_rep_same [OF rep same_items_refl]) (simp_all add: container_of_def)
  ultimately show ?thesis by blast
qed


abbreviation table4 :: "SlabAllocator \<Rightarrow> CompressedPtr4B table \<Rightarrow> (Key \<rightharpoonup> addr) \<Rightarrow> bool" where
  "table4 sa \<equiv> table_rep (createPtrCompressor cptr4 sa False) (valid_allocs cptr4 sa)"

section \<open>Properties\<close>

text \<open>
  C3. The hash table implements a map from keys to items, with pointers compressed to four bytes. A
  new table is the empty map. In a table that stands for a map (whose chains, and so all loops, are finite; in
  which exactly the items of the map are marked accessible; and which counts its keys), every operation
  returns, and: \<open>insert\<close> adds the item exactly when its key is not there; \<open>insertOrReplace\<close> binds the key
  to the item and returns a handle to the item replaced, or leaves the map as it was when no handle can be
  had; \<open>replaceIf\<close> swaps items of the same key exactly when the old one is bound and the predicate holds;
  \<open>remove\<close> and \<open>removeIf\<close> unbind the item exactly when it is bound (and the predicate holds and a
  handle can be had); \<open>find\<close> makes a handle for the item bound to the key. The handle maker may do
  anything to reference counts but mark or unmark items.
\<close>

theorem hash_table_is_a_map:
  "(cf_bucketsPower cfg \<le> kMaxBucketPower \<and> (\<forall>a \<in> valid_allocs cptr4 sa. \<not> isAccessible (hi_ref m a)) \<longrightarrow>
      (\<exists>c0. Container_new kNull4 cfg (createPtrCompressor cptr4 sa False) = Inr c0 \<and> table4 sa (c0, m) Map.empty)) \<and>
   (table4 sa (c, m) tbl \<and> handle_maker_ok hm \<and> {node, old} \<subseteq> valid_allocs cptr4 sa \<longrightarrow>
      cn_numKeys c = of_nat (card (dom tbl)) \<and>
      (\<exists>s. Container_insert node (c, m) = Some (tbl (hi_key m node) = None, s) \<and>
         table4 sa s (if tbl (hi_key m node) = None then tbl(hi_key m node \<mapsto> node) else tbl)) \<and>
      (\<exists>r s m1. Container_insertOrReplace hm node (c, m) = Some (r, s) \<and> hi_ref m1 = hi_ref m \<and>
         (if tbl (hi_key m node) = Some node then r = Inr None \<and> table4 sa s tbl
          else (case fst (hm (tbl (hi_key m node)) m1) of
                  Inl e \<Rightarrow> r = Inl (Thrown e) \<and> tbl (hi_key m node) \<noteq> None \<and> table4 sa s tbl
                | Inr h \<Rightarrow> r = Inr h \<and> table4 sa s (tbl(hi_key m node \<mapsto> node))))) \<and>
      (hi_key m old = hi_key m node \<longrightarrow>
         (\<exists>s. Container_replaceIf old node predicate (c, m) = Some (tbl (hi_key m node) = Some old \<and> predicate old m, s) \<and>
            table4 sa s (if tbl (hi_key m node) = Some old \<and> predicate old m then tbl(hi_key m node \<mapsto> node) else tbl))) \<and>
      (\<exists>s. Container_remove node (c, m) = Some (tbl (hi_key m node) = Some node, s) \<and>
         table4 sa s (if tbl (hi_key m node) = Some node then tbl(hi_key m node := None) else tbl)) \<and>
      (\<exists>r s. Container_removeIf hm node predicate (c, m) = Some (r, s) \<and>
         (if tbl (hi_key m node) = Some node \<and> predicate node m then
            r = fst (hm (Some node) m) \<and> table4 sa s (case r of Inl _ \<Rightarrow> tbl | Inr _ \<Rightarrow> tbl(hi_key m node := None))
          else r = Inr None \<and> table4 sa s tbl)) \<and>
      (\<exists>m'. Container_find hm key (c, m) = Some (fst (hm (tbl key) m), (c, m')) \<and> table4 sa (c, m') tbl))"
proof ((rule conjI; rule impI), goal_cases)
  case 1
  then have cfg: "cf_bucketsPower cfg \<le> kMaxBucketPower" and acc: "\<forall>a \<in> valid_allocs cptr4 sa. \<not> isAccessible (hi_ref m a)" by simp_all
  have nul: "pc_unCompress (createPtrCompressor cptr4 sa False) kNull4 = None"
    by (simp add: createPtrCompressor_def unCompress_def cptr4_def isNull4_def)
  show ?case by (rule empty_table(1) [OF cfg nul acc])
next
  case 2
  then have rep: "table4 sa (c, m) tbl" and hm: "handle_maker_ok hm" and n: "node \<in> valid_allocs cptr4 sa" "old \<in> valid_allocs cptr4 sa" by simp_all
  have num: "cn_numKeys c = of_nat (card (dom tbl))" using rep by (simp add: table_rep_def)
  show ?case
    by (intro conjI impI num compressor4.insert_result [OF rep n(1)] compressor4.insertOrReplace_result [OF rep n(1) hm]
        compressor4.replaceIf_result [OF rep n(2,1)] compressor4.remove_result [OF rep n(1)]
        compressor4.removeIf_result [OF rep n(1) hm] compressor4.find_result [OF rep hm])
qed

text \<open>A run: a new table, one item inserted and found.\<close>

definition example_hitems :: "CompressedPtr4B hitems" where
  "example_hitems = \<lparr>hi_key = (\<lambda>_. [97, 98]), hi_next = (\<lambda>_. kNull4), hi_ref = (\<lambda>_. 0)\<rparr>"

theorem hash_table_is_a_map_witness:
  "\<exists>c s m'. Container_new kNull4 ChainedHashTable_Config_default (createPtrCompressor cptr4 example_sa2 False) = Inr c \<and>
     Container_insert (2 * kSize + 200) (c, example_hitems) = Some (True, s) \<and>
     table4 example_sa2 s [[97, 98] \<mapsto> 2 * kSize + 200] \<and>
     Container_find kDefaultHandleMaker [97, 98] s = Some (fst (kDefaultHandleMaker (Some (2 * kSize + 200)) (snd s)), (fst s, m'))"
proof -
  let ?a = "2 * kSize + 200"
  have a: "{?a, ?a} \<subseteq> valid_allocs cptr4 example_sa2" using example_valid_alloc [of 2] by simp
  have "\<forall>b \<in> valid_allocs cptr4 example_sa2. \<not> isAccessible (hi_ref example_hitems b)" by (simp add: example_hitems_def isAccessible_def)
  moreover have "cf_bucketsPower ChainedHashTable_Config_default \<le> kMaxBucketPower"
    by (simp add: ChainedHashTable_Config_default_def kMaxBucketPower_def)
  ultimately obtain c where c: "Container_new kNull4 ChainedHashTable_Config_default (createPtrCompressor cptr4 example_sa2 False) = Inr c"
    "table4 example_sa2 (c, example_hitems) Map.empty"
    using hash_table_is_a_map [where cfg = ChainedHashTable_Config_default and sa = example_sa2 and m = example_hitems] by blast
  have "table4 example_sa2 (c, example_hitems) Map.empty \<and> handle_maker_ok (kDefaultHandleMaker :: (CompressedPtr4B, _) handle_maker) \<and>
      {?a, ?a} \<subseteq> valid_allocs cptr4 example_sa2" using c(2) a default_handle_maker_ok by blast
  from mp [OF conjunct2 [OF hash_table_is_a_map] this, THEN conjunct2, THEN conjunct1]
  obtain s where s: "Container_insert ?a (c, example_hitems) = Some (True, s)" "table4 example_sa2 s [hi_key example_hitems ?a \<mapsto> ?a]"
    by (simp del: fun_upd_apply) blast
  have k: "hi_key example_hitems ?a = [97, 98]" by (simp add: example_hitems_def)
  have "table4 example_sa2 (fst s, snd s) [[97, 98] \<mapsto> ?a] \<and> handle_maker_ok (kDefaultHandleMaker :: (CompressedPtr4B, _) handle_maker) \<and>
      {?a, ?a} \<subseteq> valid_allocs cptr4 example_sa2" using s(2) a default_handle_maker_ok k by simp
  from mp [OF conjunct2 [OF hash_table_is_a_map [where key = "[97, 98]"]] this, THEN conjunct2, THEN conjunct2, THEN conjunct2, THEN conjunct2, THEN conjunct2, THEN conjunct2]
  obtain m' where f: "Container_find kDefaultHandleMaker [97, 98] s = Some (fst (kDefaultHandleMaker (Some ?a) (snd s)), (fst s, m'))" by auto
  show ?thesis by (intro exI [of _ c] exI [of _ s] exI [of _ m'] conjI c(1) s(1) f) (use s(2) k in simp)
qed


section \<open>Iterating over a table\<close>

text \<open>The handle maker gives handles for the items of \<open>K\<close>, and none, or an exception, for others.\<close>

definition gives_handles :: "('c, 'e) handle_maker \<Rightarrow> addr set \<Rightarrow> bool" where
  "gives_handles hm K \<longleftrightarrow> (\<forall>a m. same_items m (snd (hm (Some a) m)) \<and>
     (if a \<in> K then fst (hm (Some a) m) = Inr (Some a) else (\<exists>e. fst (hm (Some a) m) = Inl e) \<or> fst (hm (Some a) m) = Inr None))"

definition collect_handle :: "('c, 'e) handle_maker \<Rightarrow> addr \<Rightarrow> 'c hitems \<times> addr list \<Rightarrow> 'c hitems \<times> addr list" where
  "collect_handle hm = (\<lambda>e (m, handles).
     case hm (Some e) m of
       (Inl _, m1) \<Rightarrow> (m1, handles)
     | (Inr None, m1) \<Rightarrow> (m1, handles)
     | (Inr (Some h), m1) \<Rightarrow> (m1, handles @ [h]))"

lemma collect_handle_result:
  assumes "gives_handles hm K"
  shows "\<exists>m'. collect_handle hm e (m, hs) = (m', if e \<in> K then hs @ [e] else hs) \<and> same_items m m'"
proof -
  obtain r m' where h: "hm (Some e) m = (r, m')" by (rule prod.exhaust)
  have s: "same_items m (snd (hm (Some e) m))"
    and g: "if e \<in> K then fst (hm (Some e) m) = Inr (Some e) else (\<exists>x. fst (hm (Some e) m) = Inl x) \<or> fst (hm (Some e) m) = Inr None"
    using assms by (auto simp: gives_handles_def)
  show ?thesis using s g by (auto simp: h collect_handle_def split: if_splits)
qed

lemma same_items_trans: "same_items m m1 \<Longrightarrow> same_items m1 m2 \<Longrightarrow> same_items m m2"
  by (simp add: same_items_def)

lemma forEach_collect:
  assumes g: "gives_handles hm K" and pc: "ht_compressor ht = pc"
  shows "slseg (hash_next pc m) xs None \<Longrightarrow>
    \<exists>m'. forEachElem_loop ht (collect_handle hm) (first_ptr xs None) (m, hs) = Some (m', hs @ filter (\<lambda>a. a \<in> K) xs) \<and> same_items m m'"
proof (induction xs arbitrary: m hs)
  case Nil
  then show ?case by (subst forEachElem_loop.simps) (simp add: same_items_refl)
next
  case (Cons x xs)
  from collect_handle_result [OF g, of x m hs] obtain m1 where m1: "collect_handle hm x (m, hs) = (m1, if x \<in> K then hs @ [x] else hs)"
    "same_items m m1" by blast
  have nx: "hash_next pc m1 = hash_next pc m" using m1(2) by (simp add: fun_eq_iff hash_next_def same_items_def)
  then have "getHashNext ht m1 x = first_ptr xs None" using Cons.prems pc by (simp add: getHashNext_def hash_next_def fun_eq_iff)
  moreover from Cons.IH [of m1 "if x \<in> K then hs @ [x] else hs"] nx Cons.prems obtain m' where
    "forEachElem_loop ht (collect_handle hm) (first_ptr xs None) (m1, if x \<in> K then hs @ [x] else hs) =
       Some (m', (if x \<in> K then hs @ [x] else hs) @ filter (\<lambda>a. a \<in> K) xs)" "same_items m1 m'" by auto
  ultimately show ?case using m1 same_items_trans by (subst forEachElem_loop.simps) (auto simp: Let_def)
qed

lemma getBucketElems_result:
  assumes g: "gives_handles hm K" and ch: "hash_chains pc valid (cn_ht c, m) cs" and b: "b < length cs" and sz: "b < 2 ^ 64"
  shows "\<exists>m'. getBucketElems hm (of_nat b) c m = Some (m', filter (\<lambda>a. a \<in> K) (cs ! b)) \<and> same_items m m'"
proof -
  have "unat (of_nat b :: size_t) = b" using sz by (simp add: unsigned_of_nat take_bit_nat_eq_self)
  then have "bucketHead (cn_ht c) (of_nat b) = first_ptr (cs ! b) None"
    using chain_okD(1) [OF chainsD(3) [OF ch b]] chainsD(4) [OF ch] by (simp add: bucketHead_def)
  moreover have "getBucketElems hm (of_nat b) c m = forEachElem_loop (cn_ht c) (collect_handle hm) (bucketHead (cn_ht c) (of_nat b)) (m, [])"
    by (simp add: getBucketElems_def forEachBucketElem_def collect_handle_def)
  ultimately show ?thesis using forEach_collect [OF g chainsD(4) [OF ch] chain_okD(2) [OF chainsD(3) [OF ch b]], of "[]"] by simp
qed

text \<open>An iterator stands before the items \<open>xs\<close> that are still to come; \<open>ds\<close> are the items of each bucket.\<close>

definition stands :: "addr list list \<Rightarrow> ht_Iterator \<Rightarrow> addr list \<Rightarrow> bool" where
  "stands ds it xs \<longleftrightarrow>
     (if xs = [] then it = \<lparr>it_currBucket = of_nat (length ds), it_curSor = 0, it_bucketElems = []\<rparr>
      else \<exists>j i. j < length ds \<and> i < length (ds ! j) \<and> it = \<lparr>it_currBucket = of_nat j, it_curSor = of_nat i, it_bucketElems = ds ! j\<rparr> \<and>
        xs = drop i (ds ! j) @ concat (drop (Suc j) ds))"

text \<open>What the loops need of the state: it does not change when handles are made.\<close>

definition iterable :: "('c, 'e) handle_maker \<Rightarrow> 'c ht_Container \<Rightarrow> addr list list \<Rightarrow> 'c hitems \<Rightarrow> bool" where
  "iterable hm c ds m0 \<longleftrightarrow> length ds < 2 ^ 64 \<and> getNumBuckets (cn_config c) = of_nat (length ds) \<and>
     (\<forall>b m. b < length ds \<longrightarrow> same_items m0 m \<longrightarrow> (\<exists>m'. getBucketElems hm (of_nat b) c m = Some (m', ds ! b) \<and> same_items m0 m'))"

lemma of_nat_less64: "b < 2 ^ 64 \<Longrightarrow> n < 2 ^ 64 \<Longrightarrow> (of_nat b :: size_t) < of_nat n \<longleftrightarrow> b < n"
  by (simp add: word_less_nat_alt unsigned_of_nat take_bit_nat_eq_self)

lemma concat_drop: "b < length ds \<Longrightarrow> concat (drop b ds) = ds ! b @ concat (drop (Suc b) ds)"
  by (metis Cons_nth_drop_Suc concat.simps(2))

lemma stands_end: "stands ds \<lparr>it_currBucket = of_nat (length ds), it_curSor = 0, it_bucketElems = []\<rparr> []"
  by (simp add: stands_def)

lemma standsI:
  "j < length ds \<Longrightarrow> i < length (ds ! j) \<Longrightarrow>
   stands ds \<lparr>it_currBucket = of_nat j, it_curSor = of_nat i, it_bucketElems = ds ! j\<rparr> (drop i (ds ! j) @ concat (drop (Suc j) ds))"
  unfolding stands_def by auto

lemma stands_head:
  assumes "b < length ds" and "ds ! b \<noteq> []"
  shows "stands ds \<lparr>it_currBucket = of_nat b, it_curSor = 0, it_bucketElems = ds ! b\<rparr> (concat (drop b ds))"
  using standsI [of b ds 0] assms by (simp add: concat_drop)

lemma inc_loop_result:
  assumes it: "iterable hm c ds m0"
  shows "b \<le> length ds \<Longrightarrow> it_currBucket it = of_nat b \<Longrightarrow> same_items m0 m \<Longrightarrow>
    \<exists>it' m'. inc_loop hm c it m = Some (it', m') \<and> same_items m0 m' \<and> stands ds it' (concat (drop b ds))"
proof (induction "length ds - b" arbitrary: b it m)
  case 0
  then show ?case using it by (subst inc_loop.simps) (cases it, simp add: iterable_def stands_def)
next
  case (Suc n)
  then have b: "b < length ds" "b < 2 ^ 64" using it by (auto simp: iterable_def)
  then have lt: "it_currBucket it < getNumBuckets (cn_config c)" using it Suc.prems(2) of_nat_less64 [of b "length ds"] by (simp add: iterable_def)
  obtain m1 where m1: "getBucketElems hm (of_nat b) c m = Some (m1, ds ! b)" "same_items m0 m1"
    using it b(1) Suc.prems(3) unfolding iterable_def by blast
  show ?case
  proof (cases "ds ! b = []")
    case True
    from Suc.hyps(1) [of "Suc b" "it\<lparr>it_bucketElems := [], it_currBucket := it_currBucket it + 1\<rparr>" m1] Suc.hyps(2) Suc.prems b(1) m1(2)
    show ?thesis using lt m1(1) Suc.prems(2) True concat_drop [OF b(1)] by (subst inc_loop.simps) (simp add: add.commute)
  next
    case False
    have "it\<lparr>it_bucketElems := ds ! b, it_curSor := 0\<rparr> = \<lparr>it_currBucket = of_nat b, it_curSor = 0, it_bucketElems = ds ! b\<rparr>"
      using Suc.prems(2) by (cases it) simp
    then have "stands ds (it\<lparr>it_bucketElems := ds ! b, it_curSor := 0\<rparr>) (concat (drop b ds))" using stands_head [OF b(1) False] by simp
    then show ?thesis using lt m1 Suc.prems(2) False by (subst inc_loop.simps) simp
  qed
qed

lemma reset_loop_result:
  assumes it: "iterable hm c ds m0"
  shows "b < length ds \<Longrightarrow> it = \<lparr>it_currBucket = of_nat b, it_curSor = 0, it_bucketElems = ds ! b\<rparr> \<Longrightarrow> same_items m0 m \<Longrightarrow>
    \<exists>it' m'. reset_loop hm c it m = Some (it', m') \<and> same_items m0 m' \<and> stands ds it' (concat (drop b ds))"
proof (induction "length ds - Suc b" arbitrary: b it m)
  case 0
  then have n: "Suc b = length ds" by simp
  have "of_nat b + 1 = (of_nat (length ds) :: size_t)" by (simp flip: n)
  then have "reset_loop hm c it m = Some (if ds ! b \<noteq> [] then it else it\<lparr>it_currBucket := of_nat (length ds)\<rparr>, m)"
    using it 0(3) by (subst reset_loop.simps) (simp add: iterable_def Let_def)
  moreover have "concat (drop b ds) = ds ! b" using concat_drop [OF 0(2)] n by simp
  ultimately show ?case using 0(2-4) stands_head [OF 0(2)] stands_end [of ds] by (cases "ds ! b = []") (simp_all only:, simp_all)
next
  case (Suc n)
  then have b: "Suc b < length ds" "Suc b < 2 ^ 64" using it by (auto simp: iterable_def)
  show ?case
  proof (cases "ds ! b = []")
    case False
    then have "reset_loop hm c it m = Some (it, m)" using Suc.prems(2) by (subst reset_loop.simps) simp
    then show ?thesis using Suc.prems stands_head [OF Suc.prems(1) False] by simp
  next
    case True
    have lt: "of_nat b + 1 < getNumBuckets (cn_config c)" using it b of_nat_less64 [of "Suc b" "length ds"] by (simp add: iterable_def add.commute)
    obtain m1 where m1: "getBucketElems hm (of_nat (Suc b)) c m = Some (m1, ds ! Suc b)" "same_items m0 m1"
      using it b(1) Suc.prems(3) unfolding iterable_def by blast
    from Suc.hyps(1) [of "Suc b" "\<lparr>it_currBucket = of_nat (Suc b), it_curSor = 0, it_bucketElems = ds ! Suc b\<rparr>" m1] Suc.hyps(2) b(1) m1(2)
    show ?thesis using lt m1(1) Suc.prems(2) True concat_drop [OF Suc.prems(1)]
      by (subst reset_loop.simps) (simp add: Let_def add.commute)
  qed
qed


lemma inc_result:
  assumes it: "iterable hm c ds m0" and sz: "\<And>j. j < length ds \<Longrightarrow> length (ds ! j) < 2 ^ 32"
    and st: "stands ds it (x # xs)" and m: "same_items m0 m"
  shows "ht_Iterator_curr it = Inr x" "\<exists>it' m'. ht_Iterator_inc hm c it m = Some (it', m') \<and> same_items m0 m' \<and> stands ds it' xs"
proof -
  from st obtain j i where j: "j < length ds" "i < length (ds ! j)" and i: "it = \<lparr>it_currBucket = of_nat j, it_curSor = of_nat i, it_bucketElems = ds ! j\<rparr>"
    and xs: "x # xs = drop i (ds ! j) @ concat (drop (Suc j) ds)" by (auto simp: stands_def)
  have u: "unat (of_nat k :: u32) = k" if "k \<le> length (ds ! j)" for k
    using that sz [OF j(1)] by (simp add: unsigned_of_nat take_bit_nat_eq_self)
  have d: "drop i (ds ! j) = ds ! j ! i # drop (Suc i) (ds ! j)" using j(2) by (rule Cons_nth_drop_Suc [symmetric])
  show "ht_Iterator_curr it = Inr x" using xs d u [of i] j(2) by (simp add: ht_Iterator_curr_def i)
  have u1: "unat (of_nat i + 1 :: u32) = Suc i" using u [of "Suc i"] j(2) by (simp add: add.commute)
  show "\<exists>it' m'. ht_Iterator_inc hm c it m = Some (it', m') \<and> same_items m0 m' \<and> stands ds it' xs"
  proof (cases "Suc i < length (ds ! j)")
    case True
    have "xs = drop (Suc i) (ds ! j) @ concat (drop (Suc j) ds)" using xs d by simp
    then show ?thesis using standsI [OF j(1) True] m True u1 by (simp add: ht_Iterator_inc_def i add.commute)
  next
    case False
    then have "xs = concat (drop (Suc j) ds)" using xs d by simp
    moreover have "ht_Iterator_inc hm c it m = inc_loop hm c \<lparr>it_currBucket = of_nat (Suc j), it_curSor = of_nat (Suc i), it_bucketElems = ds ! j\<rparr> m"
      using False u1 by (simp add: ht_Iterator_inc_def i add.commute)
    ultimately show ?thesis using inc_loop_result [OF it, of "Suc j" _ m] j(1) m by simp
  qed
qed

text \<open>A client's loop: \<open>k\<close> times \<open>++it\<close>.\<close>

primrec advance :: "('c, 'e) handle_maker \<Rightarrow> 'c ht_Container \<Rightarrow> nat \<Rightarrow> ht_Iterator \<Rightarrow> 'c hitems \<Rightarrow> (ht_Iterator \<times> 'c hitems) option" where
  "advance hm c 0 it m = Some (it, m)"
| "advance hm c (Suc k) it m = Option.bind (ht_Iterator_inc hm c it m) (\<lambda>(it1, m1). advance hm c k it1 m1)"

lemma advance_result:
  assumes it: "iterable hm c ds m0" and sz: "\<And>j. j < length ds \<Longrightarrow> length (ds ! j) < 2 ^ 32"
  shows "k \<le> length xs \<Longrightarrow> stands ds i xs \<Longrightarrow> same_items m0 m \<Longrightarrow>
    \<exists>i' m'. advance hm c k i m = Some (i', m') \<and> same_items m0 m' \<and> stands ds i' (drop k xs)"
proof (induction k arbitrary: xs i m)
  case (Suc k)
  then obtain y ys where xs: "xs = y # ys" by (cases xs) auto
  from inc_result(2) [OF it sz, of i y ys m] Suc.prems xs obtain i1 m1 where
    "ht_Iterator_inc hm c i m = Some (i1, m1)" "same_items m0 m1" "stands ds i1 ys" by auto
  then show ?case using Suc.IH [of ys i1 m1] Suc.prems(1) xs by simp
qed auto

lemma distinct_concat_buckets:
  "(\<And>b. b < length ds \<Longrightarrow> distinct (ds ! b)) \<Longrightarrow> (\<And>b a. b < length ds \<Longrightarrow> a \<in> set (ds ! b) \<Longrightarrow> f a = b) \<Longrightarrow>
   distinct (concat ds) \<and> (\<forall>a \<in> set (concat ds). f a < length ds)"
proof (induction ds rule: rev_induct)
  case (snoc d ds)
  have *: "distinct (ds ! b)" "\<And>a. a \<in> set (ds ! b) \<Longrightarrow> f a = b" if "b < length ds" for b
    using snoc.prems [of b] that by (simp_all add: nth_append)
  then have "distinct (concat ds) \<and> (\<forall>a \<in> set (concat ds). f a < length ds)" by (rule snoc.IH)
  moreover have "distinct d" "\<forall>a \<in> set d. f a = length ds" using snoc.prems [of "length ds"] by simp_all
  ultimately show ?case by fastforce
qed simp

lemma table_iterable:
  assumes rep: "table_rep pc valid (c, m) tbl" and g: "gives_handles hm K"
  obtains ds where "iterable hm c ds m" "distinct (concat ds)" "set (concat ds) = ran tbl \<inter> K" "0 < length ds"
proof -
  from rep obtain cs where R: "hash_chains pc valid (cn_ht c, m) cs" "tbl = table_map (cn_ht c, m) cs"
    "\<forall>a \<in> valid. isAccessible (hi_ref m a) \<longleftrightarrow> tbl (hi_key m a) = Some a" "cn_numKeys c = of_nat (card (dom tbl))" "finite (dom tbl)"
    "ht_numBuckets (cn_ht c) = getNumBuckets (cn_config c)" by (rule table_repE)
  note C = chainsD [OF R(1)]
  let ?ds = "map (filter (\<lambda>a. a \<in> K)) cs"
  obtain n where n: "n \<le> 32" "unat (ht_numBuckets (cn_ht c)) = 2 ^ n" "length cs = 2 ^ n" using C(1,2) by (auto simp: table_shape_def)
  have l: "length cs < 2 ^ 64" unfolding n(3) using n(1) by (intro power_strict_increasing) simp_all
  have nb: "getNumBuckets (cn_config c) = of_nat (length cs)" using l R(6) n(2,3) by (simp add: word_unat_eq_iff unsigned_of_nat take_bit_nat_eq_self)
  have "iterable hm c ?ds m"
    unfolding iterable_def
  proof (intro conjI allI impI)
    fix b m1 assume b: "b < length ?ds" and s: "same_items m m1"
    have "hash_chains pc valid (cn_ht c, m1) cs" using R(1) chains_same_items(1) [of m1 m] s by (simp add: same_items_def)
    from getBucketElems_result [OF g this, of b] b l s same_items_trans
    show "\<exists>m'. getBucketElems hm (of_nat b) c m1 = Some (m', ?ds ! b) \<and> same_items m m'" by fastforce
  qed (use l nb in simp_all)
  moreover have D: "distinct (concat ?ds)"
    by (rule conjunct1 [OF distinct_concat_buckets [where f = "\<lambda>a. unat (getBucket (cn_ht c) (hi_key m a))"]])
       (use chain_okD(4,5) [OF C(3)] in \<open>auto simp: distinct_map\<close>)
  moreover have "set (concat ?ds) = ran tbl \<inter> K"
  proof -
    have "a \<in> ran tbl" if "b < length cs" "a \<in> set (cs ! b)" for a b
      using chain_okD(4,5) [OF C(3) [OF that(1)]] that(2) by (auto simp: R(2) table_map_def ran_def chain_map_Some_iff intro!: exI [of _ "hi_key m a"])
    moreover have "\<exists>b < length cs. a \<in> set (cs ! b)" if "a \<in> ran tbl" for a
      using that bucket_in_range [OF R(1)] chain_map_SomeD by (fastforce simp: R(2) table_map_def ran_def)
    ultimately show ?thesis by (fastforce simp: in_set_conv_nth)
  qed
  ultimately show thesis using that [of ?ds] n(3) by simp
qed


lemma begin_result:
  assumes rep: "table_rep pc valid (c, m) tbl" and it: "iterable hm c ds m" and ne: "0 < length ds"
  obtains i c1 m1 where "Container_begin hm (c, m) = Some (i, (c1, m1))" "same_items m m1" "stands ds i (concat ds)"
    "c1 = c\<lparr>cn_numIterators := cn_numIterators c + 1\<rparr>"
proof -
  let ?c = "c\<lparr>cn_numIterators := cn_numIterators c + 1\<rparr>"
  have g: "getBucketElems hm b ?c = getBucketElems hm b c" for b by (simp add: getBucketElems_def fun_eq_iff)
  have it': "iterable hm ?c ds m" using it by (simp add: iterable_def g)
  then obtain m1 where m1: "getBucketElems hm 0 ?c m = Some (m1, ds ! 0)" "same_items m m1"
    using ne same_items_refl by (force simp: iterable_def)
  from reset_loop_result [OF it' ne refl m1(2)] obtain i m2 where
    "reset_loop hm ?c \<lparr>it_currBucket = of_nat 0, it_curSor = 0, it_bucketElems = ds ! 0\<rparr> m1 = Some (i, m2)" "same_items m m2" "stands ds i (concat ds)" by auto
  then show thesis using that [of i ?c m2] m1(1) by (simp add: Container_begin_def ht_Iterator_reset_def)
qed

lemma stands_curr:
  assumes it: "iterable hm c ds m" and sz: "\<And>j. j < length ds \<Longrightarrow> length (ds ! j) < 2 ^ 32" and st: "stands ds i xs"
  shows "ht_Iterator_curr i = (if xs = [] then Inl logic_error else Inr (hd xs))"
    and "ht_Iterator_eq i (fst (Container_end (c, m'))) \<longleftrightarrow> xs = []"
proof -
  show "ht_Iterator_curr i = (if xs = [] then Inl logic_error else Inr (hd xs))"
  proof (cases xs)
    case Nil
    then show ?thesis using st by (simp add: stands_def ht_Iterator_curr_def)
  next
    case (Cons y ys)
    then show ?thesis using inc_result(1) [OF it sz _ same_items_refl, of i y ys] st by simp
  qed
  have "(of_nat j :: size_t) \<noteq> of_nat (length ds)" if "j < length ds" for j
    using of_nat_less64 [of j "length ds"] that it by (auto simp: iterable_def)
  then show "ht_Iterator_eq i (fst (Container_end (c, m'))) \<longleftrightarrow> xs = []"
    using st it by (auto simp: stands_def ht_Iterator_eq_def Container_end_def iterable_def split: if_splits)
qed

lemma bucket_sizes:
  assumes "distinct (concat ds)" "set (concat ds) = ran tbl \<inter> K" "finite (dom tbl)" "card (dom tbl) < n" "j < length ds"
  shows "length (ds ! j) < n"
proof -
  have r: "ran tbl = (\<lambda>k. the (tbl k)) ` dom tbl" by (force simp: ran_def dom_def image_iff)
  have "set (ds ! j) \<subseteq> set (concat ds)" using assms(5) by (auto intro: nth_mem)
  then have "card (set (ds ! j)) \<le> card (ran tbl)"
    unfolding assms(2) using assms(3) by (intro card_mono) (auto simp: r)
  also have "\<dots> \<le> card (dom tbl)" unfolding r by (rule card_image_le [OF assms(3)])
  finally show ?thesis using assms(1,4,5) by (simp add: distinct_concat_iff distinct_card)
qed

lemma iteration_result:
  assumes rep: "table_rep pc valid (c, m) tbl" and g: "gives_handles hm K" and n: "card (dom tbl) < 2 ^ 32"
  shows "\<exists>xs i s. distinct xs \<and> set xs = ran tbl \<inter> K \<and> Container_begin hm (c, m) = Some (i, s) \<and>
    (\<forall>k \<le> length xs. \<exists>i' m'. advance hm (fst s) k i (snd s) = Some (i', m') \<and> table_rep pc valid (fst s, m') tbl \<and>
       ht_Iterator_curr i' = (if k < length xs then Inr (xs ! k) else Inl logic_error) \<and>
       (ht_Iterator_eq i' (fst (Container_end (fst s, m'))) \<longleftrightarrow> k = length xs))"
proof -
  obtain ds where ds: "iterable hm c ds m" "distinct (concat ds)" "set (concat ds) = ran tbl \<inter> K" "0 < length ds" by (rule table_iterable [OF rep g])
  obtain i c1 m1 where b: "Container_begin hm (c, m) = Some (i, (c1, m1))" "same_items m m1" "stands ds i (concat ds)"
    "c1 = c\<lparr>cn_numIterators := cn_numIterators c + 1\<rparr>" by (rule begin_result [OF rep ds(1,4)])
  have "getBucketElems hm b c1 = getBucketElems hm b c" for b by (simp add: getBucketElems_def fun_eq_iff b(4))
  then have it: "iterable hm c1 ds m" using ds(1) by (simp add: iterable_def b(4))
  have "finite (dom tbl)" using rep by (simp add: table_rep_def)
  note sz = bucket_sizes [OF ds(2,3) this n]
  have "\<exists>i' m'. advance hm c1 k i m1 = Some (i', m') \<and> table_rep pc valid (c1, m') tbl \<and>
       ht_Iterator_curr i' = (if k < length (concat ds) then Inr (concat ds ! k) else Inl logic_error) \<and>
       (ht_Iterator_eq i' (fst (Container_end (c1, m'))) \<longleftrightarrow> k = length (concat ds))" if k: "k \<le> length (concat ds)" for k
  proof -
    obtain i' m' where a: "advance hm c1 k i m1 = Some (i', m')" "same_items m m'" "stands ds i' (drop k (concat ds))"
      using advance_result [OF it sz k b(3,2)] by blast
    have "table_rep pc valid (c1, m') tbl" by (rule table_rep_same [OF rep a(2)]) (simp_all add: b(4))
    moreover note stands_curr [OF it sz a(3)]
    ultimately show ?thesis using a(1) k by (auto simp: hd_drop_conv_nth simp del: length_concat)
  qed
  then show ?thesis using b(1) ds(2,3) by (intro exI [of _ "concat ds"] exI [of _ i] exI [of _ "(c1, m1)"]) simp
qed



end
