(* ===== verification/BucketStorage.thy ===== *)
theory BucketStorage
  imports Prelude
begin

text \<open>
  The storage of a bucket of the flash cache (\<open>navy/bighash/BucketStorage.h\<close> and \<open>.cpp\<close>): a first in, first
  out allocator in an array of bytes. The array is modelled byte for byte, with the sizes of the slots
  in it as the placement \<open>new\<close> of the code writes them (little endian) and the compaction as the calls of
  \<open>memmove\<close> the code makes. A pointer into \<open>data_\<close> is its offset, a buffer view a pointer and a length
  (a \<open>size_t\<close> that always comes from a 32-bit size). The specification is the list of the contents of the allocations.
\<close>

section \<open>Bytes\<close>

primrec to_bytes :: "nat \<Rightarrow> nat \<Rightarrow> u8 list" where
  "to_bytes 0 x = []"
| "to_bytes (Suc n) x = of_nat (x mod 256) # to_bytes n (x div 256)"

primrec from_bytes :: "u8 list \<Rightarrow> nat" where
  "from_bytes [] = 0"
| "from_bytes (b # bs) = unat b + 256 * from_bytes bs"

definition get_bytes :: "nat \<Rightarrow> nat \<Rightarrow> u8 list \<Rightarrow> u8 list" where
  "get_bytes off len xs = take len (drop off xs)"

definition put_bytes :: "nat \<Rightarrow> u8 list \<Rightarrow> u8 list \<Rightarrow> u8 list" where
  "put_bytes off bs xs = take off xs @ bs @ drop (off + length bs) xs"

definition memmove :: "nat \<Rightarrow> nat \<Rightarrow> nat \<Rightarrow> u8 list \<Rightarrow> u8 list" where
  "memmove dst src len xs = put_bytes dst (get_bytes src len xs) xs"

section \<open>The storage\<close>

text \<open>The view of an allocation; \<open>al_data\<close> is the null pointer in the allocation that marks the end.\<close>

record Allocation =
  al_data :: ptr
  al_size :: nat
  al_position :: u32

abbreviation al_done :: "Allocation \<Rightarrow> bool" where
  "al_done a \<equiv> al_data a = None"

abbreviation no_alloc :: Allocation where
  "no_alloc \<equiv> \<lparr>al_data = None, al_size = 0, al_position = 0\<rparr>"

text \<open>\<open>alloc.view().data() - data_\<close>, taken of allocations that are not at the end only.\<close>

definition al_offset :: "Allocation \<Rightarrow> nat" where
  "al_offset a = (case al_data a of None \<Rightarrow> 0 | Some d \<Rightarrow> d)"

record BucketStorage =
  bs_capacity :: u32
  bs_numAllocations :: u32
  bs_endOffset :: u32
  bs_data :: "u8 list"

abbreviation kAllocationOverhead :: u32 where "kAllocationOverhead \<equiv> 4"

definition slotSize :: "u32 \<Rightarrow> u32" where
  "slotSize sz = kAllocationOverhead + sz"

text \<open>The constructor runs on memory that is there already.\<close>

definition BucketStorage_new :: "u32 \<Rightarrow> u8 list \<Rightarrow> BucketStorage" where
  "BucketStorage_new capacity mem = \<lparr>bs_capacity = capacity, bs_numAllocations = 0, bs_endOffset = 0, bs_data = mem\<rparr>"

definition remainingCapacity :: "BucketStorage \<Rightarrow> u32" where
  "remainingCapacity b = bs_capacity b - bs_endOffset b"

definition canAllocate :: "u32 \<Rightarrow> BucketStorage \<Rightarrow> bool" where
  "canAllocate sz b \<longleftrightarrow> (ucast (bs_endOffset b) + ucast (slotSize sz) :: u64) \<le> ucast (bs_capacity b)"

definition Slot_size :: "nat \<Rightarrow> BucketStorage \<Rightarrow> u32" where
  "Slot_size off b = of_nat (from_bytes (get_bytes off 4 (bs_data b)))"

definition BucketStorage_allocate :: "u32 \<Rightarrow> BucketStorage \<Rightarrow> Allocation \<times> BucketStorage" where
  "BucketStorage_allocate sz b =
     (if \<not> canAllocate sz b then (no_alloc, b)
      else
        (let slot = unat (bs_endOffset b);
             b1 = b\<lparr>bs_data := put_bytes slot (to_bytes 4 (unat sz)) (bs_data b)\<rparr>;
             b2 = b1\<lparr>bs_endOffset := bs_endOffset b1 + slotSize sz, bs_numAllocations := bs_numAllocations b1 + 1\<rparr>
         in (\<lparr>al_data = Some (slot + 4), al_size = unat (Slot_size slot b2), al_position = bs_numAllocations b2 - 1\<rparr>, b2)))"

fun remove_loop :: "Allocation list \<Rightarrow> u32 \<Rightarrow> u32 \<Rightarrow> BucketStorage \<Rightarrow> u32 \<times> u32 \<times> BucketStorage" where
  "remove_loop [] srcOffset dstOffset b = (srcOffset, dstOffset, b)"
| "remove_loop (alloc # allocs) srcOffset dstOffset b =
     (let allocOffset = of_nat (al_offset alloc);
          removedOffset = allocOffset - kAllocationOverhead;
          len = removedOffset - srcOffset;
          b1 = (if srcOffset \<noteq> removedOffset \<and> dstOffset \<noteq> srcOffset
                then b\<lparr>bs_data := memmove (unat dstOffset) (unat srcOffset) (unat len) (bs_data b)\<rparr> else b);
          dst1 = (if srcOffset \<noteq> removedOffset then dstOffset + len else dstOffset)
      in remove_loop allocs (allocOffset + of_nat (al_size alloc)) dst1 (b1\<lparr>bs_numAllocations := bs_numAllocations b1 - 1\<rparr>))"

definition BucketStorage_remove :: "Allocation list \<Rightarrow> BucketStorage \<Rightarrow> BucketStorage" where
  "BucketStorage_remove allocs b =
     (if allocs = [] then b
      else
        (let (srcOffset, dstOffset, b1) = remove_loop allocs 0 0 b;
             len = bs_endOffset b1 - srcOffset
         in if srcOffset \<noteq> bs_endOffset b1
            then b1\<lparr>bs_data := memmove (unat dstOffset) (unat srcOffset) (unat len) (bs_data b1), bs_endOffset := dstOffset + len\<rparr>
            else b1\<lparr>bs_endOffset := dstOffset\<rparr>))"

definition BucketStorage_removeUntil :: "Allocation \<Rightarrow> BucketStorage \<Rightarrow> BucketStorage" where
  "BucketStorage_removeUntil alloc b =
     (if al_done alloc then b
      else
        (let offset = of_nat (al_offset alloc + al_size alloc)
         in if offset > bs_endOffset b then b
            else b\<lparr>bs_data := memmove 0 (unat offset) (unat (bs_endOffset b - offset)) (bs_data b),
                   bs_endOffset := bs_endOffset b - offset,
                   bs_numAllocations := bs_numAllocations b - (al_position alloc + 1)\<rparr>))"

definition BucketStorage_getFirst :: "BucketStorage \<Rightarrow> Allocation" where
  "BucketStorage_getFirst b =
     (if bs_endOffset b = 0 then no_alloc
      else \<lparr>al_data = Some 4, al_size = unat (Slot_size 0 b), al_position = 0\<rparr>)"

definition BucketStorage_getNext :: "Allocation \<Rightarrow> BucketStorage \<Rightarrow> Allocation" where
  "BucketStorage_getNext alloc b =
     (if al_done alloc then no_alloc
      else
        (let nextSlot = al_offset alloc + al_size alloc
         in if nextSlot \<ge> unat (bs_endOffset b) then no_alloc
            else \<lparr>al_data = Some (nextSlot + 4), al_size = unat (Slot_size nextSlot b), al_position = al_position alloc + 1\<rparr>))"

section \<open>What the storage stands for\<close>

definition slot_bytes :: "u8 list \<Rightarrow> u8 list" where
  "slot_bytes x = to_bytes 4 (length x) @ x"

abbreviation layout :: "u8 list list \<Rightarrow> u8 list" where
  "layout xs \<equiv> concat (map slot_bytes xs)"

definition storage_rep :: "BucketStorage \<Rightarrow> u8 list list \<Rightarrow> bool" where
  "storage_rep b xs \<longleftrightarrow> length (bs_data b) = unat (bs_capacity b) \<and> length (layout xs) \<le> unat (bs_capacity b) \<and>
     bs_endOffset b = of_nat (length (layout xs)) \<and> take (length (layout xs)) (bs_data b) = layout xs \<and>
     bs_numAllocations b = of_nat (length xs)"

text \<open>The allocation at index \<open>i\<close>.\<close>

definition nth_alloc :: "u8 list list \<Rightarrow> nat \<Rightarrow> Allocation" where
  "nth_alloc xs i =
     (if i < length xs then \<lparr>al_data = Some (length (layout (take i xs)) + 4), al_size = length (xs ! i), al_position = of_nat i\<rparr>
      else no_alloc)"

lemma length_to_bytes [simp]: "length (to_bytes n x) = n"
  by (induction n arbitrary: x) simp_all

lemma from_to_bytes: "x < 256 ^ n \<Longrightarrow> from_bytes (to_bytes n x) = x"
proof (induction n arbitrary: x)
  case (Suc n)
  then have "x div 256 < 256 ^ n" by (simp add: less_mult_imp_div_less mult.commute)
  then show ?case by (simp add: Suc.IH unsigned_of_nat take_bit_eq_mod)
qed simp

lemma length_slot_bytes [simp]: "length (slot_bytes x) = 4 + length x"
  by (simp add: slot_bytes_def)

lemma put_bytes_facts:
  assumes "off + length bs \<le> length xs"
  shows "length (put_bytes off bs xs) = length xs" "take (off + length bs) (put_bytes off bs xs) = take off xs @ bs"
    "off + length bs \<le> n \<Longrightarrow> drop n (put_bytes off bs xs) = drop n xs" "n \<le> off \<Longrightarrow> take n (put_bytes off bs xs) = take n xs"
proof -
  define us vs ws where d: "us = take off xs" "vs = take (length bs) (drop off xs)" "ws = drop (length bs) (drop off xs)"
  have x: "xs = us @ vs @ ws" unfolding d by (simp only: append_take_drop_id)
  have "off = length us" "length bs = length vs" unfolding d using assms by simp_all
  with x show "length (put_bytes off bs xs) = length xs" "take (off + length bs) (put_bytes off bs xs) = take off xs @ bs"
    "off + length bs \<le> n \<Longrightarrow> drop n (put_bytes off bs xs) = drop n xs" "n \<le> off \<Longrightarrow> take n (put_bytes off bs xs) = take n xs"
    by (simp_all add: put_bytes_def)
qed

lemma storage_repD:
  assumes "storage_rep b xs"
  shows "length (bs_data b) = unat (bs_capacity b)" "length (layout xs) \<le> unat (bs_capacity b)" "unat (bs_endOffset b) = length (layout xs)"
    "take (length (layout xs)) (bs_data b) = layout xs" "length (layout xs) < 2 ^ 32"
proof -
  have "unat (bs_capacity b) < 2 ^ LENGTH(32)" by (rule unsigned_less)
  then show l: "length (layout xs) < 2 ^ 32" using assms by (simp add: storage_rep_def)
  show "length (bs_data b) = unat (bs_capacity b)" "length (layout xs) \<le> unat (bs_capacity b)"
    "take (length (layout xs)) (bs_data b) = layout xs" using assms by (simp_all add: storage_rep_def)
  show "unat (bs_endOffset b) = length (layout xs)" using assms l by (simp add: storage_rep_def unsigned_of_nat take_bit_nat_eq_self)
qed

lemma layout_split: "i < length xs \<Longrightarrow> layout xs = layout (take i xs) @ slot_bytes (xs ! i) @ layout (drop (Suc i) xs)"
  by (subst id_take_nth_drop [of i xs]) simp_all

lemma get_bytes_append: "get_bytes (length us) (length vs) (us @ vs @ ws) = vs"
  by (simp add: get_bytes_def)

text \<open>Reading inside the slots.\<close>

lemma get_in_layout:
  assumes "storage_rep b xs" "layout xs = us @ vs @ ws"
  shows "get_bytes (length us) (length vs) (bs_data b) = vs"
proof -
  have "bs_data b = us @ vs @ ws @ drop (length (layout xs)) (bs_data b)"
    using storage_repD(4) [OF assms(1)] assms(2) append_take_drop_id [of "length (layout xs)" "bs_data b"] by simp
  then show ?thesis using get_bytes_append by metis
qed

lemma read_slot:
  assumes rep: "storage_rep b xs" and i: "i < length xs"
  shows "Slot_size (length (layout (take i xs))) b = of_nat (length (xs ! i))"
    and "get_bytes (length (layout (take i xs)) + 4) (length (xs ! i)) (bs_data b) = xs ! i"
    and "length (xs ! i) < 2 ^ 32" "length (layout (take i xs)) < length (layout xs)"
proof -
  note s = layout_split [OF i]
  have l: "length (layout xs) = length (layout (take i xs)) + (4 + length (xs ! i)) + length (layout (drop (Suc i) xs))"
    by (subst s) simp
  then show n: "length (xs ! i) < 2 ^ 32" using storage_repD(5) [OF rep] by linarith
  show "length (layout (take i xs)) < length (layout xs)" using l by linarith
  have "get_bytes (length (layout (take i xs))) (length (to_bytes 4 (length (xs ! i)))) (bs_data b) = to_bytes 4 (length (xs ! i))"
    by (rule get_in_layout [OF rep, where ws = "xs ! i @ layout (drop (Suc i) xs)"]) (subst s, simp add: slot_bytes_def)
  then show "Slot_size (length (layout (take i xs))) b = of_nat (length (xs ! i))" using n by (simp add: Slot_size_def from_to_bytes)
  have "get_bytes (length (layout (take i xs) @ to_bytes 4 (length (xs ! i)))) (length (xs ! i)) (bs_data b) = xs ! i"
    by (rule get_in_layout [OF rep, where ws = "layout (drop (Suc i) xs)"]) (subst s, simp add: slot_bytes_def)
  then show "get_bytes (length (layout (take i xs)) + 4) (length (xs ! i)) (bs_data b) = xs ! i" by simp
qed


section \<open>The operations on the list of contents\<close>

lemma unat32: "n < 2 ^ 32 \<Longrightarrow> unat (of_nat n :: u32) = n"
  by (simp add: unsigned_of_nat take_bit_nat_eq_self)

lemma storage_repE:
  assumes "storage_rep b xs" obtains r where "bs_data b = layout xs @ r"
  using storage_repD(4) [OF assms] by (metis append_take_drop_id)

lemma storage_repI:
  "bs_data b = layout xs @ r \<Longrightarrow> length (bs_data b) = unat (bs_capacity b) \<Longrightarrow> bs_endOffset b = of_nat (length (layout xs)) \<Longrightarrow>
   bs_numAllocations b = of_nat (length xs) \<Longrightarrow> storage_rep b xs"
  unfolding storage_rep_def by (metis append_eq_conv_conj le_add1 length_append)

lemma layout_take_Suc: "i < length xs \<Longrightarrow> length (layout (take (Suc i) xs)) = length (layout (take i xs)) + 4 + length (xs ! i)"
  by (simp add: take_Suc_conv_app_nth)

lemma layout_eq_Nil: "layout xs = [] \<longleftrightarrow> xs = []"
  by (cases xs) (auto simp: slot_bytes_def to_bytes_def)

lemma new_storage: "length mem = unat capacity \<Longrightarrow> storage_rep (BucketStorage_new capacity mem) []"
  by (simp add: storage_rep_def BucketStorage_new_def)

lemma getFirst_result:
  assumes "storage_rep b xs"
  shows "BucketStorage_getFirst b = nth_alloc xs 0"
proof (cases xs)
  case Nil
  then show ?thesis using assms by (simp add: BucketStorage_getFirst_def storage_rep_def nth_alloc_def)
next
  case (Cons x ys)
  then have "bs_endOffset b \<noteq> 0" using storage_repD(3) [OF assms] by auto
  then show ?thesis using read_slot(1,3) [OF assms, of 0] Cons by (simp add: BucketStorage_getFirst_def nth_alloc_def unat32)
qed

lemma getNext_result:
  assumes rep: "storage_rep b xs" and i: "i < length xs"
  shows "BucketStorage_getNext (nth_alloc xs i) b = nth_alloc xs (Suc i)"
proof (cases "Suc i < length xs")
  case True
  note r = read_slot [OF rep True]
  then show ?thesis using i True storage_repD(3) [OF rep] layout_take_Suc [OF i]
    by (simp add: BucketStorage_getNext_def nth_alloc_def al_offset_def unat32 Let_def)
next
  case False
  then have "layout (take (Suc i) xs) = layout xs" by simp
  then show ?thesis using i False storage_repD(3) [OF rep] layout_take_Suc [OF i]
    by (simp add: BucketStorage_getNext_def nth_alloc_def al_offset_def)
qed

lemma put_bytes_append: "length bs = length vs \<Longrightarrow> put_bytes (length us) bs (us @ vs @ ws) = us @ bs @ ws"
  by (simp add: put_bytes_def)

lemma canAllocate_iff:
  assumes "unat sz + 4 < 2 ^ 32"
  shows "canAllocate sz b \<longleftrightarrow> unat (bs_endOffset b) + 4 + unat sz \<le> unat (bs_capacity b)" "unat (slotSize sz) = 4 + unat sz"
proof -
  show s: "unat (slotSize sz) = 4 + unat sz" using assms by (simp add: slotSize_def unat_word_ariths)
  have u: "unat (ucast w :: u64) = unat w" for w :: u32
  proof -
    have "unat w < 2 ^ LENGTH(32)" by (rule unsigned_less)
    then show ?thesis by (simp add: unsigned_ucast_eq take_bit_nat_eq_self)
  qed
  have "unat (bs_endOffset b) < 2 ^ LENGTH(32)" by (rule unsigned_less)
  then have "unat (ucast (bs_endOffset b) + ucast (slotSize sz) :: u64) = unat (bs_endOffset b) + (4 + unat sz)"
    using assms s by (simp add: unat_word_ariths u)
  then show "canAllocate sz b \<longleftrightarrow> unat (bs_endOffset b) + 4 + unat sz \<le> unat (bs_capacity b)"
    by (simp add: canAllocate_def word_le_nat_alt u add.assoc)
qed

lemma allocate_result:
  assumes rep: "storage_rep b xs" and sz: "unat sz + 4 < 2 ^ 32"
  shows "length (layout xs) + 4 + unat sz \<le> unat (bs_capacity b) \<Longrightarrow>
      \<exists>c b'. length c = unat sz \<and> BucketStorage_allocate sz b = (nth_alloc (xs @ [c]) (length xs), b') \<and> storage_rep b' (xs @ [c]) \<and>
        bs_capacity b' = bs_capacity b"
    and "\<not> length (layout xs) + 4 + unat sz \<le> unat (bs_capacity b) \<Longrightarrow> BucketStorage_allocate sz b = (no_alloc, b)"
proof -
  note can = canAllocate_iff [OF sz] and D = storage_repD [OF rep]
  show "\<not> length (layout xs) + 4 + unat sz \<le> unat (bs_capacity b) \<Longrightarrow> BucketStorage_allocate sz b = (no_alloc, b)"
    using can(1) D(3) by (simp add: BucketStorage_allocate_def)
  assume fits: "length (layout xs) + 4 + unat sz \<le> unat (bs_capacity b)"
  obtain r where r: "bs_data b = layout xs @ r" by (rule storage_repE [OF rep])
  define c where "c = take (unat sz) (drop 4 r)"
  have len: "4 + unat sz \<le> length r" using fits D(1) r by simp
  have c: "length c = unat sz" using len by (simp add: c_def)
  have rr: "r = take 4 r @ c @ drop (unat sz) (drop 4 r)" unfolding c_def by (simp only: append_take_drop_id)
  have "put_bytes (length (layout xs)) (to_bytes 4 (unat sz)) (layout xs @ take 4 r @ c @ drop (unat sz) (drop 4 r)) =
     layout xs @ to_bytes 4 (unat sz) @ c @ drop (unat sz) (drop 4 r)" using len by (intro put_bytes_append) simp
  then have p: "put_bytes (length (layout xs)) (to_bytes 4 (unat sz)) (bs_data b) = layout (xs @ [c]) @ drop (unat sz) (drop 4 r)"
    using r rr c by (simp add: slot_bytes_def)
  let ?b = "b\<lparr>bs_data := put_bytes (length (layout xs)) (to_bytes 4 (unat sz)) (bs_data b), bs_endOffset := bs_endOffset b + slotSize sz,
    bs_numAllocations := bs_numAllocations b + 1\<rparr>"
  have rep': "storage_rep ?b (xs @ [c])"
  proof (rule storage_repI)
    show "bs_data ?b = layout (xs @ [c]) @ drop (unat sz) (drop 4 r)" using p by simp
    show "length (bs_data ?b) = unat (bs_capacity ?b)" using put_bytes_facts(1) [of "length (layout xs)" "to_bytes 4 (unat sz)" "bs_data b"] D(1) fits by simp
    show "bs_endOffset ?b = of_nat (length (layout (xs @ [c])))" "bs_numAllocations ?b = of_nat (length (xs @ [c]))"
      using rep c by (simp_all add: storage_rep_def slotSize_def)
  qed
  have "BucketStorage_allocate sz b = (nth_alloc (xs @ [c]) (length xs), ?b)"
    using can(1) fits D(3) read_slot(1,3) [OF rep', of "length xs"] rep c
    by (simp add: BucketStorage_allocate_def Let_def nth_alloc_def unat32 storage_rep_def)
  then show "\<exists>c b'. length c = unat sz \<and> BucketStorage_allocate sz b = (nth_alloc (xs @ [c]) (length xs), b') \<and> storage_rep b' (xs @ [c]) \<and>
      bs_capacity b' = bs_capacity b"
    using c rep' by (intro exI [of _ c] exI [of _ ?b]) simp
qed


text \<open>Writing through the view of an allocation.\<close>

lemma write_result:
  assumes rep: "storage_rep b xs" and i: "i < length xs" and l: "length bs = length (xs ! i)"
  shows "storage_rep (b\<lparr>bs_data := put_bytes (al_offset (nth_alloc xs i)) bs (bs_data b)\<rparr>) (xs[i := bs])"
proof -
  obtain r where r: "bs_data b = layout xs @ r" by (rule storage_repE [OF rep])
  let ?u = "layout (take i xs) @ to_bytes 4 (length (xs ! i))"
  have "bs_data b = ?u @ xs ! i @ layout (drop (Suc i) xs) @ r" using layout_split [OF i] r by (simp add: slot_bytes_def)
  then have "put_bytes (length ?u) bs (bs_data b) = ?u @ bs @ layout (drop (Suc i) xs) @ r" using put_bytes_append [OF l, of ?u "layout (drop (Suc i) xs) @ r"] by simp
  moreover have "layout (xs[i := bs]) = ?u @ bs @ layout (drop (Suc i) xs)"
    using i l by (simp add: upd_conv_take_nth_drop slot_bytes_def)
  ultimately have d: "put_bytes (al_offset (nth_alloc xs i)) bs (bs_data b) = layout (xs[i := bs]) @ r"
    using i by (simp add: nth_alloc_def al_offset_def)
  have "length (layout (xs[i := bs])) = length (layout xs)"
    unfolding upd_conv_take_nth_drop [OF i] by (subst (3) id_take_nth_drop [OF i]) (simp add: l)
  then show ?thesis using d rep r by (intro storage_repI [where r = r]) (simp_all add: storage_rep_def)
qed

lemma of_nat_minus: "n \<le> m \<Longrightarrow> (of_nat m - of_nat n :: u32) = of_nat (m - n)"
  by (simp add: of_nat_diff)

lemma removeUntil_result:
  assumes rep: "storage_rep b xs" and i: "i < length xs"
  shows "storage_rep (BucketStorage_removeUntil (nth_alloc xs i) b) (drop (Suc i) xs)"
    and "bs_capacity (BucketStorage_removeUntil (nth_alloc xs i) b) = bs_capacity b"
proof -
  obtain r where r: "bs_data b = layout xs @ r" by (rule storage_repE [OF rep])
  note D = storage_repD [OF rep]
  let ?p = "layout (take (Suc i) xs)" and ?q = "layout (drop (Suc i) xs)"
  have pq: "layout xs = ?p @ ?q" by (metis append_take_drop_id concat_append map_append)
  have off: "al_offset (nth_alloc xs i) + al_size (nth_alloc xs i) = length ?p"
    using layout_take_Suc [OF i] i by (simp add: nth_alloc_def al_offset_def)
  have p: "length ?p < 2 ^ 32" "length ?p \<le> length (layout xs)" using D(5) pq by simp_all
  have e: "bs_endOffset b - of_nat (length ?p) = of_nat (length ?q)" using rep pq by (simp add: storage_rep_def)
  have q: "length ?q < 2 ^ 32" using D(5) pq by simp
  have le: "\<not> (of_nat (length ?p) :: u32) > bs_endOffset b" using p D(3) by (simp only: word_less_nat_alt unat32)
  have d: "memmove 0 (length ?p) (length ?q) (bs_data b) = ?q @ drop (length ?q) (bs_data b)"
    using get_bytes_append [of ?p ?q r] r pq by (simp add: memmove_def put_bytes_def)
  have n: "bs_numAllocations b - (of_nat i + 1) = of_nat (length (drop (Suc i) xs))"
    using rep i of_nat_minus [of "Suc i" "length xs"] by (simp add: storage_rep_def add.commute)
  have nd: "al_data (nth_alloc xs i) = Some (length (layout (take i xs)) + 4)" "al_position (nth_alloc xs i) = of_nat i" using i by (simp_all add: nth_alloc_def)
  have b': "BucketStorage_removeUntil (nth_alloc xs i) b = b\<lparr>bs_data := ?q @ drop (length ?q) (bs_data b),
      bs_endOffset := of_nat (length ?q), bs_numAllocations := of_nat (length (drop (Suc i) xs))\<rparr>"
    unfolding BucketStorage_removeUntil_def off Let_def using le e d n nd unat32 [OF p(1)] unat32 [OF q] by simp
  show "storage_rep (BucketStorage_removeUntil (nth_alloc xs i) b) (drop (Suc i) xs)"
    unfolding b' using D(1,2) pq by (intro storage_repI [where r = "drop (length ?q) (bs_data b)"]) simp_all
  show "bs_capacity (BucketStorage_removeUntil (nth_alloc xs i) b) = bs_capacity b" unfolding b' by simp
qed

text \<open>The compaction. Each allocation of \<open>ms\<close> is marked with whether it goes.\<close>

fun marked_allocs :: "nat \<Rightarrow> nat \<Rightarrow> (bool \<times> u8 list) list \<Rightarrow> Allocation list" where
  "marked_allocs off p [] = []"
| "marked_allocs off p ((m, x) # ms) =
     (if m then [\<lparr>al_data = Some (off + 4), al_size = length x, al_position = of_nat p\<rparr>] else []) @
     marked_allocs (off + 4 + length x) (Suc p) ms"

abbreviation kept :: "(bool \<times> u8 list) list \<Rightarrow> u8 list list" where
  "kept ms \<equiv> map snd (filter (\<lambda>m. \<not> fst m) ms)"

definition finish_remove :: "u32 \<times> u32 \<times> BucketStorage \<Rightarrow> BucketStorage" where
  "finish_remove = (\<lambda>(srcOffset, dstOffset, b1).
     let len = bs_endOffset b1 - srcOffset
     in if srcOffset \<noteq> bs_endOffset b1
        then b1\<lparr>bs_data := memmove (unat dstOffset) (unat srcOffset) (unat len) (bs_data b1), bs_endOffset := dstOffset + len\<rparr>
        else b1\<lparr>bs_endOffset := dstOffset\<rparr>)"

lemma memmove_down:
  "memmove (length K) (length K + length junk) (length Z) (K @ junk @ Z @ w) = K @ Z @ drop (length Z) (junk @ Z) @ w"
  using get_bytes_append [of "K @ junk" Z w] by (simp add: memmove_def put_bytes_def)


lemma remove_step:
  assumes d: "bs_data b = K @ junk @ Z @ w" and l: "length (bs_data b) < 2 ^ 32"
  shows "remove_loop (\<lparr>al_data = Some (length K + length junk + length Z + 4), al_size = n, al_position = p\<rparr> # allocs)
      (of_nat (length K + length junk)) (of_nat (length K)) b =
    remove_loop allocs (of_nat (length K + length junk + length Z + 4 + n)) (of_nat (length K + length Z))
      (b\<lparr>bs_data := K @ Z @ drop (length Z) (junk @ Z) @ w, bs_numAllocations := bs_numAllocations b - 1\<rparr>)"
proof -
  have lt: "length K < 2 ^ 32" "length K + length junk < 2 ^ 32" "length K + length junk + length Z < 2 ^ 32" "length Z < 2 ^ 32"
    using l by (simp_all add: d)
  have rm: "of_nat (length K + length junk + length Z + 4) - kAllocationOverhead = (of_nat (length K + length junk + length Z) :: u32)"
    by simp
  have len: "of_nat (length K + length junk + length Z) - of_nat (length K + length junk) = (of_nat (length Z) :: u32)"
    by simp
  have ne: "(of_nat (length K + length junk) :: u32) \<noteq> of_nat (length K + length junk + length Z) \<longleftrightarrow> Z \<noteq> []"
    "(of_nat (length K) :: u32) \<noteq> of_nat (length K + length junk) \<longleftrightarrow> junk \<noteq> []"
    by (simp_all only: word_unat_eq_iff unat32 [OF lt(1)] unat32 [OF lt(2)] unat32 [OF lt(3)]) simp_all
  have mv: "(if Z \<noteq> [] \<and> junk \<noteq> [] then b\<lparr>bs_data := memmove (length K) (length K + length junk) (length Z) (bs_data b)\<rparr> else b) =
      b\<lparr>bs_data := K @ Z @ drop (length Z) (junk @ Z) @ w\<rparr>"
    unfolding d memmove_down using d by (cases "Z = []"; cases "junk = []") simp_all
  show ?thesis
    by (simp only: remove_loop.simps al_offset_def Allocation.simps option.case Let_def rm len ne unat32 [OF lt(1)] unat32 [OF lt(2)] unat32 [OF lt(4)] mv) simp
qed

lemma finish_remove_result:
  assumes d: "bs_data b = K @ junk @ Z @ r" and l: "length (bs_data b) < 2 ^ 32" and e: "bs_endOffset b = of_nat (length K + length junk + length Z)"
  shows "finish_remove (of_nat (length K + length junk), of_nat (length K), b) =
      b\<lparr>bs_data := K @ Z @ drop (length Z) (junk @ Z) @ r, bs_endOffset := of_nat (length K + length Z)\<rparr>"
proof -
  have lt: "length K < 2 ^ 32" "length K + length junk < 2 ^ 32" "length K + length junk + length Z < 2 ^ 32" "length Z < 2 ^ 32"
    using l by (simp_all add: d)
  have len: "of_nat (length K + length junk + length Z) - of_nat (length K + length junk) = (of_nat (length Z) :: u32)" by simp
  have ne: "(of_nat (length K + length junk) :: u32) \<noteq> of_nat (length K + length junk + length Z) \<longleftrightarrow> Z \<noteq> []"
    by (simp only: word_unat_eq_iff unat32 [OF lt(2)] unat32 [OF lt(3)]) simp
  show ?thesis
  proof (cases "Z = []")
    case True
    then show ?thesis using d by (simp add: finish_remove_def e)
  next
    case False
    then show ?thesis
      by (simp only: finish_remove_def Let_def prod.case e ne len unat32 [OF lt(1)] unat32 [OF lt(2)] unat32 [OF lt(4)] d memmove_down) simp
  qed
qed

lemma remove_loop_result:
  assumes "bs_data b = K @ junk @ layout (zs @ map snd ms) @ r" "length (bs_data b) < 2 ^ 32"
    "bs_endOffset b = of_nat (length K + length junk + length (layout (zs @ map snd ms)))"
  shows "\<exists>r'. finish_remove (remove_loop (marked_allocs (length K + length junk + length (layout zs)) p ms)
        (of_nat (length K + length junk)) (of_nat (length K)) b) =
      b\<lparr>bs_data := K @ layout (zs @ kept ms) @ r', bs_endOffset := of_nat (length K + length (layout (zs @ kept ms))),
        bs_numAllocations := bs_numAllocations b - of_nat (length (filter fst ms))\<rparr> \<and>
      length (K @ layout (zs @ kept ms) @ r') = length (bs_data b)"
  using assms
proof (induction ms arbitrary: zs K junk b p)
  case Nil
  let ?Z = "layout zs"
  have d: "bs_data b = K @ junk @ ?Z @ r" using Nil.prems(1) by simp
  have e: "bs_endOffset b = of_nat (length K + length junk + length ?Z)" using Nil.prems(3) by simp
  note f = finish_remove_result [OF d Nil.prems(2) e]
  show ?case using d f by (intro exI [of _ "drop (length ?Z) (junk @ ?Z) @ r"]) simp
next
  case (Cons m ms)
  obtain g x where m: "m = (g, x)" by (rule prod.exhaust)
  show ?case
  proof (cases g)
    case False
    then show ?thesis using Cons.IH [of b K junk "zs @ [x]" "Suc p"] Cons.prems m by (simp add: add.assoc)
  next
    case True
    let ?Z = "layout zs" and ?w = "slot_bytes x @ layout (map snd ms) @ r"
    let ?junk = "drop (length ?Z) (junk @ ?Z)"
    let ?b = "b\<lparr>bs_data := K @ ?Z @ ?junk @ ?w, bs_numAllocations := bs_numAllocations b - 1\<rparr>"
    have d: "bs_data b = K @ junk @ ?Z @ ?w" using Cons.prems(1) m by simp
    note step = remove_step [OF d Cons.prems(2), of "length x" "of_nat p" "marked_allocs (length K + length junk + length ?Z + 4 + length x) (Suc p) ms"]
    have l: "length (bs_data ?b) = length (bs_data b)" by (simp add: d)
    have n: "length (K @ ?Z) + length (?junk @ slot_bytes x) = length K + length junk + length ?Z + 4 + length x" by simp
    have eq: "remove_loop (marked_allocs (length K + length junk + length ?Z) p (m # ms)) (of_nat (length K + length junk)) (of_nat (length K)) b =
      remove_loop (marked_allocs (length (K @ ?Z) + length (?junk @ slot_bytes x) + length (layout [])) (Suc p) ms)
        (of_nat (length (K @ ?Z) + length (?junk @ slot_bytes x))) (of_nat (length (K @ ?Z))) ?b"
      unfolding n using step True m by (simp del: of_nat_add)
    have "bs_data ?b = (K @ ?Z) @ (?junk @ slot_bytes x) @ layout ([] @ map snd ms) @ r" by simp
    moreover have "length (bs_data ?b) < 2 ^ 32" using l Cons.prems(2) by simp
    moreover have "length K + length junk + length (layout (zs @ map snd (m # ms))) =
        length (K @ ?Z) + length (?junk @ slot_bytes x) + length (layout ([] @ map snd ms))" unfolding n by (simp add: m)
    then have "bs_endOffset ?b = of_nat (length (K @ ?Z) + length (?junk @ slot_bytes x) + length (layout ([] @ map snd ms)))"
      using Cons.prems(3) by simp
    ultimately obtain r' where "finish_remove (remove_loop (marked_allocs (length (K @ ?Z) + length (?junk @ slot_bytes x) + length (layout [])) (Suc p) ms)
        (of_nat (length (K @ ?Z) + length (?junk @ slot_bytes x))) (of_nat (length (K @ ?Z))) ?b) =
      ?b\<lparr>bs_data := (K @ ?Z) @ layout ([] @ kept ms) @ r', bs_endOffset := of_nat (length (K @ ?Z) + length (layout ([] @ kept ms))),
        bs_numAllocations := bs_numAllocations ?b - of_nat (length (filter fst ms))\<rparr>"
      "length ((K @ ?Z) @ layout ([] @ kept ms) @ r') = length (bs_data ?b)"
      using Cons.IH [of ?b "K @ ?Z" "?junk @ slot_bytes x" "[]" "Suc p"] by blast
    then show ?thesis unfolding eq using l True m by (intro exI [of _ r']) (simp add: add.commute)
  qed
qed

lemma marked_allocs_nth:
  "k \<le> length xs \<Longrightarrow> marked_allocs (length (layout (take k xs))) k (map (\<lambda>i. (P i, xs ! i)) [k..<length xs]) =
     map (nth_alloc xs) (filter P [k..<length xs])"
proof (induction "length xs - k" arbitrary: k)
  case (Suc n)
  then have k: "k < length xs" by simp
  then show ?case using Suc.hyps(1) [of "Suc k"] Suc.hyps(2) layout_take_Suc [OF k]
    by (simp add: upt_conv_Cons nth_alloc_def)
qed simp

lemma marked_allocs_Nil: "marked_allocs off p ms = [] \<Longrightarrow> kept ms = map snd ms"
  by (induction off p ms rule: marked_allocs.induct) (auto split: if_splits)

lemma remove_marked:
  assumes rep: "storage_rep b (map snd ms)"
  shows "storage_rep (BucketStorage_remove (marked_allocs 0 0 ms) b) (kept ms) \<and> bs_capacity (BucketStorage_remove (marked_allocs 0 0 ms) b) = bs_capacity b"
proof (cases "marked_allocs 0 0 ms = []")
  case True
  then show ?thesis using rep marked_allocs_Nil [OF True] by (simp add: BucketStorage_remove_def)
next
  case False
  let ?as = "marked_allocs 0 0 ms"
  obtain r where r: "bs_data b = layout (map snd ms) @ r" by (rule storage_repE [OF rep])
  note D = storage_repD [OF rep]
  have "unat (bs_capacity b) < 2 ^ LENGTH(32)" by (rule unsigned_less)
  then have lt: "length (bs_data b) < 2 ^ 32" unfolding D(1) by simp
  obtain r' where f: "finish_remove (remove_loop ?as 0 0 b) = b\<lparr>bs_data := layout (kept ms) @ r', bs_endOffset := of_nat (length (layout (kept ms))),
      bs_numAllocations := bs_numAllocations b - of_nat (length (filter fst ms))\<rparr>" "length (layout (kept ms) @ r') = length (bs_data b)"
    using remove_loop_result [of b "[]" "[]" "[]" ms r 0] r lt rep by (auto simp: storage_rep_def)
  have "length ms - length (filter fst ms) = length (kept ms)" using sum_length_filter_compl [of fst ms] by simp
  then have "bs_numAllocations b - of_nat (length (filter fst ms)) = of_nat (length (kept ms))"
    using rep of_nat_minus [of "length (filter fst ms)" "length ms"] length_filter_le [of fst ms] by (simp add: storage_rep_def)
  moreover have "BucketStorage_remove ?as b = finish_remove (remove_loop ?as 0 0 b)"
    using False by (simp add: BucketStorage_remove_def finish_remove_def)
  ultimately show ?thesis using f D(1) by (auto intro!: storage_repI [where r = r'])
qed

lemma storage_remove_result:
  assumes rep: "storage_rep b xs"
  shows "storage_rep (BucketStorage_remove (map (nth_alloc xs) (filter P [0..<length xs])) b) (map ((!) xs) (filter (\<lambda>i. \<not> P i) [0..<length xs]))"
    and "bs_capacity (BucketStorage_remove (map (nth_alloc xs) (filter P [0..<length xs])) b) = bs_capacity b"
proof -
  let ?ms = "map (\<lambda>i. (P i, xs ! i)) [0..<length xs]"
  have xs: "map snd ?ms = xs" by (simp add: comp_def map_nth)
  have kp: "kept ?ms = map ((!) xs) (filter (\<lambda>i. \<not> P i) [0..<length xs])" by (simp add: filter_map comp_def)
  have as: "marked_allocs 0 0 ?ms = map (nth_alloc xs) (filter P [0..<length xs])" using marked_allocs_nth [of 0 xs P] by simp
  note R = remove_marked [of b ?ms, unfolded xs kp as, OF rep]
  then show "storage_rep (BucketStorage_remove (map (nth_alloc xs) (filter P [0..<length xs])) b) (map ((!) xs) (filter (\<lambda>i. \<not> P i) [0..<length xs]))"
    "bs_capacity (BucketStorage_remove (map (nth_alloc xs) (filter P [0..<length xs])) b) = bs_capacity b" by simp_all
qed


section \<open>The interface of the storage\<close>

text \<open>What the loops of a bucket rely on: iteration from the first allocation, in order, to the end.\<close>

locale allocation_queue =
  fixes rep :: "'s \<Rightarrow> 'x list \<Rightarrow> bool" and first_of :: "'s \<Rightarrow> 'a" and next_of :: "'a \<Rightarrow> 's \<Rightarrow> 'a"
    and nth_of :: "'x list \<Rightarrow> nat \<Rightarrow> 'a" and at_end :: "'a \<Rightarrow> bool"
  assumes first_nth: "rep b xs \<Longrightarrow> first_of b = nth_of xs 0"
    and next_nth: "rep b xs \<Longrightarrow> i < length xs \<Longrightarrow> next_of (nth_of xs i) b = nth_of xs (Suc i)"
    and at_end_iff: "at_end (nth_of xs i) \<longleftrightarrow> \<not> i < length xs"
begin

text \<open>Induction along a walk from an allocation to the end.\<close>

lemma walk [consumes 2, case_names stop step]:
  assumes rep: "rep b xs" and i: "i \<le> length xs"
    and stop: "\<And>i. i = length xs \<Longrightarrow> at_end (nth_of xs i) \<Longrightarrow> Q i"
    and step: "\<And>i. i < length xs \<Longrightarrow> \<not> at_end (nth_of xs i) \<Longrightarrow> next_of (nth_of xs i) b = nth_of xs (Suc i) \<Longrightarrow> Q (Suc i) \<Longrightarrow> Q i"
  shows "Q i"
  using i
proof (induction "length xs - i" arbitrary: i)
  case 0
  then show ?case by - (rule stop, simp_all add: at_end_iff)
next
  case (Suc n)
  then have "i < length xs" by simp
  then show ?case using Suc.hyps(1) [of "Suc i"] Suc.hyps(2) by - (rule step, simp_all add: at_end_iff next_nth [OF rep])
qed

lemma iterate:
  assumes rep: "rep b xs"
  shows "k \<le> length xs \<Longrightarrow> ((\<lambda>a. next_of a b) ^^ k) (first_of b) = nth_of xs k"
  by (induction k) (simp_all add: first_nth [OF rep] next_nth [OF rep])

end

lemma nth_alloc_done: "al_data (nth_alloc xs i) = None \<longleftrightarrow> \<not> i < length xs"
  by (simp add: nth_alloc_def)

interpretation storage: allocation_queue storage_rep BucketStorage_getFirst BucketStorage_getNext nth_alloc al_done
  by unfold_locales (simp_all add: getFirst_result getNext_result nth_alloc_done)

section \<open>Properties\<close>

text \<open>
  C11. The storage of a bucket, an array of bytes with a 4-byte size before each allocation, is a queue of allocations. A
  new storage is empty; iteration visits the allocations in order and ends; the view of each allocation holds its bytes, and
  writing through it changes no other allocation; \<open>allocate\<close> appends an allocation of the size asked for when it
  fits and otherwise gives none and changes nothing; \<open>removeUntil\<close> removes the oldest allocations up to
  the one given; \<open>remove\<close>, given any of the allocations in order, removes exactly these and keeps the order and the bytes of the
  others. The number of allocations and the end offset stay exact.
\<close>

theorem bucket_storage_is_a_queue:
  "(length mem = unat capacity \<longrightarrow> storage_rep (BucketStorage_new capacity mem) []) \<and>
   (storage_rep b xs \<longrightarrow>
      (k \<le> length xs \<longrightarrow> ((\<lambda>a. BucketStorage_getNext a b) ^^ k) (BucketStorage_getFirst b) = nth_alloc xs k) \<and>
      (i < length xs \<longrightarrow>
         get_bytes (al_offset (nth_alloc xs i)) (al_size (nth_alloc xs i)) (bs_data b) = xs ! i \<and>
         (length bs = length (xs ! i) \<longrightarrow>
            storage_rep (b\<lparr>bs_data := put_bytes (al_offset (nth_alloc xs i)) bs (bs_data b)\<rparr>) (xs[i := bs])) \<and>
         storage_rep (BucketStorage_removeUntil (nth_alloc xs i) b) (drop (Suc i) xs)) \<and>
      storage_rep (BucketStorage_remove (map (nth_alloc xs) (filter P [0..<length xs])) b)
        (map ((!) xs) (filter (\<lambda>j. \<not> P j) [0..<length xs])) \<and>
      (unat sz + 4 < 2 ^ 32 \<longrightarrow>
         (if length (layout xs) + 4 + unat sz \<le> unat (bs_capacity b)
          then \<exists>c b'. length c = unat sz \<and> BucketStorage_allocate sz b = (nth_alloc (xs @ [c]) (length xs), b') \<and> storage_rep b' (xs @ [c])
          else BucketStorage_allocate sz b = (no_alloc, b))))"
proof ((rule conjI; rule impI), goal_cases)
  case 1
  then show ?case by (rule new_storage)
next
  case 2
  have v: "get_bytes (al_offset (nth_alloc xs i)) (al_size (nth_alloc xs i)) (bs_data b) = xs ! i" if "i < length xs"
    using read_slot(2) [OF 2 that] that by (simp add: nth_alloc_def al_offset_def)
  have a: "if length (layout xs) + 4 + unat sz \<le> unat (bs_capacity b)
      then \<exists>c b'. length c = unat sz \<and> BucketStorage_allocate sz b = (nth_alloc (xs @ [c]) (length xs), b') \<and> storage_rep b' (xs @ [c])
      else BucketStorage_allocate sz b = (no_alloc, b)" if "unat sz + 4 < 2 ^ 32"
    using allocate_result [OF 2 that] by auto
  show ?case by (intro conjI impI storage.iterate [OF 2] v write_result [OF 2] removeUntil_result(1) [OF 2] storage_remove_result(1) [OF 2] a)
qed

text \<open>Two allocations of 2 and 3 bytes in a storage of 20; the first is removed.\<close>

theorem bucket_storage_is_a_queue_witness:
  "\<exists>c d b1 b2. BucketStorage_allocate 2 (BucketStorage_new 20 (replicate 20 0)) = (nth_alloc [c] 0, b1) \<and>
     BucketStorage_allocate 3 b1 = (nth_alloc [c, d] 1, b2) \<and> length c = 2 \<and> length d = 3 \<and>
     storage_rep (BucketStorage_remove [nth_alloc [c, d] 0] b2) [d] \<and> BucketStorage_getFirst b2 = nth_alloc [c, d] 0"
proof -
  let ?b = "BucketStorage_new 20 (replicate 20 0)"
  have "length (replicate 20 (0 :: u8)) = unat (20 :: u32)" by simp
  from mp [OF conjunct1 [OF bucket_storage_is_a_queue] this] have r0: "storage_rep ?b []" .
  have c0: "bs_capacity ?b = 20" by (simp add: BucketStorage_new_def)
  obtain c b1 where 1: "length c = 2" "BucketStorage_allocate 2 ?b = (nth_alloc [c] 0, b1)" "storage_rep b1 [c]"
    using mp [OF conjunct2 [OF bucket_storage_is_a_queue] r0, THEN conjunct2, THEN conjunct2, THEN conjunct2, of 2] c0 by auto
  have c1: "bs_capacity b1 = 20" using 1(2) by (auto simp: BucketStorage_allocate_def BucketStorage_new_def Let_def nth_alloc_def split: if_splits)
  obtain d b2 where 2: "length d = 3" "BucketStorage_allocate 3 b1 = (nth_alloc [c, d] 1, b2)" "storage_rep b2 [c, d]"
    using mp [OF conjunct2 [OF bucket_storage_is_a_queue] 1(3), THEN conjunct2, THEN conjunct2, THEN conjunct2, of 3] c1 1(1) by auto
  note Q = mp [OF conjunct2 [OF bucket_storage_is_a_queue [where k = 0 and P = "\<lambda>j. j = 0"]] 2(3)]
  have "storage_rep (BucketStorage_remove [nth_alloc [c, d] 0] b2) [d]" "BucketStorage_getFirst b2 = nth_alloc [c, d] 0"
    using Q [THEN conjunct2, THEN conjunct2, THEN conjunct1] Q [THEN conjunct1] by (simp_all add: upt_rec)
  then show ?thesis using 1(1,2) 2(1,2) by blast
qed

end
