(* ===== verification/Bucket.thy ===== *)
theory Bucket
  imports BucketStorage
begin

text \<open>
  A bucket of the flash cache for small items (\<open>navy/bighash/Bucket.h\<close> and \<open>.cpp\<close>): entries of key, hash and value,
  laid out byte for byte in the storage of the bucket, oldest first. Loops over the entries that do not end, and accesses
  through a null allocation, are the value \<open>None\<close>. The calls of the destructor callback are returned as a
  list, and \<open>cb\<close> says whether there is a callback; the check for expired values is an argument. The
  specification is the list of the entries.
\<close>

section \<open>Entries\<close>

datatype DestructorEvent = Recycled | Removed | PutFailed

text \<open>A key with its hash, equal when both are.\<close>

type_synonym HashedKey = "u8 list \<times> u64"

type_synonym destructor_calls = "(HashedKey \<times> u8 list \<times> DestructorEvent) list"

text \<open>\<open>be_data\<close> is the memory from the flexible array on.\<close>

record BucketEntry =
  be_keySize :: u32
  be_valueSize :: u32
  be_keyHash :: u64
  be_data :: "u8 list"

definition computeSize :: "u32 \<Rightarrow> u32 \<Rightarrow> u32" where
  "computeSize keySize valueSize = 16 + keySize + valueSize"

definition BucketEntry_create :: "Allocation \<Rightarrow> HashedKey \<Rightarrow> u8 list \<Rightarrow> BucketStorage \<Rightarrow> BucketStorage" where
  "BucketEntry_create alloc hk val b =
     (let p = al_offset alloc;
          keySize = (of_nat (length (fst hk)) :: u32);
          valueSize = (of_nat (length val) :: u32);
          d1 = put_bytes p (to_bytes 4 (unat keySize) @ to_bytes 4 (unat valueSize) @ to_bytes 8 (unat (snd hk))) (bs_data b);
          d2 = put_bytes (p + 16) (fst hk) d1
      in b\<lparr>bs_data := put_bytes (p + 16 + unat keySize) val d2\<rparr>)"

definition getIteratorEntry :: "Allocation \<Rightarrow> BucketStorage \<Rightarrow> BucketEntry" where
  "getIteratorEntry itr b =
     (let p = al_offset itr
      in \<lparr>be_keySize = of_nat (from_bytes (get_bytes p 4 (bs_data b))),
          be_valueSize = of_nat (from_bytes (get_bytes (p + 4) 4 (bs_data b))),
          be_keyHash = of_nat (from_bytes (get_bytes (p + 8) 8 (bs_data b))), be_data = drop (p + 16) (bs_data b)\<rparr>)"

definition hashedKey :: "BucketEntry \<Rightarrow> HashedKey" where
  "hashedKey e = (get_bytes 0 (unat (be_keySize e)) (be_data e), be_keyHash e)"

definition be_value :: "BucketEntry \<Rightarrow> u8 list" where
  "be_value e = get_bytes (unat (be_keySize e)) (unat (be_valueSize e)) (be_data e)"

section \<open>Buckets\<close>

record Bucket =
  bk_checksum :: u32
  bk_generationTime :: u64
  bk_storage :: BucketStorage

definition Bucket_initNew :: "u8 list \<Rightarrow> u64 \<Rightarrow> Bucket" where
  "Bucket_initNew view generationTime =
     \<lparr>bk_checksum = 0, bk_generationTime = generationTime,
      bk_storage = BucketStorage_new (of_nat (length view) - 24) (drop 24 view)\<rparr>"

partial_function (option) entry_loop :: "HashedKey \<Rightarrow> BucketStorage \<Rightarrow> Allocation \<Rightarrow> Allocation option" where
  "entry_loop hk b itr =
     (if al_done itr then Some itr
      else if hashedKey (getIteratorEntry itr b) = hk then Some itr
      else entry_loop hk b (BucketStorage_getNext itr b))"

definition Bucket_find :: "HashedKey \<Rightarrow> Bucket \<Rightarrow> u8 list option option" where
  "Bucket_find hk bk =
     map_option (\<lambda>itr. if al_done itr then None else Some (be_value (getIteratorEntry itr (bk_storage bk))))
       (entry_loop hk (bk_storage bk) (BucketStorage_getFirst (bk_storage bk)))"

definition Bucket_remove :: "bool \<Rightarrow> HashedKey \<Rightarrow> Bucket \<Rightarrow> (u32 \<times> destructor_calls \<times> Bucket) option" where
  "Bucket_remove cb hk bk =
     map_option (\<lambda>itr.
       if al_done itr then (0, [], bk)
       else
         (let entry = getIteratorEntry itr (bk_storage bk)
          in (1, if cb then [(hashedKey entry, be_value entry, Removed)] else [],
              bk\<lparr>bk_storage := BucketStorage_remove [itr] (bk_storage bk)\<rparr>)))
       (entry_loop hk (bk_storage bk) (BucketStorage_getFirst (bk_storage bk)))"

partial_function (option) expired_loop ::
  "bool \<Rightarrow> (u8 list \<Rightarrow> bool) \<Rightarrow> BucketStorage \<Rightarrow> Allocation \<Rightarrow> u32 \<Rightarrow> Allocation list \<Rightarrow> destructor_calls \<Rightarrow>
     (u32 \<times> Allocation list \<times> destructor_calls) option" where
  "expired_loop cb checkExpired b itr evictions removed calls =
     (if al_done itr then Some (evictions, removed, calls)
      else
        (let entry = getIteratorEntry itr b
         in if \<not> checkExpired (be_value entry) then expired_loop cb checkExpired b (BucketStorage_getNext itr b) evictions removed calls
            else expired_loop cb checkExpired b (BucketStorage_getNext itr b) (evictions + 1) (removed @ [itr])
                   (if cb then calls @ [(hashedKey entry, be_value entry, Recycled)] else calls)))"

definition removeExpired :: "bool \<Rightarrow> (u8 list \<Rightarrow> bool) option \<Rightarrow> Allocation \<Rightarrow> BucketStorage \<Rightarrow> (u32 \<times> destructor_calls \<times> BucketStorage) option" where
  "removeExpired cb checkExpired itr b =
     (case checkExpired of
        None \<Rightarrow> Some (0, [], b)
      | Some f \<Rightarrow> map_option (\<lambda>(evictions, removed, calls). (evictions, calls, BucketStorage_remove removed b)) (expired_loop cb f b itr 0 [] []))"

partial_function (option) evict_loop ::
  "bool \<Rightarrow> u32 \<Rightarrow> BucketStorage \<Rightarrow> Allocation \<Rightarrow> u32 \<Rightarrow> u32 \<Rightarrow> destructor_calls \<Rightarrow> (u32 \<times> destructor_calls \<times> BucketStorage) option" where
  "evict_loop cb requiredSize b itr curFreeSpace evictions calls =
     (if cb \<and> al_done itr then None
      else
        (let entry = getIteratorEntry itr b;
             calls1 = (if cb then calls @ [(hashedKey entry, be_value entry, Recycled)] else calls);
             curFreeSpace1 = curFreeSpace + slotSize (of_nat (al_size itr))
         in if curFreeSpace1 \<ge> requiredSize then Some (evictions + 1, calls1, BucketStorage_removeUntil itr b)
            else evict_loop cb requiredSize b (BucketStorage_getNext itr b) curFreeSpace1 (evictions + 1) calls1))"

definition makeSpace ::
  "bool \<Rightarrow> (u8 list \<Rightarrow> bool) option \<Rightarrow> u32 \<Rightarrow> BucketStorage \<Rightarrow> ((u32 \<times> u32) \<times> destructor_calls \<times> BucketStorage) option" where
  "makeSpace cb checkExpired sz b =
     (let requiredSize = slotSize sz
      in if remainingCapacity b \<ge> requiredSize then Some ((0, 0), [], b)
         else Option.bind (removeExpired cb checkExpired (BucketStorage_getFirst b) b) (\<lambda>(evictionExpired, calls, b1).
           let curFreeSpace = remainingCapacity b1
           in if evictionExpired > 0 \<and> curFreeSpace \<ge> requiredSize then Some ((evictionExpired, evictionExpired), calls, b1)
              else map_option (\<lambda>(evictions, calls1, b2). ((evictions, evictionExpired), calls1, b2))
                     (evict_loop cb requiredSize b1 (BucketStorage_getFirst b1) curFreeSpace evictionExpired calls)))"

definition Bucket_insert ::
  "bool \<Rightarrow> (u8 list \<Rightarrow> bool) option \<Rightarrow> HashedKey \<Rightarrow> u8 list \<Rightarrow> Bucket \<Rightarrow> ((u32 \<times> u32) \<times> destructor_calls \<times> Bucket) option" where
  "Bucket_insert cb checkExpired hk val bk =
     (let sz = computeSize (of_nat (length (fst hk))) (of_nat (length val))
      in Option.bind (makeSpace cb checkExpired sz (bk_storage bk)) (\<lambda>(ret, calls, b1).
           let (alloc, b2) = BucketStorage_allocate sz b1
           in if al_done alloc then None
              else Some (ret, calls, bk\<lparr>bk_storage := BucketEntry_create alloc hk val b2\<rparr>)))"

section \<open>What a bucket stands for\<close>

type_synonym entry = "HashedKey \<times> u8 list"

definition entry_bytes :: "entry \<Rightarrow> u8 list" where
  "entry_bytes e = (case e of ((key, hash), val) \<Rightarrow>
     to_bytes 4 (length key) @ to_bytes 4 (length val) @ to_bytes 8 (unat hash) @ key @ val)"

abbreviation entries_rep :: "BucketStorage \<Rightarrow> entry list \<Rightarrow> bool" where
  "entries_rep b es \<equiv> storage_rep b (map entry_bytes es)"

text \<open>The bytes of the entries with their slots, and whether an entry of \<open>n\<close> bytes fits besides.\<close>

abbreviation used_bytes :: "entry list \<Rightarrow> nat" where
  "used_bytes es \<equiv> length (layout (map entry_bytes es))"

definition fits :: "u32 \<Rightarrow> nat \<Rightarrow> entry list \<Rightarrow> bool" where
  "fits capacity n es \<longleftrightarrow> used_bytes es + 4 + n \<le> unat capacity"

definition recycled :: "bool \<Rightarrow> entry list \<Rightarrow> destructor_calls" where
  "recycled cb es = (if cb then map (\<lambda>e. (fst e, snd e, Recycled)) es else [])"

lemma length_entry_bytes: "length (entry_bytes ((key, hash), val)) = 16 + length key + length val"
  by (simp add: entry_bytes_def)

lemma read_entry:
  assumes rep: "entries_rep b es" and i: "i < length es"
  shows "hashedKey (getIteratorEntry (nth_alloc (map entry_bytes es) i) b) = fst (es ! i)"
    and "be_value (getIteratorEntry (nth_alloc (map entry_bytes es) i) b) = snd (es ! i)"
proof -
  obtain key hash val where e: "es ! i = ((key, hash), val)" by (metis prod.exhaust)
  let ?xs = "map entry_bytes es"
  have i': "i < length ?xs" using i by simp
  let ?p = "length (layout (take i ?xs)) + 4"
  have n: "length key < 2 ^ 32" "length val < 2 ^ 32" using read_slot(3) [OF rep i'] i by (simp_all add: e length_entry_bytes)
  have "take (length (entry_bytes (es ! i))) (drop ?p (bs_data b)) = entry_bytes (es ! i)"
    using read_slot(2) [OF rep i'] i by (simp add: get_bytes_def)
  then obtain r where d: "drop ?p (bs_data b) = entry_bytes (es ! i) @ r" by (metis append_take_drop_id)
  have g: "get_bytes (?p + k) m (bs_data b) = take m (drop k (entry_bytes (es ! i) @ r))" for k m
    unfolding d [symmetric] by (simp add: get_bytes_def add.commute)
  have h: "unat hash < 256 ^ 8" using unsigned_less [of hash] by simp
  have p: "al_offset (nth_alloc ?xs i) = ?p" using i by (simp add: nth_alloc_def al_offset_def)
  have "drop (?p + 16) (bs_data b) = drop 16 (entry_bytes (es ! i) @ r)" unfolding d [symmetric] by (simp add: add.commute)
  then have "getIteratorEntry (nth_alloc ?xs i) b =
      \<lparr>be_keySize = of_nat (length key), be_valueSize = of_nat (length val), be_keyHash = hash, be_data = key @ val @ r\<rparr>"
    using n h g [of 0 4] g [of 4 4] g [of 8 8] unfolding getIteratorEntry_def Let_def p
    by (simp add: e entry_bytes_def from_to_bytes)
  then show "hashedKey (getIteratorEntry (nth_alloc ?xs i) b) = fst (es ! i)" "be_value (getIteratorEntry (nth_alloc ?xs i) b) = snd (es ! i)"
    using n by (simp_all add: hashedKey_def be_value_def get_bytes_def e unat32)
qed


lemma entry_loop_result:
  assumes rep: "entries_rep b es" and i: "i \<le> length (map entry_bytes es)"
  shows "entry_loop hk b (nth_alloc (map entry_bytes es) i) =
    Some (nth_alloc (map entry_bytes es) (i + length (takeWhile (\<lambda>e. fst e \<noteq> hk) (drop i es))))"
  using rep i
proof (induction rule: storage.walk)
  case (stop i)
  then show ?case by (subst entry_loop.simps) simp
next
  case (step i)
  then have i: "i < length es" by simp
  have dr: "drop i es = es ! i # drop (Suc i) es" using i by (rule Cons_nth_drop_Suc [symmetric])
  then show ?case using step.hyps step.IH read_entry(1) [OF rep i] by (subst entry_loop.simps) (simp add: nth_alloc_done)
qed

text \<open>The first entry of a key.\<close>

lemma first_entry:
  fixes es :: "entry list" and hk :: HashedKey
  defines "n \<equiv> length (takeWhile (\<lambda>e. fst e \<noteq> hk) es)"
  shows "map_of es hk = (if n < length es then Some (snd (es ! n)) else None)" "n < length es \<Longrightarrow> fst (es ! n) = hk"
proof -
  show f: "n < length es \<Longrightarrow> fst (es ! n) = hk" unfolding n_def using nth_length_takeWhile by fastforce
  show "map_of es hk = (if n < length es then Some (snd (es ! n)) else None)"
    unfolding n_def by (induction es) auto
qed

lemma bucket_find_result:
  assumes rep: "entries_rep (bk_storage bk) es"
  shows "Bucket_find hk bk = Some (map_of es hk)"
  using entry_loop_result [OF rep, of 0 hk] getFirst_result [OF rep] first_entry(1) [of es hk]
    read_entry(2) [OF rep, of "length (takeWhile (\<lambda>e. fst e \<noteq> hk) es)"]
  by (simp add: Bucket_find_def nth_alloc_done)

fun remove_first :: "HashedKey \<Rightarrow> entry list \<Rightarrow> entry list" where
  "remove_first hk [] = []"
| "remove_first hk (e # es) = (if fst e = hk then es else e # remove_first hk es)"

lemma remove_first_nth:
  fixes es :: "entry list" and hk :: HashedKey
  defines "n \<equiv> length (takeWhile (\<lambda>e. fst e \<noteq> hk) es)"
  shows "n < length es \<Longrightarrow> remove_first hk es = take n es @ drop (Suc n) es" "\<not> n < length es \<Longrightarrow> remove_first hk es = es"
  unfolding n_def by (induction es) auto

lemma filter_not_index: "n < m \<Longrightarrow> filter (\<lambda>i. i \<noteq> n) [0..<m] = [0..<n] @ [Suc n..<m]" "n < m \<Longrightarrow> filter (\<lambda>i. i = n) [0..<m] = [n]"
proof -
  assume "n < m"
  then have u: "[0..<m] = [0..<n] @ n # [Suc n..<m]" using upt_add_eq_append [of 0 n "m - n"] upt_conv_Cons [of n m] by simp
  show "filter (\<lambda>i. i \<noteq> n) [0..<m] = [0..<n] @ [Suc n..<m]" unfolding u by (simp add: filter_id_conv)
  show "filter (\<lambda>i. i = n) [0..<m] = [n]" unfolding u by (simp add: filter_empty_conv)
qed

lemma nth_without: "n < length xs \<Longrightarrow> map ((!) xs) ([0..<n] @ [Suc n..<length xs]) = take n xs @ drop (Suc n) xs"
  by (rule nth_equalityI) (auto simp: nth_append)

lemma bucket_remove_result:
  assumes rep: "entries_rep (bk_storage bk) es"
  obtains bk' where "Bucket_remove cb hk bk =
      Some (case map_of es hk of None \<Rightarrow> (0, [], bk) | Some v \<Rightarrow> (1, if cb then [(hk, v, Removed)] else [], bk'))"
    "map_of es hk \<noteq> None \<Longrightarrow> entries_rep (bk_storage bk') (remove_first hk es)"
proof -
  let ?n = "length (takeWhile (\<lambda>e. fst e \<noteq> hk) es)" and ?xs = "map entry_bytes es"
  let ?bk = "bk\<lparr>bk_storage := BucketStorage_remove [nth_alloc ?xs ?n] (bk_storage bk)\<rparr>"
  note L = entry_loop_result [OF rep, of 0 hk] getFirst_result [OF rep] and F = first_entry [where es = es and hk = hk]
  have "entries_rep (bk_storage ?bk) (remove_first hk es)" if n: "?n < length es"
  proof -
    have "map ((!) ?xs) (filter (\<lambda>i. \<not> i = ?n) [0..<length ?xs]) = map entry_bytes (remove_first hk es)"
      using n filter_not_index(1) [of ?n "length es"] remove_first_nth(1) [OF n] nth_without [of ?n ?xs]
      by (simp add: take_map drop_map)
    then show ?thesis using storage_remove_result(1) [OF rep, of "\<lambda>i. i = ?n"] filter_not_index(2) [of ?n "length es"] n by simp
  qed
  then show thesis using that [of ?bk] L F read_entry [OF rep, of ?n]
    by (auto simp: Bucket_remove_def nth_alloc_done Let_def split: if_splits)
qed


lemma recycled_simps: "recycled cb [] = []" "recycled cb (es @ es') = recycled cb es @ recycled cb es'"
    "recycled cb (e # es) = (if cb then [(fst e, snd e, Recycled)] else []) @ recycled cb es"
  by (simp_all add: recycled_def)

lemma expired_loop_result:
  assumes rep: "entries_rep b es" and i: "i \<le> length (map entry_bytes es)"
  shows "expired_loop cb f b (nth_alloc (map entry_bytes es) i) ev rem calls =
    Some (ev + of_nat (length (filter (\<lambda>e. f (snd e)) (drop i es))),
      rem @ map (nth_alloc (map entry_bytes es)) (filter (\<lambda>j. f (snd (es ! j))) [i..<length es]),
      calls @ recycled cb (filter (\<lambda>e. f (snd e)) (drop i es)))"
  using rep i
proof (induction arbitrary: ev rem calls rule: storage.walk)
  case (stop i)
  then show ?case by (subst expired_loop.simps) (simp add: recycled_simps)
next
  case (step i)
  then have i: "i < length es" by simp
  have dr: "drop i es = es ! i # drop (Suc i) es" using i by (rule Cons_nth_drop_Suc [symmetric])
  then show ?case using i step.hyps step.IH read_entry [OF rep i] by (subst expired_loop.simps) (simp add: nth_alloc_done recycled_simps upt_conv_Cons)
qed

definition is_expired :: "(u8 list \<Rightarrow> bool) option \<Rightarrow> entry \<Rightarrow> bool" where
  "is_expired checkExpired e = (case checkExpired of None \<Rightarrow> False | Some f \<Rightarrow> f (snd e))"

lemma filter_by_index: "map ((!) es) (filter (\<lambda>i. Q (es ! i)) [0..<length es]) = filter Q es"
  using filter_map [of Q "(!) es" "[0..<length es]"] by (simp add: map_nth comp_def)

lemma removeExpired_result:
  assumes rep: "entries_rep b es"
  obtains b' where "removeExpired cb chk (BucketStorage_getFirst b) b =
      Some (of_nat (length (filter (is_expired chk) es)), recycled cb (filter (is_expired chk) es), b')"
    "entries_rep b' (filter (\<lambda>e. \<not> is_expired chk e) es)" "bs_capacity b' = bs_capacity b"
proof (cases chk)
  case None
  then show thesis using that [of b] rep by (simp add: removeExpired_def is_expired_def recycled_simps)
next
  case (Some f)
  let ?xs = "map entry_bytes es" and ?P = "\<lambda>i. f (snd (es ! i))"
  have ex: "is_expired chk = (\<lambda>e. f (snd e))" by (simp add: is_expired_def Some fun_eq_iff)
  let ?b = "BucketStorage_remove (map (nth_alloc ?xs) (filter ?P [0..<length es])) b"
  note R = storage_remove_result [OF rep, of ?P, simplified length_map]
  have "map ((!) ?xs) (filter (\<lambda>i. \<not> ?P i) [0..<length es]) = map entry_bytes (map ((!) es) (filter (\<lambda>i. \<not> ?P i) [0..<length es]))"
    by simp
  then have kp: "map ((!) ?xs) (filter (\<lambda>i. \<not> ?P i) [0..<length es]) = map entry_bytes (filter (\<lambda>e. \<not> f (snd e)) es)"
    unfolding filter_by_index [of es "\<lambda>e. \<not> f (snd e)"] .
  have "removeExpired cb chk (BucketStorage_getFirst b) b = Some (of_nat (length (filter (is_expired chk) es)), recycled cb (filter (is_expired chk) es), ?b)"
    unfolding ex using expired_loop_result [OF rep, of 0 cb f 0 "[]" "[]"] by (simp add: removeExpired_def Some getFirst_result [OF rep])
  then show thesis using that [of ?b] R kp ex by simp
qed

lemma length_le_layout: "length xs \<le> length (layout xs)"
  by (induction xs) simp_all

lemma used_bytes_drop: "used_bytes es = length (layout (take k (map entry_bytes es))) + used_bytes (drop k es)"
proof -
  have "layout (map entry_bytes es) = layout (take k (map entry_bytes es)) @ layout (map entry_bytes (drop k es))"
    by (metis append_take_drop_id concat_append map_append drop_map)
  then show ?thesis by simp
qed

lemma evict_loop_result:
  assumes rep: "entries_rep b es" and i: "i \<le> length (map entry_bytes es)" and req: "unat req \<le> unat (bs_capacity b)"
  defines "free \<equiv> \<lambda>i. unat (bs_capacity b) - used_bytes es + length (layout (take i (map entry_bytes es)))"
  shows "free i < unat req \<Longrightarrow> \<exists>k. i \<le> k \<and> k < length es \<and> free k < unat req \<and> unat req \<le> free (Suc k) \<and>
    evict_loop cb req b (nth_alloc (map entry_bytes es) i) (of_nat (free i)) ev calls =
      Some (ev + of_nat (Suc k - i), calls @ recycled cb (take (Suc k - i) (drop i es)), BucketStorage_removeUntil (nth_alloc (map entry_bytes es) k) b)"
  using rep i
proof (induction arbitrary: ev calls rule: storage.walk)
  case (stop i)
  then show ?case using req storage_repD(2) [OF rep] by (simp add: free_def)
next
  case (step i)
  then have i: "i < length es" by simp
  let ?xs = "map entry_bytes es"
  have dr: "drop i es = es ! i # drop (Suc i) es" using i by (rule Cons_nth_drop_Suc [symmetric])
  have sz: "al_size (nth_alloc ?xs i) = length (?xs ! i)" using i by (simp add: nth_alloc_def)
  have S: "free (Suc i) = free i + (4 + length (?xs ! i))" using layout_take_Suc [of i ?xs] i by (simp add: free_def)
  have "free (Suc i) \<le> unat (bs_capacity b)" using used_bytes_drop [of es "Suc i"] storage_repD(2) [OF rep] by (simp add: free_def)
  moreover have "unat (bs_capacity b) < 2 ^ LENGTH(32)" by (rule unsigned_less)
  ultimately have lt: "free (Suc i) < 2 ^ 32" by simp
  have cur: "of_nat (free i) + slotSize (of_nat (al_size (nth_alloc ?xs i))) = (of_nat (free (Suc i)) :: u32)"
    by (simp add: S sz slotSize_def)
  have ge: "of_nat (free (Suc i)) \<ge> req \<longleftrightarrow> unat req \<le> free (Suc i)" using unat32 [OF lt] by (simp add: word_le_nat_alt)
  note nx = step.hyps(3)
  let ?c = "calls @ recycled cb [es ! i]"
  have one: "evict_loop cb req b (nth_alloc ?xs i) (of_nat (free i)) ev calls =
      (if unat req \<le> free (Suc i) then Some (ev + 1, ?c, BucketStorage_removeUntil (nth_alloc ?xs i) b)
       else evict_loop cb req b (nth_alloc ?xs (Suc i)) (of_nat (free (Suc i))) (ev + 1) ?c)"
    by (subst evict_loop.simps) (simp add: i nth_alloc_done Let_def cur ge nx read_entry [OF rep i] recycled_simps)
  show ?case
  proof (cases "unat req \<le> free (Suc i)")
    case True
    then show ?thesis using one i step.prems by (intro exI [of _ i]) (simp add: dr)
  next
    case False
    have "\<exists>k. Suc i \<le> k \<and> k < length es \<and> free k < unat req \<and> unat req \<le> free (Suc k) \<and>
      evict_loop cb req b (nth_alloc ?xs (Suc i)) (of_nat (free (Suc i))) (ev + 1) ?c =
        Some (ev + 1 + of_nat (Suc k - Suc i), ?c @ recycled cb (take (Suc k - Suc i) (drop (Suc i) es)), BucketStorage_removeUntil (nth_alloc ?xs k) b)"
      by (rule step.IH) (use False in simp)
    then obtain k where k: "Suc i \<le> k" "k < length es" "free k < unat req" "unat req \<le> free (Suc k)"
      "evict_loop cb req b (nth_alloc ?xs (Suc i)) (of_nat (free (Suc i))) (ev + 1) ?c =
        Some (ev + 1 + of_nat (Suc k - Suc i), ?c @ recycled cb (take (Suc k - Suc i) (drop (Suc i) es)), BucketStorage_removeUntil (nth_alloc ?xs k) b)"
      by blast
    have s: "Suc k - i = Suc (Suc k - Suc i)" using k(1) by simp
    show ?thesis using one False k by (intro exI [of _ k]) (simp add: dr s recycled_simps add.assoc del: diff_Suc_Suc)
  qed
qed


lemma remaining_iff:
  assumes rep: "entries_rep b es" and sz: "unat sz + 4 \<le> unat (bs_capacity b)"
  shows "slotSize sz \<le> remainingCapacity b \<longleftrightarrow> fits (bs_capacity b) (unat sz) es"
    "remainingCapacity b = of_nat (unat (bs_capacity b) - used_bytes es)" "unat (slotSize sz) = 4 + unat sz"
proof -
  note D = storage_repD [OF rep]
  have c: "unat (bs_capacity b) < 2 ^ LENGTH(32)" by (rule unsigned_less)
  show s: "unat (slotSize sz) = 4 + unat sz" using sz c by (intro canAllocate_iff(2)) simp
  have "bs_endOffset b \<le> bs_capacity b" using D(2,3) by (simp add: word_le_nat_alt)
  then have r: "unat (remainingCapacity b) = unat (bs_capacity b) - used_bytes es" using D(3) by (simp add: remainingCapacity_def unat_sub)
  then show "remainingCapacity b = of_nat (unat (bs_capacity b) - used_bytes es)" using c by (simp add: word_unat_eq_iff unat32)
  show "slotSize sz \<le> remainingCapacity b \<longleftrightarrow> fits (bs_capacity b) (unat sz) es"
    using D(2) by (auto simp: word_le_nat_alt r s fits_def)
qed

lemma fits_drop:
  assumes "used_bytes es \<le> unat C"
  shows "fits C n (drop k es) \<longleftrightarrow> 4 + n \<le> unat C - used_bytes es + length (layout (take k (map entry_bytes es)))"
  unfolding fits_def using used_bytes_drop [of es k] assms by arith

text \<open>
  Space is made for \<open>n\<close> bytes: nothing happens when they fit; otherwise the expired entries go first, and then as few
  as possible of the oldest ones.
\<close>

definition survivors :: "u32 \<Rightarrow> nat \<Rightarrow> (u8 list \<Rightarrow> bool) option \<Rightarrow> entry list \<Rightarrow> entry list" where
  "survivors C n chk es = (if fits C n es then es else filter (\<lambda>e. \<not> is_expired chk e) es)"

definition made_space ::
  "bool \<Rightarrow> (u8 list \<Rightarrow> bool) option \<Rightarrow> u32 \<Rightarrow> nat \<Rightarrow> entry list \<Rightarrow> (u32 \<times> u32) \<times> destructor_calls \<Rightarrow> entry list \<Rightarrow> bool" where
  "made_space cb chk C n es out es' \<longleftrightarrow>
     (\<exists>k \<le> length (survivors C n chk es).
        es' = drop k (survivors C n chk es) \<and> fits C n es' \<and> (\<forall>j < k. \<not> fits C n (drop j (survivors C n chk es))) \<and>
        out = ((of_nat (length es - length es'), of_nat (length es - length (survivors C n chk es))),
               (if fits C n es then [] else recycled cb (filter (is_expired chk) es)) @ recycled cb (take k (survivors C n chk es))))"

lemma used_bytes_mono: "j \<le> k \<Longrightarrow> used_bytes (drop k es) \<le> used_bytes (drop j es)"
  using used_bytes_drop [of "drop j es" "k - j"] by simp

lemma made_spaceI:
  assumes "k \<le> length es1" "survivors C n chk es = es1" "es' = drop k es1" "fits C n es'" "k > 0 \<Longrightarrow> \<not> fits C n (drop (k - 1) es1)"
    "out = ((of_nat (length es - length es'), of_nat (length es - length es1)), (if fits C n es then [] else recycled cb (filter (is_expired chk) es)) @ recycled cb (take k es1))"
  shows "made_space cb chk C n es out es'"
proof -
  have "\<not> fits C n (drop j es1)" if "j < k" for j
  proof -
    have "used_bytes (drop (k - 1) es1) \<le> used_bytes (drop j es1)" using that by (intro used_bytes_mono) simp
    moreover have "\<not> fits C n (drop (k - 1) es1)" using that by (intro assms(5)) simp
    ultimately show ?thesis unfolding fits_def by linarith
  qed
  then show ?thesis unfolding made_space_def assms(2) using assms(1,3,4,6) by blast
qed


lemma evict_survivors:
  assumes rep: "entries_rep b es1" and sz: "unat sz + 4 \<le> unat (bs_capacity b)" and no: "\<not> fits (bs_capacity b) (unat sz) es1"
  obtains k b' where "k < length es1" "evict_loop cb (slotSize sz) b (BucketStorage_getFirst b) (remainingCapacity b) ev calls =
      Some (ev + of_nat (Suc k), calls @ recycled cb (take (Suc k) es1), b')"
    "entries_rep b' (drop (Suc k) es1)" "bs_capacity b' = bs_capacity b"
    "fits (bs_capacity b) (unat sz) (drop (Suc k) es1)" "\<not> fits (bs_capacity b) (unat sz) (drop k es1)"
proof -
  let ?xs = "map entry_bytes es1" and ?C = "bs_capacity b"
  note R = remaining_iff [OF rep sz] and D = storage_repD [OF rep]
  have req: "unat (slotSize sz) \<le> unat ?C" using R(3) sz by simp
  have f0: "unat ?C - used_bytes es1 + length (layout (take 0 ?xs)) < unat (slotSize sz)"
    using no D(2) R(3) unfolding fits_def by simp
  from evict_loop_result [OF rep le0 req f0, of cb ev calls] obtain k where k: "k < length es1"
    "unat ?C - used_bytes es1 + length (layout (take k ?xs)) < unat (slotSize sz)"
    "unat (slotSize sz) \<le> unat ?C - used_bytes es1 + length (layout (take (Suc k) ?xs))"
    "evict_loop cb (slotSize sz) b (nth_alloc ?xs 0) (of_nat (unat ?C - used_bytes es1 + length (layout (take 0 ?xs)))) ev calls =
      Some (ev + of_nat (Suc k - 0), calls @ recycled cb (take (Suc k - 0) (drop 0 es1)), BucketStorage_removeUntil (nth_alloc ?xs k) b)" by blast
  have e: "evict_loop cb (slotSize sz) b (BucketStorage_getFirst b) (remainingCapacity b) ev calls =
      Some (ev + of_nat (Suc k), calls @ recycled cb (take (Suc k) es1), BucketStorage_removeUntil (nth_alloc ?xs k) b)"
    using k(4) unfolding getFirst_result [OF rep] R(2) by simp
  have kx: "k < length ?xs" using k(1) by simp
  have "entries_rep (BucketStorage_removeUntil (nth_alloc ?xs k) b) (drop (Suc k) es1)" using removeUntil_result(1) [OF rep kx] by (simp add: drop_map)
  moreover have "fits ?C (unat sz) (drop (Suc k) es1)" "\<not> fits ?C (unat sz) (drop k es1)"
    using k(2,3) unfolding fits_drop [OF D(2)] R(3) by linarith+
  ultimately show thesis using that [OF k(1) e] removeUntil_result(2) [OF rep kx] by blast
qed

lemma makeSpace_result:
  assumes rep: "entries_rep b es" and sz: "unat sz + 4 \<le> unat (bs_capacity b)"
  obtains out b' es' where "makeSpace cb chk sz b = Some (fst out, snd out, b')" "made_space cb chk (bs_capacity b) (unat sz) es out es'"
    "entries_rep b' es'" "bs_capacity b' = bs_capacity b"
proof (cases "fits (bs_capacity b) (unat sz) es")
  case True
  then have "makeSpace cb chk sz b = Some ((0, 0), [], b)" using remaining_iff(1) [OF rep sz] by (simp add: makeSpace_def)
  moreover have "made_space cb chk (bs_capacity b) (unat sz) es ((0, 0), []) es"
    using True by (intro made_spaceI [of 0 es]) (simp_all add: survivors_def recycled_simps)
  ultimately show thesis using that [of "((0, 0), [])" b es] rep by simp
next
  case False
  let ?C = "bs_capacity b" and ?n = "unat sz" and ?ex = "filter (is_expired chk) es"
  define es1 where "es1 = filter (\<lambda>e. \<not> is_expired chk e) es"
  have sv: "survivors ?C ?n chk es = es1" using False by (simp add: survivors_def es1_def)
  have cnt: "length es - length es1 = length ?ex" using sum_length_filter_compl [of "is_expired chk" es] by (simp add: es1_def)
  obtain b1 where b1: "removeExpired cb chk (BucketStorage_getFirst b) b = Some (of_nat (length ?ex), recycled cb ?ex, b1)"
    "entries_rep b1 es1" "bs_capacity b1 = ?C" unfolding es1_def by (rule removeExpired_result [OF rep])
  have sz1: "unat sz + 4 \<le> unat (bs_capacity b1)" using sz b1(3) by simp
  note R1 = remaining_iff [OF b1(2) sz1] and R = remaining_iff(1) [OF rep sz]
  have "length es \<le> used_bytes es" using length_le_layout [of "map entry_bytes es"] unfolding length_map .
  then have "length ?ex \<le> used_bytes es" by (rule le_trans [OF length_filter_le])
  then have "length ?ex < 2 ^ 32" using storage_repD(5) [OF rep] by linarith
  then have u: "unat (of_nat (length ?ex) :: u32) = length ?ex" by (rule unat32)
  show thesis
  proof (cases "fits ?C ?n es1")
    case True
    have "?ex \<noteq> []"
    proof
      assume "?ex = []"
      then have "es1 = es" unfolding es1_def by (intro filter_True) (simp add: filter_empty_conv)
      then show False using True False by simp
    qed
    then have "(of_nat (length ?ex) :: u32) > 0" using u by (simp add: word_less_nat_alt)
    then have "makeSpace cb chk sz b = Some ((of_nat (length ?ex), of_nat (length ?ex)), recycled cb ?ex, b1)"
      using True False R R1(1) b1(1,3) by (simp add: makeSpace_def Let_def)
    moreover have "made_space cb chk ?C ?n es ((of_nat (length ?ex), of_nat (length ?ex)), recycled cb ?ex) es1"
      by (rule made_spaceI [OF le0 sv]) (use True False cnt in \<open>simp_all add: recycled_simps\<close>)
    ultimately show thesis using that [of "((of_nat (length ?ex), of_nat (length ?ex)), recycled cb ?ex)" b1 es1] b1(2,3) by simp
  next
    case no: False
    obtain k b' where k: "k < length es1" "evict_loop cb (slotSize sz) b1 (BucketStorage_getFirst b1) (remainingCapacity b1) (of_nat (length ?ex)) (recycled cb ?ex) =
      Some (of_nat (length ?ex) + of_nat (Suc k), recycled cb ?ex @ recycled cb (take (Suc k) es1), b')"
      "entries_rep b' (drop (Suc k) es1)" "bs_capacity b' = bs_capacity b1"
      "fits (bs_capacity b1) (unat sz) (drop (Suc k) es1)" "\<not> fits (bs_capacity b1) (unat sz) (drop k es1)"
      by (rule evict_survivors [OF b1(2) sz1]) (use no b1(3) in simp_all)
    let ?out = "((of_nat (length ?ex) + of_nat (Suc k) :: u32, of_nat (length ?ex) :: u32), recycled cb ?ex @ recycled cb (take (Suc k) es1))"
    have "makeSpace cb chk sz b = Some (fst ?out, snd ?out, b')"
      using False no R R1(1) b1(1,3) k(2) by (simp add: makeSpace_def Let_def)
    moreover have "length es1 \<le> length es" unfolding es1_def by (rule length_filter_le)
    then have "length es - length (drop (Suc k) es1) = length ?ex + Suc k" using k(1) by (simp flip: cnt)
    then have "made_space cb chk ?C ?n es ?out (drop (Suc k) es1)"
      by (intro made_spaceI [OF _ sv, of "Suc k"]) (use k False b1(3) cnt in simp_all)
    ultimately show thesis using that [of ?out b' "drop (Suc k) es1"] k(3,4) b1(3) by simp
  qed
qed


lemma put_put: "off + length a + length c \<le> length d \<Longrightarrow> put_bytes (off + length a) c (put_bytes off a d) = put_bytes off (a @ c) d"
proof -
  assume "off + length a + length c \<le> length d"
  then have "length (take off d) = off" by simp
  then show ?thesis by (simp add: put_bytes_def add.commute add.left_commute)
qed

lemma create_result:
  assumes rep: "storage_rep b (xs @ [c])" and c: "length c = 16 + length key + length val"
  shows "storage_rep (BucketEntry_create (nth_alloc (xs @ [c]) (length xs)) (key, hash) val b) (xs @ [entry_bytes ((key, hash), val)])"
    and "bs_capacity (BucketEntry_create (nth_alloc (xs @ [c]) (length xs)) (key, hash) val b) = bs_capacity b"
proof -
  let ?p = "al_offset (nth_alloc (xs @ [c]) (length xs))" and ?h = "to_bytes 4 (length key) @ to_bytes 4 (length val) @ to_bytes 8 (unat hash)"
  have p: "?p = length (layout xs) + 4" by (simp add: nth_alloc_def al_offset_def)
  have fit: "?p + length c \<le> length (bs_data b)" using storage_repD(1,2) [OF rep] by (simp add: p)
  have n: "length key < 2 ^ 32" "length val < 2 ^ 32" using storage_repD(5) [OF rep] c by simp_all
  have "put_bytes (?p + length (?h @ key)) val (put_bytes (?p + length ?h) key (put_bytes ?p ?h (bs_data b))) =
      put_bytes ?p ((?h @ key) @ val) (bs_data b)"
    by (subst put_put, use fit c in simp, subst put_put) (use fit c in simp_all)
  then have "BucketEntry_create (nth_alloc (xs @ [c]) (length xs)) (key, hash) val b =
      b\<lparr>bs_data := put_bytes ?p (entry_bytes ((key, hash), val)) (bs_data b)\<rparr>"
    using n by (simp add: BucketEntry_create_def Let_def unat32 entry_bytes_def add.assoc)
  then show "storage_rep (BucketEntry_create (nth_alloc (xs @ [c]) (length xs)) (key, hash) val b) (xs @ [entry_bytes ((key, hash), val)])"
    "bs_capacity (BucketEntry_create (nth_alloc (xs @ [c]) (length xs)) (key, hash) val b) = bs_capacity b"
    using write_result [OF rep, of "length xs" "entry_bytes ((key, hash), val)"] c by (simp_all add: length_entry_bytes)
qed

lemma bucket_insert_result:
  assumes rep: "entries_rep (bk_storage bk) es" and sz: "20 + length (fst hk) + length val \<le> unat (bs_capacity (bk_storage bk))"
  obtains out bk' es' where "Bucket_insert cb chk hk val bk = Some (fst out, snd out, bk')"
    "made_space cb chk (bs_capacity (bk_storage bk)) (16 + length (fst hk) + length val) es out es'"
    "entries_rep (bk_storage bk') (es' @ [(hk, val)])" "bs_capacity (bk_storage bk') = bs_capacity (bk_storage bk)"
proof -
  let ?b = "bk_storage bk" and ?sz = "computeSize (of_nat (length (fst hk))) (of_nat (length val))" and ?n = "16 + length (fst hk) + length val"
  obtain key hash where hk: "hk = (key, hash)" by (rule prod.exhaust)
  have c: "unat (bs_capacity ?b) < 2 ^ LENGTH(32)" by (rule unsigned_less)
  have "?sz = of_nat ?n" by (simp add: computeSize_def)
  moreover have "?n < 2 ^ 32" using sz c by simp
  ultimately have u: "unat ?sz = ?n" by (simp only: unat32)
  have sz1: "unat ?sz + 4 \<le> unat (bs_capacity ?b)" "unat ?sz + 4 < 2 ^ 32" using sz c unfolding u by simp_all
  obtain out b1 es' where m: "makeSpace cb chk ?sz ?b = Some (fst out, snd out, b1)" "made_space cb chk (bs_capacity ?b) (unat ?sz) es out es'"
    "entries_rep b1 es'" "bs_capacity b1 = bs_capacity ?b" by (rule makeSpace_result [OF rep sz1(1)])
  have f: "used_bytes es' + 4 + unat ?sz \<le> unat (bs_capacity b1)" using m(2,4) unfolding made_space_def fits_def by auto
  obtain cc b2 where a: "length cc = unat ?sz" "BucketStorage_allocate ?sz b1 = (nth_alloc (map entry_bytes es' @ [cc]) (length (map entry_bytes es')), b2)"
    "storage_rep b2 (map entry_bytes es' @ [cc])" "bs_capacity b2 = bs_capacity b1"
    using allocate_result(1) [OF m(3) sz1(2) f] by blast
  have len: "length cc = 16 + length key + length val" using a(1) u by (simp add: hk)
  note C = create_result [OF a(3) len, of hash]
  let ?bk = "bk\<lparr>bk_storage := BucketEntry_create (nth_alloc (map entry_bytes es' @ [cc]) (length (map entry_bytes es'))) hk val b2\<rparr>"
  have "Bucket_insert cb chk hk val bk = Some (fst out, snd out, ?bk)"
    unfolding Bucket_insert_def Let_def m(1) Option.bind.bind_lunit prod.case a(2) by (simp add: nth_alloc_done)
  then show thesis using that [of out ?bk es'] m(2) [unfolded u] m(4) C a(4) by (simp add: hk)
qed


lemma initNew_result:
  assumes "24 \<le> length view" "length view < 2 ^ 32 + 24"
  shows "entries_rep (bk_storage (Bucket_initNew view g)) []" "unat (bs_capacity (bk_storage (Bucket_initNew view g))) = length view - 24"
proof -
  have "of_nat (length view) - 24 = (of_nat (length view - 24) :: u32)" using of_nat_minus [OF assms(1)] by simp
  moreover have "unat (of_nat (length view - 24) :: u32) = length view - 24" using assms by (intro unat32) simp
  ultimately have u: "unat (of_nat (length view) - 24 :: u32) = length view - 24" by simp
  show "entries_rep (bk_storage (Bucket_initNew view g)) []" using u by (simp add: Bucket_initNew_def new_storage)
  show "unat (bs_capacity (bk_storage (Bucket_initNew view g))) = length view - 24" using u by (simp add: Bucket_initNew_def BucketStorage_new_def)
qed

section \<open>Properties\<close>

text \<open>
  C10. A bucket is a list of entries, oldest first, on the bytes of its memory. A new bucket is empty. In a bucket that
  stands for a list: \<open>find\<close> returns and gives the value of the first entry whose hash and key are those
  looked for; \<open>remove\<close> takes out that entry, tells the destructor callback of it alone, and changes nothing when there is
  none; \<open>insert\<close>, for an entry that fits into an empty bucket, returns and appends the entry after making
  space: nothing is evicted when the entry fits, otherwise all expired entries go and then as few of the oldest
  entries as possible, each reported to the callback once, in order, and counted exactly.
\<close>

theorem bucket_is_a_queue_of_entries:
  "(24 \<le> length view \<and> length view < 2 ^ 32 + 24 \<longrightarrow>
      entries_rep (bk_storage (Bucket_initNew view g)) [] \<and> unat (bs_capacity (bk_storage (Bucket_initNew view g))) = length view - 24) \<and>
   (entries_rep (bk_storage bk) es \<longrightarrow>
      Bucket_find hk bk = Some (map_of es hk) \<and>
      (\<exists>bk'. Bucket_remove cb hk bk =
           Some (case map_of es hk of None \<Rightarrow> (0, [], bk) | Some v \<Rightarrow> (1, if cb then [(hk, v, Removed)] else [], bk')) \<and>
         (map_of es hk \<noteq> None \<longrightarrow> entries_rep (bk_storage bk') (remove_first hk es))) \<and>
      (20 + length (fst hk) + length val \<le> unat (bs_capacity (bk_storage bk)) \<longrightarrow>
         (\<exists>out bk' es'. Bucket_insert cb chk hk val bk = Some (fst out, snd out, bk') \<and>
            made_space cb chk (bs_capacity (bk_storage bk)) (16 + length (fst hk) + length val) es out es' \<and>
            entries_rep (bk_storage bk') (es' @ [(hk, val)]) \<and> bs_capacity (bk_storage bk') = bs_capacity (bk_storage bk))))"
proof ((rule conjI; rule impI), goal_cases)
  case 1
  then show ?case using initNew_result by blast
next
  case 2
  show ?case
  proof (intro conjI impI bucket_find_result [OF 2])
    show "\<exists>bk'. Bucket_remove cb hk bk =
           Some (case map_of es hk of None \<Rightarrow> (0, [], bk) | Some v \<Rightarrow> (1, if cb then [(hk, v, Removed)] else [], bk')) \<and>
         (map_of es hk \<noteq> None \<longrightarrow> entries_rep (bk_storage bk') (remove_first hk es))"
      by (rule bucket_remove_result [OF 2, of cb hk]) blast
    assume "20 + length (fst hk) + length val \<le> unat (bs_capacity (bk_storage bk))"
    then show "\<exists>out bk' es'. Bucket_insert cb chk hk val bk = Some (fst out, snd out, bk') \<and>
            made_space cb chk (bs_capacity (bk_storage bk)) (16 + length (fst hk) + length val) es out es' \<and>
            entries_rep (bk_storage bk') (es' @ [(hk, val)]) \<and> bs_capacity (bk_storage bk') = bs_capacity (bk_storage bk)"
      by (rule bucket_insert_result [OF 2, where cb = cb and chk = chk]) blast
  qed
qed

text \<open>A bucket of 124 bytes: an entry inserted into it is found.\<close>

theorem bucket_is_a_queue_of_entries_witness:
  "\<exists>bk'. Bucket_insert True None ([1], 7) [2, 3] (Bucket_initNew (replicate 124 0) 5) = Some ((0, 0), [], bk') \<and>
     Bucket_find ([1], 7) bk' = Some (Some [2, 3])"
proof -
  let ?bk = "Bucket_initNew (replicate 124 0) 5"
  have v: "24 \<le> length (replicate 124 (0 :: u8)) \<and> length (replicate 124 (0 :: u8)) < 2 ^ 32 + 24" by simp
  have e: "entries_rep (bk_storage ?bk) []" and c: "unat (bs_capacity (bk_storage ?bk)) = 100"
    using mp [OF conjunct1 [OF bucket_is_a_queue_of_entries] v, of 5] by simp_all
  have "20 + length (fst ([1] :: u8 list, 7 :: u64)) + length ([2, 3] :: u8 list) \<le> unat (bs_capacity (bk_storage ?bk))" by (simp add: c)
  from mp [OF mp [OF conjunct2 [OF bucket_is_a_queue_of_entries] e, THEN conjunct2, THEN conjunct2] this, of True None]
  obtain out bk' es' where i: "Bucket_insert True None ([1], 7) [2, 3] ?bk = Some (fst out, snd out, bk')"
    "made_space True None (bs_capacity (bk_storage ?bk)) 19 [] out es'" "entries_rep (bk_storage bk') (es' @ [(([1], 7), [2, 3])])" by auto
  have o: "out = ((0, 0), [])" "es' = []" using i(2) by (auto simp: made_space_def survivors_def recycled_simps split: if_splits)
  have "Bucket_find ([1], 7) bk' = Some (Some [2, 3])"
    using mp [OF conjunct2 [OF bucket_is_a_queue_of_entries] i(3), THEN conjunct1, of "([1], 7)"] o(2) by simp
  then show ?thesis using i(1) o(1) by simp
qed

end
