(* ===== verification/Spec2Isabelle.thy ===== *)
theory Spec2Isabelle
  imports Prelude Refcount Slab CompressedPtr SlabAllocator DList MultiDList SList MMLru AllocationClass SlabRelease
    MemoryPool PoolAccounting MemoryPoolManager MemoryAllocator AllocSizes PoolIsolation ChainedHashTable BucketStorage Bucket
begin

text \<open>
  CacheLib: a verified model of the memory subsystem, of the intrusive containers and the hash table of the
  cache, and of the buckets of its flash cache. File names below are relative to \<open>src/cachelib\<close>.

  \<^bold>\<open>The program.\<close> The cache keeps items in slabs of 4 MB. \<open>allocator/memory\<close> cuts a region of memory into slabs
  (\<open>SlabAllocator\<close>) and slabs into allocations of one size (\<open>AllocationClass\<close>); a pool (\<open>MemoryPool\<close>) has a size
  limit and one class per allocation size, the manager (\<open>MemoryPoolManager\<close>) divides the memory among the pools, and
  \<open>MemoryAllocator\<close> is the interface to all of them. An item packs its life cycle (handles, membership of containers,
  exclusive ownership, flags) into one atomic word (\<open>allocator/Refcount.h\<close>). Items are linked by compressed
  pointers (\<open>CompressedPtr.h\<close>) into intrusive lists (\<open>allocator/datastruct\<close>), from which the eviction container
  \<open>MMLru.h\<close> is built, and into the chains of the access container \<open>ChainedHashTable.h\<close>. On flash, small items are
  stored in buckets (\<open>navy/bighash\<close>).

  \<^bold>\<open>How the code is modelled.\<close> A class is a record, an operation a function on it that returns the new state; an
  exception is the left summand of a result, together with the state it leaves behind where the code has changed any.
  Integers have the width of the source and wrap (\<open>Prelude\<close>). Memory that several objects share is a store indexed by
  address: hooks, keys and reference count words of items, the headers of the slabs, the bytes of a flash bucket. A section under a lock is one
  step; where the code releases a lock and takes it again, other threads run in between, either as steps of a
  transition relation or as an argument. A loop along pointers that need not end is a \<open>partial_function\<close> into \<open>option\<close>, and the
  properties state that it returns; no definition takes fuel. The compare-and-swap loop returns as soon as other threads leave
  the word alone for one attempt. Random choices, \<open>madvise\<close>, callbacks, the maker of handles and computations on doubles are
  arguments.

  \<^bold>\<open>The theories.\<close>
  \<^item> \<open>Prelude\<close>: machine types, exceptions, and facts on words, lists and options shared by all.
  \<^item> \<open>Refcount\<close> (\<open>Refcount.h\<close>): the 32-bit word and its operations, the loop \<open>atomicUpdateValue\<close> and the protocol in
    which threads use the word. The word implements a counter with flags (C6), its loop is linearisable and returns (C13), and
    no handle is out for an item marked for eviction (C7).
  \<^item> \<open>Slab\<close> and \<open>CompressedPtr\<close> (\<open>Slab.h\<close>, \<open>CompressedPtr.h\<close>): slab headers, release contexts, the 4- and 5-byte pointer
    formats (C33, C34) and the contract of a compressor, the locale \<open>ptr_compressor\<close>, on which all intrusive containers rest.
  \<^item> \<open>SlabAllocator\<close>: slabs are partitioned between their owners in every reachable state (C8), a slab is refused only
    when there is none (C23), compression of pointers to allocations is a round trip (C18; it interprets
    \<open>ptr_compressor\<close>), and so is saving and restoring (C26); the memory locker (C35), a miscount (C39) and the limits of the
    alternative compression (C40).
  \<^item> \<open>DList\<close>, \<open>MultiDList\<close>, \<open>SList\<close>: the intrusive lists implement lists of addresses (C12, C22, C29) and iteration
    visits them (C30, C31), backward iteration over several lists excepted (C38).
  \<^item> \<open>MMLru\<close>: the LRU container with insertion point and tail marks. Invariant under all interleavings (C5), what each
    operation does (C9), eviction order (C15), restoring (C28). The locale \<open>lru_items\<close> extends \<open>ptr_compressor\<close>.
  \<^item> \<open>AllocationClass\<close> defines the class and proves each section under its lock; \<open>SlabRelease\<close> is the machine of all
    interleavings of clients and the release of slabs: no allocation is handed out twice or given away with its slab (C2, C14), allocations
    are refused only when there are none (C20), errors change nothing (C32), completion returns (C21), restoring (C27), and
    what an aborted release does (C36). The free list is the abstract list that \<open>SList\<close> implements.
  \<^item> \<open>MemoryPool\<close> and \<open>PoolAccounting\<close>: the class for a size (C24), the counters of a pool (C4) and where they go wrong (C37).
  \<^item> \<open>MemoryPoolManager\<close>: pools never reserve more than the memory (C17); the plan of slabs to advise away is exact (C16).
  \<^item> \<open>MemoryAllocator\<close>, \<open>AllocSizes\<close>, \<open>PoolIsolation\<close>: the interface, the generators of allocation sizes (C25), and the whole subsystem:
    in every state that clients can reach, allocations held lie in slab memory, belong to their pool, can be freed and never overlap (C1).
  \<^item> \<open>ChainedHashTable\<close> (with \<open>common/Hash.h\<close> and \<open>common/MurmurHash.h\<close>): the table implements a map from keys to items and keeps
    the accessible flags of the items exact (C3); iteration visits each item once and ends (C19).
  \<^item> \<open>BucketStorage\<close> and \<open>Bucket\<close> (\<open>navy/bighash\<close>): on the bytes of a bucket, the storage is a queue of allocations (C11; the locale
    \<open>allocation_queue\<close> is what the loops of a bucket use of it) and the bucket a queue of entries that evicts as few as possible (C10).

  \<^bold>\<open>Bounds.\<close> Properties with compressed pointers hold for the allocations of slab memory no larger than
  the format can address (\<open>valid_allocs\<close>), as the code demands of its configuration. Iteration over the hash table assumes fewer than \<open>2\<^sup>3\<^sup>2\<close>
  items, since the cursor in a bucket has 32 bits. A flash bucket has a capacity below \<open>2\<^sup>3\<^sup>2\<close> bytes, as its
  offsets have 32 bits.

  \<^bold>\<open>Not modelled.\<close> The facade \<open>CacheAllocator.h\<close>, which composes the components with handles, thread-local statistics and
  callbacks of the user; the other eviction containers (\<open>MM2Q.h\<close>, \<open>MMTinyLFU.h\<close>, \<open>MMWTinyLFU.h\<close>); rebalancing strategies, which are heuristics
  over floating-point statistics, and the threads that run them; the rest of the flash cache (device I/O, block cache, index, scheduling on
  fibers, its front end \<open>nvmcache\<close>); compact cache, object cache and data types over chained items; shared
  memory, persistence and statistics; benchmarks, bindings and servers. Inside the modelled components: weak memory
  orders of the atomics (steps are sequentially consistent), the system calls \<open>mmap\<close>, \<open>munmap\<close> and \<open>mlock\<close>, logging, sleeping,
  prefetching and throttling; the release of handles an iterator of the hash table drops; the checksum and random sampling of a flash bucket.
\<close>

end
